theory Spec2Isabelle
  imports Main "HOL-Library.Word"
begin

unbundle bit_operations_syntax

section \<open>Machine types and build-time constants\<close>

type_synonym u8 = "8 word"
type_synonym u16 = "16 word"
type_synonym u32 = "32 word"

text \<open>
  \<^verbatim>\<open>fdsemu.c\<close> takes its sizes and thresholds from macros of \<^verbatim>\<open>fdsemu.h\<close> and
  \<^verbatim>\<open>ffconf.h\<close>. The functions below take them as a parameter \<open>K\<close>: every theorem
  holds for all values of the macros, or names the condition on them that it needs.
  C \<^verbatim>\<open>int\<close> is modelled as \<open>int\<close> (the quantities here stay far below \<open>2^31\<close>),
  the fixed-width unsigned types as words.
\<close>

record fds_consts =
  FDS_MAX_SIDE_SIZE :: int
  FDS_FIRST_GAP_READ_BITS :: int
  FDS_NEXT_GAPS_READ_BITS :: int
  FDS_READ_IMPULSE_LENGTH :: int
  FDS_READ_BUFFER_SIZE :: nat
  FDS_WRITE_BUFFER_SIZE :: nat
  FDS_NOT_READY_BYTES :: int
  FDS_NOT_READY_TIME :: int
  FDS_NOT_READY_TIME_ORIGINAL :: int
  FDS_AUTOSAVE_DELAY :: int
  FDS_THRESHOLD_1 :: int
  FDS_THRESHOLD_2 :: int
  FDS_WRITE_GAP_SKIP_BITS :: int
  FDS_MULTI_WRITE_UNLICENSED_BITS :: int
  FF_MAX_LFN :: nat

text \<open>Modelled from the spec: \<^verbatim>\<open>FDS_ROM_SIDE_SIZE\<close> (\<^verbatim>\<open>fdsemu.h\<close>), the size of one
  side in the image file; the spec gives 65500.\<close>

definition FDS_ROM_SIDE_SIZE :: int where
  "FDS_ROM_SIDE_SIZE = 65500"

text \<open>Modelled from the spec: \<^verbatim>\<open>FDS_ROM_HEADER_SIZE\<close> (\<^verbatim>\<open>fdsemu.h\<close>), the length of
  the optional file prefix; the spec gives 16, and \<^verbatim>\<open>fds_load_side\<close> compares the same
  remainder with the literal 16.\<close>

definition FDS_ROM_HEADER_SIZE :: int where
  "FDS_ROM_HEADER_SIZE = 16"

text \<open>\<^verbatim>\<open>FDS_FIRST_GAP_READ_BITS / 8\<close> and \<^verbatim>\<open>FDS_NEXT_GAPS_READ_BITS / 8\<close>.\<close>

definition first_gap :: "fds_consts \<Rightarrow> int" where
  "first_gap K = FDS_FIRST_GAP_READ_BITS K div 8"

definition next_gap :: "fds_consts \<Rightarrow> int" where
  "next_gap K = FDS_NEXT_GAPS_READ_BITS K div 8"

section \<open>The CRC unit\<close>

text \<open>One turn of the inner loop of \<^verbatim>\<open>fds_crc\<close>, for bit \<open>bit_index\<close> of \<open>byte\<close>.\<close>

definition crc_bit_step :: "u8 \<Rightarrow> nat \<Rightarrow> u16 \<Rightarrow> u16" where
  "crc_bit_step byte bit_index csum =
     (let bit = drop_bit bit_index byte AND 1;
          carry = csum AND 1;
          csum1 = drop_bit 1 csum OR push_bit 15 (ucast bit)
      in if carry \<noteq> 0 then csum1 XOR 0x8408 else csum1)"

text \<open>The inner loop: \<^verbatim>\<open>for (bit_index = 0; bit_index < 8; bit_index++)\<close>.\<close>

definition crc_byte_step :: "u8 \<Rightarrow> u16 \<Rightarrow> u16" where
  "crc_byte_step byte csum = fold (crc_bit_step byte) [0, 1, 2, 3, 4, 5, 6, 7] csum"

text \<open>
  The outer loop. \<^verbatim>\<open>byte_index\<close> is a \<^verbatim>\<open>uint16_t\<close>, so its increment wraps at
  \<open>65536\<close>; \<^verbatim>\<open>size\<close> is \<^verbatim>\<open>unsigned\<close>, so \<^verbatim>\<open>size + 2\<close> wraps at \<open>2^32\<close>. The
  array \<open>data\<close> has \<open>size\<close> elements. \<open>None\<close> is a loop that never ends.
\<close>

partial_function (option) fds_crc_loop :: "u8 list \<Rightarrow> nat \<Rightarrow> u16 \<Rightarrow> u16 option" where
  "fds_crc_loop data byte_index csum =
     (if byte_index < (length data + 2) mod 2 ^ 32
      then fds_crc_loop data ((byte_index + 1) mod 65536)
             (crc_byte_step (if byte_index < length data then data ! byte_index else 0) csum)
      else Some csum)"

declare fds_crc_loop.simps [code]

definition fds_crc :: "u8 list \<Rightarrow> u16 option" where
  "fds_crc data = fds_crc_loop data 0 0x8000"

text \<open>The CRC as the specification words it: the register starts at \<open>0x8000\<close>; the data
  bytes and then two zero bytes are processed, each bit by bit from the least
  significant one.\<close>

definition spec_crc_bit :: "bool \<Rightarrow> u16 \<Rightarrow> u16" where
  "spec_crc_bit b csum =
     (let carry = bit csum 0;
          shifted = drop_bit 1 csum OR (if b then 0x8000 else 0)
      in if carry then shifted XOR 0x8408 else shifted)"

definition spec_crc_byte :: "u8 \<Rightarrow> u16 \<Rightarrow> u16" where
  "spec_crc_byte byte csum = fold (\<lambda>k. spec_crc_bit (bit byte k)) [0, 1, 2, 3, 4, 5, 6, 7] csum"

definition spec_crc :: "u8 list \<Rightarrow> u16" where
  "spec_crc data = fold spec_crc_byte (data @ [0, 0]) 0x8000"


section \<open>The emulator's state\<close>

text \<open>The enumerations of \<^verbatim>\<open>fdsemu.h\<close>, \<^verbatim>\<open>settings.h\<close> and the HAL, with the members
  that \<^verbatim>\<open>fdsemu.c\<close> names.\<close>

datatype FDS_STATE =
    FDS_OFF
  | FDS_IDLE
  | FDS_READ_WAIT_READY_TIMER
  | FDS_READ_WAIT_READY
  | FDS_READING
  | FDS_WRITING_GAP
  | FDS_WRITING
  | FDS_WRITING_STOPPING
  | FDS_SAVE_PENDING

datatype GPIO_PinState = GPIO_PIN_RESET | GPIO_PIN_SET

datatype REWIND_SPEED = REWIND_SPEED_ORIGINAL | REWIND_SPEED_TURBO

text \<open>Modelled from the spec: the save strategies of \<^verbatim>\<open>settings.h\<close>. The code names
  \<^verbatim>\<open>SAVES_REWRITE_BACKUP\<close> and \<^verbatim>\<open>SAVES_EVERDRIVE\<close>; the third one, which the
  spec calls IN_PLACE, is every other value.\<close>

datatype SAVES = SAVES_IN_PLACE | SAVES_REWRITE_BACKUP | SAVES_EVERDRIVE

text \<open>
  What a call reads from outside the module: the millisecond tick, the two input lines
  of the console (\<^verbatim>\<open>/SCAN_MEDIA\<close> low is motor on, \<^verbatim>\<open>/WRITE\<close> low is writing) and
  \<^verbatim>\<open>fdskey_settings\<close>. One call sees one snapshot.
\<close>

record host =
  HAL_GetTick :: u32
  FDS_SCAN_MEDIA_Pin :: GPIO_PinState
  FDS_WRITE_Pin :: GPIO_PinState
  rewind_speed :: REWIND_SPEED
  backup_original :: SAVES

text \<open>
  The static variables of \<^verbatim>\<open>fdsemu.c\<close> (the build without
  \<^verbatim>\<open>FDS_USE_DYNAMIC_MEMORY\<close>), the three output lines, and whether the read and the
  write DMA with their timers run. Arrays are total stores indexed by \<open>int\<close>: C leaves
  an access outside \<^verbatim>\<open>fds_raw_data[FDS_MAX_SIDE_SIZE]\<close> or
  \<^verbatim>\<open>fds_block_offsets[FDS_MAX_BLOCKS]\<close> undefined, the store keeps a cell for it.
\<close>

record fds =
  fds_filename :: string
  fds_side :: u8
  fds_raw_data :: "int \<Rightarrow> u8"
  fds_read_buffer :: "int \<Rightarrow> u8"
  fds_used_space :: int
  fds_block_count :: int
  fds_block_offsets :: "int \<Rightarrow> int"
  fds_write_buffer :: "int \<Rightarrow> u16"
  fds_state :: FDS_STATE
  fds_clock :: u8
  fds_current_byte :: int
  fds_current_bit :: u8
  fds_last_value :: u8
  fds_not_ready_time :: u32
  fds_write_carrier :: u8
  fds_last_write_impulse :: u16
  fds_current_block_end :: u32
  fds_write_gap_skip :: u16
  fds_changed :: u8
  fds_last_action_time :: u32
  fds_readonly :: u8
  FDS_READY_Pin :: GPIO_PinState
  FDS_MEDIA_SET_Pin :: GPIO_PinState
  FDS_WRITABLE_MEDIA_Pin :: GPIO_PinState
  read_dma_running :: bool
  write_dma_running :: bool

text \<open>C's \<^verbatim>\<open>%\<close> on \<^verbatim>\<open>int\<close> truncates towards zero.\<close>

definition c_rem :: "int \<Rightarrow> int \<Rightarrow> int" where
  "c_rem a b = a - b * (sgn a * sgn b * (\<bar>a\<bar> div \<bar>b\<bar>))"

section \<open>Block geometry\<close>

text \<open>The 16-bit little-endian file size in a file header block:
  \<^verbatim>\<open>lo | (hi << 8)\<close> on the promoted bytes.\<close>

definition le16 :: "u8 \<Rightarrow> u8 \<Rightarrow> int" where
  "le16 lo hi = uint lo OR push_bit 8 (uint hi)"

text \<open>\<^verbatim>\<open>fds_get_block_size\<close> returns \<^verbatim>\<open>uint16_t\<close>: the sum is cut to 16 bits.\<close>

definition fds_get_block_size :: "fds_consts \<Rightarrow> fds \<Rightarrow> int \<Rightarrow> bool \<Rightarrow> bool \<Rightarrow> int" where
  "fds_get_block_size K s i include_gap include_crc =
     (if i = 0 then
        ((if include_gap then first_gap K else 0) + 56 + (if include_crc then 2 else 0)) mod 65536
      else if i = 1 then
        ((if include_gap then next_gap K else 0) + 2 + (if include_crc then 2 else 0)) mod 65536
      else if i mod 2 = 0 then
        ((if include_gap then next_gap K else 0) + 16 + (if include_crc then 2 else 0)) mod 65536
      else
        ((if include_gap then next_gap K else 0) + 1
          + le16 (fds_raw_data s (fds_block_offsets s (i - 1) + next_gap K + 0x0D))
                 (fds_raw_data s (fds_block_offsets s (i - 1) + next_gap K + 0x0E))
          + (if include_crc then 2 else 0)) mod 65536)"

text \<open>The gap before block \<open>i\<close>, as \<^verbatim>\<open>fds_load_side\<close>, \<^verbatim>\<open>fds_reset_writing\<close> and
  \<^verbatim>\<open>fds_save\<close> each compute it.\<close>

definition gap_length_of :: "fds_consts \<Rightarrow> int \<Rightarrow> int" where
  "gap_length_of K i = (if i = 0 then first_gap K else next_gap K)"

section \<open>The read engine\<close>

definition fds_stop_reading :: "fds \<Rightarrow> fds" where
  "fds_stop_reading s = s\<lparr>read_dma_running := False\<rparr>"

definition fds_stop_writing :: "fds \<Rightarrow> fds" where
  "fds_stop_writing s = s\<lparr>write_dma_running := False\<rparr>"

definition fds_stop :: "fds \<Rightarrow> fds" where
  "fds_stop s = (fds_stop_writing (fds_stop_reading s))
     \<lparr>FDS_READY_Pin := GPIO_PIN_SET, fds_state := FDS_IDLE\<rparr>"

definition fds_reset_reading :: "host \<Rightarrow> fds \<Rightarrow> fds" where
  "fds_reset_reading h s =
     (let s1 = s\<lparr>fds_clock := 0\<rparr>;
          s2 = (if rewind_speed h = REWIND_SPEED_TURBO then s1\<lparr>fds_current_byte := 0\<rparr> else s1)
      in s2\<lparr>fds_current_bit := 0, fds_last_value := 0\<rparr>)"

text \<open>The rewind test after the read cursor moved to the next byte, and what the
  engine does when it holds.\<close>

definition rewinded :: "fds_consts \<Rightarrow> host \<Rightarrow> fds \<Rightarrow> bool" where
  "rewinded K h s \<longleftrightarrow>
     fds_current_byte s = 0 \<or>
     (rewind_speed h = REWIND_SPEED_TURBO \<and>
      fds_current_byte s > fds_used_space s + FDS_NOT_READY_BYTES K)"

definition pause_before_ready :: "host \<Rightarrow> fds \<Rightarrow> fds" where
  "pause_before_ready h s =
     fds_reset_reading h
       (s\<lparr>FDS_READY_Pin := GPIO_PIN_SET, fds_not_ready_time := HAL_GetTick h,
          fds_state := FDS_READ_WAIT_READY_TIMER\<rparr>)"

text \<open>One turn of the \<^verbatim>\<open>while (length)\<close> loop of \<^verbatim>\<open>fds_dma_fill_read_buffer\<close>:
  the slot \<open>pos\<close> of the read buffer.\<close>

definition read_phase :: "fds_consts \<Rightarrow> host \<Rightarrow> int \<Rightarrow> fds \<Rightarrow> fds" where
  "read_phase K h pos s =
     (let clock = fds_clock s XOR 1;
          bit = drop_bit (unat (fds_current_bit s) div 2) (fds_raw_data s (fds_current_byte s)) AND 1;
          val = bit XOR clock;
          s1 = s\<lparr>fds_clock := clock,
                 fds_read_buffer := (fds_read_buffer s)
                   (pos := (if val \<noteq> 0 \<and> fds_last_value s = 0
                            then word_of_int (FDS_READ_IMPULSE_LENGTH K - 1) else 0)),
                 fds_last_value := val,
                 fds_current_bit := fds_current_bit s + 1\<rparr>
      in if fds_current_bit s1 > 15 then
           (let s2 = s1\<lparr>fds_current_bit := 0,
                         fds_current_byte := c_rem (fds_current_byte s1 + 1) (FDS_MAX_SIDE_SIZE K)\<rparr>
            in if rewinded K h s2 then pause_before_ready h s2 else s2)
         else s1)"

fun fill_slots :: "fds_consts \<Rightarrow> host \<Rightarrow> int \<Rightarrow> nat \<Rightarrow> fds \<Rightarrow> fds" where
  "fill_slots K h pos 0 s = s"
| "fill_slots K h pos (Suc n) s = fill_slots K h (pos + 1) n (read_phase K h pos s)"

text \<open>The callers pass \<^verbatim>\<open>FDS_READ_BUFFER_SIZE\<close> or its half as \<^verbatim>\<open>length\<close>, hence a
  natural number.\<close>

definition fds_dma_fill_read_buffer :: "fds_consts \<Rightarrow> host \<Rightarrow> int \<Rightarrow> nat \<Rightarrow> fds \<Rightarrow> fds" where
  "fds_dma_fill_read_buffer K h pos len s =
     (case fds_state s of
        FDS_READING \<Rightarrow> fill_slots K h pos len s
      | FDS_READ_WAIT_READY \<Rightarrow> fill_slots K h pos len s
      | _ \<Rightarrow> s)"

definition fds_dma_read_half_callback :: "fds_consts \<Rightarrow> host \<Rightarrow> fds \<Rightarrow> fds" where
  "fds_dma_read_half_callback K h s =
     fds_dma_fill_read_buffer K h 0 (FDS_READ_BUFFER_SIZE K div 2) s"

definition fds_dma_read_full_callback :: "fds_consts \<Rightarrow> host \<Rightarrow> fds \<Rightarrow> fds" where
  "fds_dma_read_full_callback K h s =
     fds_dma_fill_read_buffer K h (int (FDS_READ_BUFFER_SIZE K div 2))
       (FDS_READ_BUFFER_SIZE K div 2) s"

definition fds_start_reading :: "fds_consts \<Rightarrow> host \<Rightarrow> fds \<Rightarrow> fds" where
  "fds_start_reading K h s =
     (fds_dma_fill_read_buffer K h 0 (FDS_READ_BUFFER_SIZE K) (s\<lparr>fds_current_bit := 0\<rparr>))
       \<lparr>read_dma_running := True, fds_state := FDS_READING\<rparr>"


section \<open>The write engine\<close>

text \<open>The loop of \<^verbatim>\<open>fds_reset_writing\<close> that finds the block under the head, or
  appends one; it returns the state and \<^verbatim>\<open>fds_current_block\<close>.\<close>

function find_current_block :: "fds_consts \<Rightarrow> fds \<Rightarrow> int \<Rightarrow> fds \<times> int" where
  "find_current_block K s i =
     (if i \<ge> fds_block_count s then
        (s\<lparr>fds_block_offsets := (fds_block_offsets s)
              (i := (if i = 0 then 0
                     else fds_block_offsets s (i - 1) + fds_get_block_size K s (i - 1) True True)),
            fds_block_count := fds_block_count s + 1\<rparr>,
         fds_block_count s)
      else if fds_current_byte s < fds_block_offsets s i + fds_get_block_size K s i True True
        then (s, i)
      else find_current_block K s (i + 1))"
  by pat_completeness auto
termination
  by (relation "measure (\<lambda>(K, s, i). nat (fds_block_count s - i))") auto

declare find_current_block.simps [simp del]

text \<open>\<^verbatim>\<open>for (i = 0; i < n; i++) raw[p++] = 0;\<close>\<close>

fun zero_fill :: "nat \<Rightarrow> (int \<Rightarrow> u8) \<Rightarrow> int \<Rightarrow> (int \<Rightarrow> u8) \<times> int" where
  "zero_fill 0 raw p = (raw, p)"
| "zero_fill (Suc n) raw p = zero_fill n (raw(p := 0)) (p + 1)"

text \<open>The gap before the data, written at the write cursor: \<^verbatim>\<open>gap_length - 1\<close> zero
  bytes and the terminator \<open>0x80\<close>.\<close>

definition write_gap :: "int \<Rightarrow> fds \<Rightarrow> fds" where
  "write_gap gap_length s =
     (case zero_fill (nat (gap_length - 1)) (fds_raw_data s) (fds_current_byte s) of
        (raw, p) \<Rightarrow> s\<lparr>fds_raw_data := raw(p := 0x80), fds_current_byte := p + 1\<rparr>)"

text \<open>\<^verbatim>\<open>memset(fds_raw_data + from, 0, FDS_MAX_SIDE_SIZE - from)\<close>.\<close>

definition erase_tail :: "fds_consts \<Rightarrow> int \<Rightarrow> (int \<Rightarrow> u8) \<Rightarrow> (int \<Rightarrow> u8)" where
  "erase_tail K from raw = (\<lambda>a. if from \<le> a \<and> a < FDS_MAX_SIDE_SIZE K then 0 else raw a)"

definition fds_reset_writing :: "fds_consts \<Rightarrow> fds \<Rightarrow> fds" where
  "fds_reset_writing K s =
     (case find_current_block K s 0 of (s1, fds_current_block) \<Rightarrow>
      let s2 = s1\<lparr>fds_used_space :=
                   fds_block_offsets s1 (fds_block_count s1 - 1)
                   + fds_get_block_size K s1 (fds_block_count s1 - 1) True True\<rparr>;
          s3 = (if fds_used_space s2 > FDS_MAX_SIDE_SIZE K
                then fds_stop (s2\<lparr>fds_block_count := fds_block_count s2 - 1\<rparr>) else s2);
          s4 = s3\<lparr>fds_current_byte := fds_block_offsets s3 fds_current_block\<rparr>;
          gap_length = (if fds_current_block = 0 then first_gap K else next_gap K);
          s5 = s4\<lparr>fds_current_block_end :=
                   word_of_int (c_rem (fds_current_byte s4 + gap_length
                                        + fds_get_block_size K s4 fds_current_block False True)
                                      (FDS_MAX_SIDE_SIZE K))\<rparr>
      in if fds_current_block_end s5 < word_of_int (fds_current_byte s5) then
           s5\<lparr>FDS_READY_Pin := GPIO_PIN_SET\<rparr>
         else
           (let s6 = (if fds_current_block + 1 < fds_block_count s5 \<and>
                         fds_current_block_end s5
                           \<noteq> word_of_int (fds_block_offsets s5 (fds_current_block + 1))
                      then s5\<lparr>fds_block_count := fds_current_block + 1,
                              fds_raw_data := erase_tail K
                                (fds_block_offsets s5 (fds_current_block + 1)) (fds_raw_data s5)\<rparr>
                      else s5)
            in (write_gap gap_length s6)\<lparr>fds_write_gap_skip := 0, fds_changed := 1\<rparr>))"

definition fds_start_writing :: "fds_consts \<Rightarrow> fds \<Rightarrow> fds" where
  "fds_start_writing K s =
     (fds_reset_writing K s)\<lparr>fds_state := FDS_WRITING_GAP, write_dma_running := True\<rparr>"

text \<open>\<^verbatim>\<open>fds_write_bit\<close>: one decoded bit (0 or 1) goes into the byte under the cursor.\<close>

definition fds_write_bit :: "fds_consts \<Rightarrow> host \<Rightarrow> u8 \<Rightarrow> fds \<Rightarrow> fds" where
  "fds_write_bit K h b s =
     (let cb = fds_current_byte s;
          s1 = s\<lparr>fds_raw_data := (fds_raw_data s)
                   (cb := drop_bit 1 (fds_raw_data s cb) OR push_bit 7 b),
                 fds_current_bit := fds_current_bit s + 1\<rparr>
      in if fds_current_bit s1 > 7 then
           (let s2 = s1\<lparr>fds_current_bit := 0,
                         fds_current_byte := c_rem (fds_current_byte s1 + 1) (FDS_MAX_SIDE_SIZE K)\<rparr>
            in if word_of_int (fds_current_byte s2) \<ge> fds_current_block_end s2 then
                 (if FDS_SCAN_MEDIA_Pin h = GPIO_PIN_RESET then
                    (let s3 = s2\<lparr>fds_state := FDS_WRITING_STOPPING\<rparr>
                     in if FDS_WRITE_Pin h = GPIO_PIN_SET
                        then fds_start_reading K h (fds_stop_writing s3)
                        else s3\<lparr>fds_write_gap_skip := 0, fds_state := FDS_WRITING_STOPPING\<rparr>)
                  else fds_stop s2)
               else s2)
         else s1)"

text \<open>The demodulation of \<^verbatim>\<open>fds_write_impulse\<close> in state \<^verbatim>\<open>FDS_WRITING\<close>: the pulse
  band joined with the carrier selects the bits.\<close>

definition demodulate :: "fds_consts \<Rightarrow> host \<Rightarrow> u16 \<Rightarrow> fds \<Rightarrow> fds" where
  "demodulate K h pulse s =
     (let l = fds_write_carrier s OR
              (if uint pulse < FDS_THRESHOLD_1 K then 2
               else if uint pulse < FDS_THRESHOLD_2 K then 3 else 4)
      in if l = 0x82 then (fds_write_bit K h 0 s)\<lparr>fds_write_carrier := 0x80\<rparr>
         else if l = 0x83 then (fds_write_bit K h 1 s)\<lparr>fds_write_carrier := 0\<rparr>
         else if l = 0x84 then s
         else if l = 0x02 then (fds_write_bit K h 1 s)\<lparr>fds_write_carrier := 0\<rparr>
         else if l = 0x03 then
           (fds_write_bit K h 0 (fds_write_bit K h 0 s))\<lparr>fds_write_carrier := 0x80\<rparr>
         else if l = 0x04 then
           (fds_write_bit K h 1 (fds_write_bit K h 0 s))\<lparr>fds_write_carrier := 0\<rparr>
         else s)"

definition fds_write_impulse :: "fds_consts \<Rightarrow> host \<Rightarrow> u16 \<Rightarrow> fds \<Rightarrow> fds" where
  "fds_write_impulse K h pulse s =
     (case fds_state s of
        FDS_WRITING_GAP \<Rightarrow>
          (if uint (fds_write_gap_skip s) < FDS_WRITE_GAP_SKIP_BITS K then
             s\<lparr>fds_write_gap_skip := fds_write_gap_skip s + 1\<rparr>
           else if uint pulse \<ge> FDS_THRESHOLD_1 K then
             s\<lparr>fds_write_carrier := 0, fds_current_bit := 0, fds_state := FDS_WRITING\<rparr>
           else s)
      | FDS_WRITING \<Rightarrow> demodulate K h pulse s
      | FDS_WRITING_STOPPING \<Rightarrow>
          (let s1 = (if uint pulse < FDS_THRESHOLD_1 K
                     then s\<lparr>fds_write_gap_skip := fds_write_gap_skip s + 1\<rparr>
                     else s\<lparr>fds_write_gap_skip := 0\<rparr>)
           in if uint (fds_write_gap_skip s1) \<ge> FDS_MULTI_WRITE_UNLICENSED_BITS K
              then fds_reset_writing K s1 else s1)
      | _ \<Rightarrow> fds_stop_writing s)"

text \<open>\<^verbatim>\<open>fds_dma_parse_write_buffer\<close>: the captured timestamps of one half of the
  write buffer, turned into pulse lengths (16-bit differences).\<close>

fun fds_dma_parse_write_buffer :: "fds_consts \<Rightarrow> host \<Rightarrow> int \<Rightarrow> nat \<Rightarrow> fds \<Rightarrow> fds" where
  "fds_dma_parse_write_buffer K h pos 0 s = s"
| "fds_dma_parse_write_buffer K h pos (Suc n) s =
     (let pulse = fds_write_buffer s pos - fds_last_write_impulse s;
          s1 = fds_write_impulse K h pulse s;
          s2 = s1\<lparr>fds_last_write_impulse := fds_write_buffer s1 pos\<rparr>
      in fds_dma_parse_write_buffer K h (pos + 1) n s2)"

definition fds_dma_write_half_callback :: "fds_consts \<Rightarrow> host \<Rightarrow> fds \<Rightarrow> fds" where
  "fds_dma_write_half_callback K h s =
     fds_dma_parse_write_buffer K h 0 (FDS_WRITE_BUFFER_SIZE K div 2) s"

definition fds_dma_write_full_callback :: "fds_consts \<Rightarrow> host \<Rightarrow> fds \<Rightarrow> fds" where
  "fds_dma_write_full_callback K h s =
     fds_dma_parse_write_buffer K h (int (FDS_WRITE_BUFFER_SIZE K div 2))
       (FDS_WRITE_BUFFER_SIZE K div 2) s"

section \<open>The drive controller\<close>

text \<open>\<^verbatim>\<open>fds_check_pins\<close>, branch by branch: the motor stopped; the motor runs and the
  console reads; the motor runs and the console writes.\<close>

definition motor_stopped :: "fds_consts \<Rightarrow> host \<Rightarrow> fds \<Rightarrow> fds" where
  "motor_stopped K h s =
     (case fds_state s of
        FDS_OFF \<Rightarrow> s
      | FDS_WRITING \<Rightarrow> s
      | FDS_IDLE \<Rightarrow>
          (if fds_changed s \<noteq> 0 \<and>
              fds_last_action_time s + word_of_int (FDS_AUTOSAVE_DELAY K) < HAL_GetTick h
           then s\<lparr>fds_state := FDS_SAVE_PENDING\<rparr> else s)
      | FDS_SAVE_PENDING \<Rightarrow> (if fds_changed s = 0 then s\<lparr>fds_state := FDS_IDLE\<rparr> else s)
      | _ \<Rightarrow>
          (let s1 = fds_stop s
           in if rewind_speed h = REWIND_SPEED_TURBO then fds_reset_reading h s1 else s1))"

definition host_reads :: "fds_consts \<Rightarrow> host \<Rightarrow> fds \<Rightarrow> fds" where
  "host_reads K h s =
     (case fds_state s of
        FDS_IDLE \<Rightarrow>
          (if rewind_speed h = REWIND_SPEED_TURBO \<or> fds_current_byte s = 0 then
             fds_reset_reading h
               (s\<lparr>fds_not_ready_time := HAL_GetTick h, fds_state := FDS_READ_WAIT_READY_TIMER\<rparr>)
           else (fds_start_reading K h s)\<lparr>fds_state := FDS_READ_WAIT_READY\<rparr>)
      | FDS_READ_WAIT_READY_TIMER \<Rightarrow>
          (if fds_not_ready_time s
                + word_of_int (if rewind_speed h = REWIND_SPEED_ORIGINAL
                               then FDS_NOT_READY_TIME_ORIGINAL K else FDS_NOT_READY_TIME K)
              < HAL_GetTick h
           then fds_start_reading K h (s\<lparr>FDS_READY_Pin := GPIO_PIN_RESET\<rparr>) else s)
      | FDS_WRITING_STOPPING \<Rightarrow> fds_start_reading K h (fds_stop_writing s)
      | _ \<Rightarrow> s)"

definition host_writes :: "fds_consts \<Rightarrow> fds \<Rightarrow> fds" where
  "host_writes K s =
     (case fds_state s of
        FDS_IDLE \<Rightarrow> fds_start_writing K (fds_stop_reading s)
      | FDS_READING \<Rightarrow> fds_start_writing K (fds_stop_reading s)
      | FDS_READ_WAIT_READY \<Rightarrow> fds_start_writing K (fds_stop_reading s)
      | FDS_READ_WAIT_READY_TIMER \<Rightarrow> fds_start_writing K (fds_stop_reading s)
      | _ \<Rightarrow> s)"

definition fds_check_pins :: "fds_consts \<Rightarrow> host \<Rightarrow> fds \<Rightarrow> fds" where
  "fds_check_pins K h s =
     (if FDS_SCAN_MEDIA_Pin h = GPIO_PIN_SET then motor_stopped K h s
      else
        (let s1 = (if fds_state s = FDS_SAVE_PENDING \<and> fds_changed s = 0
                   then s\<lparr>fds_state := FDS_IDLE\<rparr> else s);
             s2 = (if FDS_WRITE_Pin h = GPIO_PIN_SET then host_reads K h s1 else host_writes K s1)
         in s2\<lparr>fds_last_action_time := HAL_GetTick h\<rparr>))"


section \<open>The storage adapter\<close>

text \<open>The results of FatFs that the model produces, and the five results that
  \<^verbatim>\<open>fdsemu.h\<close> adds to them.\<close>

datatype FRESULT =
    FR_OK
  | FR_DISK_ERR
  | FR_INT_ERR
  | FR_NO_FILE
  | FR_DENIED
  | FR_EXIST
  | FDSR_WRONG_CRC
  | FDSR_INVALID_ROM
  | FDSR_OUT_OF_MEMORY
  | FDSR_ROM_TOO_LARGE
  | FDSR_READ_ONLY

text \<open>
  Modelled from the spec: the FatFs calls of \<^verbatim>\<open>ff.h\<close> behind the storage interface
  (sequential open, read, write, seek and stat; mkdir that tells "already exists"). A
  volume maps a path to the bytes of a file, knows its directories, and has room for
  \<open>room\<close> more bytes. Every call takes the head of \<open>faults\<close>: when it is \<open>True\<close> the
  call fails with \<^verbatim>\<open>FR_DISK_ERR\<close> and does nothing else. A seek past the end of a
  file opened for writing extends it with \<open>filler\<close> bytes (FatFs leaves them
  undefined); a seek past the end of a file opened for reading stops at the end.
\<close>

record storage =
  files :: "string \<Rightarrow> u8 list option"
  dirs :: "string set"
  room :: nat
  faults :: "bool list"
  filler :: u8

datatype open_mode = FA_READ | FA_WRITE | FA_CREATE_NEW_WRITE

record FIL =
  fname :: string
  fptr :: nat
  fmode :: open_mode

definition next_fault :: "storage \<Rightarrow> bool \<times> storage" where
  "next_fault fs = (case faults fs of [] \<Rightarrow> (False, fs) | f # r \<Rightarrow> (f, fs\<lparr>faults := r\<rparr>))"

definition content :: "storage \<Rightarrow> string \<Rightarrow> u8 list" where
  "content fs name = (case files fs name of None \<Rightarrow> [] | Some c \<Rightarrow> c)"

definition f_open :: "storage \<Rightarrow> string \<Rightarrow> open_mode \<Rightarrow> FRESULT \<times> FIL \<times> storage" where
  "f_open fs name mode =
     (case next_fault fs of (fault, fs1) \<Rightarrow>
      let fp = \<lparr>fname = name, fptr = 0, fmode = mode\<rparr>
      in if fault then (FR_DISK_ERR, fp, fs1)
         else if mode = FA_CREATE_NEW_WRITE then
           (if files fs1 name \<noteq> None \<or> name \<in> dirs fs1 then (FR_EXIST, fp, fs1)
            else (FR_OK, fp, fs1\<lparr>files := (files fs1)(name \<mapsto> [])\<rparr>))
         else if files fs1 name = None then (FR_NO_FILE, fp, fs1)
         else (FR_OK, fp, fs1))"

definition f_close :: "storage \<Rightarrow> FIL \<Rightarrow> FRESULT \<times> storage" where
  "f_close fs fp =
     (case next_fault fs of (fault, fs1) \<Rightarrow> ((if fault then FR_DISK_ERR else FR_OK), fs1))"

definition f_stat :: "storage \<Rightarrow> string \<Rightarrow> FRESULT \<times> nat \<times> storage" where
  "f_stat fs name =
     (case next_fault fs of (fault, fs1) \<Rightarrow>
      if fault then (FR_DISK_ERR, 0, fs1)
      else if files fs1 name = None \<and> name \<notin> dirs fs1 then (FR_NO_FILE, 0, fs1)
      else (FR_OK, length (content fs1 name), fs1))"

definition f_mkdir :: "storage \<Rightarrow> string \<Rightarrow> FRESULT \<times> storage" where
  "f_mkdir fs name =
     (case next_fault fs of (fault, fs1) \<Rightarrow>
      if fault then (FR_DISK_ERR, fs1)
      else if files fs1 name \<noteq> None \<or> name \<in> dirs fs1 then (FR_EXIST, fs1)
      else (FR_OK, fs1\<lparr>dirs := insert name (dirs fs1)\<rparr>))"

definition f_lseek :: "storage \<Rightarrow> FIL \<Rightarrow> nat \<Rightarrow> FRESULT \<times> FIL \<times> storage" where
  "f_lseek fs fp ofs =
     (case next_fault fs of (fault, fs1) \<Rightarrow>
      let c = content fs1 (fname fp)
      in if fault then (FR_DISK_ERR, fp, fs1)
         else if ofs \<le> length c then (FR_OK, fp\<lparr>fptr := ofs\<rparr>, fs1)
         else if fmode fp = FA_READ then (FR_OK, fp\<lparr>fptr := length c\<rparr>, fs1)
         else
           (let grow = min (ofs - length c) (room fs1)
            in (FR_OK, fp\<lparr>fptr := length c + grow\<rparr>,
                fs1\<lparr>files := (files fs1)(fname fp \<mapsto> c @ replicate grow (filler fs1)),
                    room := room fs1 - grow\<rparr>)))"

text \<open>\<^verbatim>\<open>f_read\<close> returns the bytes it read; there are fewer than \<open>btr\<close> at the end of
  the file.\<close>

definition f_read :: "storage \<Rightarrow> FIL \<Rightarrow> nat \<Rightarrow> FRESULT \<times> u8 list \<times> FIL \<times> storage" where
  "f_read fs fp btr =
     (case next_fault fs of (fault, fs1) \<Rightarrow>
      if fault then (FR_DISK_ERR, [], fp, fs1)
      else (let bytes = take btr (drop (fptr fp) (content fs1 (fname fp)))
            in (FR_OK, bytes, fp\<lparr>fptr := fptr fp + length bytes\<rparr>, fs1)))"

text \<open>\<^verbatim>\<open>f_write\<close> returns the number of bytes written: fewer than given when the
  volume is full.\<close>

definition f_write :: "storage \<Rightarrow> FIL \<Rightarrow> u8 list \<Rightarrow> FRESULT \<times> nat \<times> FIL \<times> storage" where
  "f_write fs fp bytes =
     (case next_fault fs of (fault, fs1) \<Rightarrow>
      if fault then (FR_DISK_ERR, 0, fp, fs1)
      else
        (let c = content fs1 (fname fp);
             over = length c - fptr fp;
             bw = min (length bytes) (over + room fs1);
             c' = take (fptr fp) c @ take bw bytes @ drop (fptr fp + bw) c
         in (FR_OK, bw, fp\<lparr>fptr := fptr fp + bw\<rparr>,
             fs1\<lparr>files := (files fs1)(fname fp \<mapsto> c'), room := room fs1 - (bw - over)\<rparr>)))"

section \<open>Bytes of the image buffer\<close>

text \<open>The \<open>n\<close> bytes of the buffer from address \<open>p\<close>, and the buffer after a copy of
  \<open>bytes\<close> to address \<open>p\<close>.\<close>

definition load_bytes :: "(int \<Rightarrow> u8) \<Rightarrow> int \<Rightarrow> int \<Rightarrow> u8 list" where
  "load_bytes raw p n = map (\<lambda>k. raw (p + int k)) [0..<nat n]"

definition store_bytes :: "(int \<Rightarrow> u8) \<Rightarrow> int \<Rightarrow> u8 list \<Rightarrow> (int \<Rightarrow> u8)" where
  "store_bytes raw p bytes =
     (\<lambda>a. if p \<le> a \<and> a < p + int (length bytes) then bytes ! nat (a - p) else raw a)"


section \<open>File names\<close>

definition backslash :: char where
  "backslash = CHR 0x5C"

text \<open>\<^verbatim>\<open>name[p]\<close> of a C string: the terminating zero stands at \<open>length name\<close>.\<close>

definition c_char :: "string \<Rightarrow> nat \<Rightarrow> char" where
  "c_char name p = (if p < length name then name ! p else CHR 0x00)"

text \<open>
  The loop that looks for the last backslash of \<^verbatim>\<open>fds_filename\<close>, from its end. At the
  first character the pointer is not moved (\<^verbatim>\<open>if (filename_no_path > fds_filename)\<close>)
  and the loop condition still holds: on a name without a backslash the loop never
  ends.
\<close>

partial_function (option) filename_no_path_loop :: "string \<Rightarrow> nat \<Rightarrow> nat option" where
  "filename_no_path_loop name p =
     (if c_char name p = backslash then Some (p + 1)
      else if p > 0 then filename_no_path_loop name (p - 1)
      else filename_no_path_loop name p)"

declare filename_no_path_loop.simps [code]

definition filename_no_path :: "string \<Rightarrow> string option" where
  "filename_no_path name =
     map_option (\<lambda>p. drop p name) (filename_no_path_loop name (length name))"

text \<open>\<^verbatim>\<open>strlcpy\<close> and \<^verbatim>\<open>strlcat\<close> into a buffer of \<^verbatim>\<open>FF_MAX_LFN + 1\<close> characters.\<close>

definition strlcpy :: "fds_consts \<Rightarrow> string \<Rightarrow> string" where
  "strlcpy K src = take (FF_MAX_LFN K) src"

definition strlcat :: "fds_consts \<Rightarrow> string \<Rightarrow> string \<Rightarrow> string" where
  "strlcat K dst src = take (FF_MAX_LFN K) (dst @ src)"

definition gamedata_dir :: "fds_consts \<Rightarrow> string \<Rightarrow> string" where
  "gamedata_dir K base =
     strlcat K (strlcpy K (''EDN8'' @ [backslash] @ ''gamedata'' @ [backslash])) base"

definition bram_name :: "fds_consts \<Rightarrow> string \<Rightarrow> string" where
  "bram_name K base = strlcat K (gamedata_dir K base) ([backslash] @ ''bram.srm'')"

section \<open>Loading a side\<close>

text \<open>\<^verbatim>\<open>fds_close\<close> without its optional save: the media lines go up, the drive stops,
  the counters are cleared.\<close>

definition close_drive :: "fds \<Rightarrow> fds" where
  "close_drive s =
     (fds_stop (s\<lparr>FDS_MEDIA_SET_Pin := GPIO_PIN_SET, FDS_WRITABLE_MEDIA_Pin := GPIO_PIN_SET\<rparr>))
       \<lparr>fds_state := FDS_OFF, fds_used_space := 0, fds_block_count := 0, fds_changed := 0\<rparr>"

text \<open>What the block loop of \<^verbatim>\<open>fds_load_side\<close> works on: the volume, the open file,
  \<^verbatim>\<open>min_blocks\<close> and the drive.\<close>

record loader =
  lfs :: storage
  lfp :: FIL
  min_blocks :: int
  drive :: fds

datatype load_step = Next loader | Break loader | Return FRESULT loader

text \<open>\<^verbatim>\<open>f_close(&fp); fds_close(0); return r;\<close>\<close>

definition fail_load :: "FRESULT \<Rightarrow> loader \<Rightarrow> load_step" where
  "fail_load r L =
     Return r (L\<lparr>lfs := snd (f_close (lfs L) (lfp L)), drive := close_drive (drive L)\<rparr>)"

text \<open>The accepted end of the image: the terminator is removed and the last gap rolled
  back.\<close>

definition rollback_gap :: "int \<Rightarrow> fds \<Rightarrow> fds" where
  "rollback_gap gap_length s =
     s\<lparr>fds_raw_data := (fds_raw_data s)(fds_used_space s - 1 := 0),
       fds_used_space := fds_used_space s - gap_length\<rparr>"

text \<open>The loop that writes the zero bytes of a gap. It returns whether it left with
  \<^verbatim>\<open>FDSR_ROM_TOO_LARGE\<close>, the buffer and \<^verbatim>\<open>fds_used_space\<close>. Its \<^verbatim>\<open>break\<close> leaves
  this loop only.\<close>

function gap_loop ::
  "fds_consts \<Rightarrow> bool \<Rightarrow> int \<Rightarrow> int \<Rightarrow> (int \<Rightarrow> u8) \<Rightarrow> int \<Rightarrow> bool \<times> (int \<Rightarrow> u8) \<times> int" where
  "gap_loop K required gap_length i raw used =
     (if i < gap_length - 1 then
        (let raw1 = raw(used := 0); used1 = used + 1
         in if used1 - 1 \<ge> FDS_MAX_SIDE_SIZE K then
              (if required then (True, raw1, used1) else (False, raw1, used1 - i))
            else gap_loop K required gap_length (i + 1) raw1 used1)
      else (False, raw, used))"
  by pat_completeness auto
termination
  by (relation "measure (\<lambda>(K, required, gap_length, i, raw, used). nat (gap_length - 1 - i))") auto

declare gap_loop.simps [simp del]

definition signature :: "u8 list" where
  "signature = map of_char ''*NINTENDO-HVC*''"

text \<open>The second half of one turn of the block loop: the payload is read, checked and
  given its CRC. \<open>required\<close> is \<^verbatim>\<open>fds_block_count + 1 < min_blocks\<close>.\<close>

definition read_block :: "fds_consts \<Rightarrow> bool \<Rightarrow> int \<Rightarrow> loader \<Rightarrow> load_step option" where
  "read_block K required gap_length L =
     (let s = drive L;
          n = fds_block_count s;
          used = fds_used_space s;
          block_type = (if n = 0 then 1 else if n = 1 then 2 else if n mod 2 = 0 then 3 else 4);
          block_size = fds_get_block_size K s n False False
      in if used + block_size + 2 > FDS_MAX_SIDE_SIZE K then
           Some (if required then fail_load FDSR_ROM_TOO_LARGE L
                 else Break (L\<lparr>drive := rollback_gap gap_length s\<rparr>))
         else
           (case f_read (lfs L) (lfp L) (nat block_size) of (fr, bytes, fp1, fs1) \<Rightarrow>
            let s1 = s\<lparr>fds_raw_data := store_bytes (fds_raw_data s) used bytes\<rparr>;
                L1 = L\<lparr>lfs := fs1, lfp := fp1, drive := s1\<rparr>
            in if fr \<noteq> FR_OK then Some (fail_load fr L1)
               else if int (length bytes) \<noteq> block_size then
                 Some (if required then fail_load FDSR_INVALID_ROM L1
                       else Break (L1\<lparr>drive := rollback_gap gap_length s1\<rparr>))
               else if fds_raw_data s1 used \<noteq> block_type then
                 Some (if required then fail_load FDSR_INVALID_ROM L1
                       else Break (L1\<lparr>drive := rollback_gap gap_length s1\<rparr>))
               else if n = 0 \<and> load_bytes (fds_raw_data s1) (used + 1) 14 \<noteq> signature then
                 Some (fail_load FDSR_INVALID_ROM L1)
               else
                 (case fds_crc (load_bytes (fds_raw_data s1) used block_size) of
                    None \<Rightarrow> None
                  | Some crc \<Rightarrow>
                      Some (Next (L1\<lparr>drive := s1
                        \<lparr>fds_raw_data := (fds_raw_data s1)
                           (used + block_size := ucast crc,
                            used + block_size + 1 := ucast (drop_bit 8 crc)),
                         fds_used_space := used + block_size + 2,
                         fds_block_count := n + 1\<rparr>\<rparr>)))))"

text \<open>One turn of \<^verbatim>\<open>while (1)\<close> in \<^verbatim>\<open>fds_load_side\<close>.\<close>

definition load_block :: "fds_consts \<Rightarrow> loader \<Rightarrow> load_step option" where
  "load_block K L =
     (let s = drive L;
          min_blocks1 = (if fds_block_count s = 2
                         then uint (fds_raw_data s (fds_block_offsets s 1 + next_gap K + 1)) * 2 + 2
                         else min_blocks L);
          s1 = s\<lparr>fds_block_offsets := (fds_block_offsets s)(fds_block_count s := fds_used_space s)\<rparr>;
          gap_length = (if fds_block_count s1 = 0 then first_gap K else next_gap K);
          required = (fds_block_count s1 + 1 < min_blocks1);
          L1 = L\<lparr>min_blocks := min_blocks1, drive := s1\<rparr>
      in if fds_used_space s1 + gap_length > FDS_MAX_SIDE_SIZE K then
           Some (if required then fail_load FDSR_ROM_TOO_LARGE L1 else Break L1)
         else
           (case gap_loop K required gap_length 0 (fds_raw_data s1) (fds_used_space s1) of
              (too_large, raw, used) \<Rightarrow>
                if too_large then
                  Some (fail_load FDSR_ROM_TOO_LARGE
                         (L1\<lparr>drive := s1\<lparr>fds_raw_data := raw, fds_used_space := used\<rparr>\<rparr>))
                else
                  read_block K required gap_length
                    (L1\<lparr>drive := s1\<lparr>fds_raw_data := raw(used := 0x80),
                                      fds_used_space := used + 1\<rparr>\<rparr>)))"


text \<open>The gap loop never moves \<^verbatim>\<open>fds_used_space\<close> back, and a block that is taken
  moves it forward and keeps it within the buffer: the block loop ends.\<close>

lemma gap_loop_used_mono:
  "0 \<le> i \<Longrightarrow> gap_loop K required gap_length i raw used = (t, raw', used') \<Longrightarrow> used - i \<le> used'"
proof (induction K required gap_length i raw used rule: gap_loop.induct)
  case (1 K required gap_length i raw used)
  note eq = gap_loop.simps[of K required gap_length i raw used]
  show ?case
  proof (cases "i < gap_length - 1")
    case False
    with "1.prems" eq show ?thesis by simp
  next
    case True
    show ?thesis
    proof (cases "used + 1 - 1 \<ge> FDS_MAX_SIDE_SIZE K")
      case True
      with \<open>i < gap_length - 1\<close> "1.prems" eq show ?thesis
        by (auto simp: Let_def split: if_splits)
    next
      case False
      with \<open>i < gap_length - 1\<close> "1.prems" eq
      have "gap_loop K required gap_length (i + 1) (raw(used := 0)) (used + 1) = (t, raw', used')"
        by (simp add: Let_def)
      from "1.IH"[OF \<open>i < gap_length - 1\<close> refl refl _ _ this] False "1.prems"(1)
      show ?thesis by simp
    qed
  qed
qed

lemma fds_get_block_size_nonneg: "0 \<le> fds_get_block_size K s i g c"
  by (simp add: fds_get_block_size_def)

lemma read_block_Next:
  assumes "read_block K required gap_length L = Some (Next L')"
  shows "fds_used_space (drive L) < fds_used_space (drive L') \<and>
         fds_used_space (drive L') \<le> FDS_MAX_SIDE_SIZE K"
proof -
  have "0 \<le> fds_get_block_size K (drive L) (fds_block_count (drive L)) False False"
    by (rule fds_get_block_size_nonneg)
  with assms show ?thesis
    unfolding read_block_def Let_def fail_load_def
    by (auto split: if_splits prod.splits option.splits)
qed

lemma gap_loop_used_mono0:
  "gap_loop K required gap_length 0 raw used = (t, raw', used') \<Longrightarrow> used \<le> used'"
  using gap_loop_used_mono[of 0 K required gap_length raw used t raw' used'] by simp

lemma load_block_Next:
  assumes "load_block K L = Some (Next L')"
  shows "fds_used_space (drive L) < fds_used_space (drive L') \<and>
         fds_used_space (drive L') \<le> FDS_MAX_SIDE_SIZE K"
  using assms unfolding load_block_def Let_def fail_load_def
  by (auto split: if_splits prod.splits dest!: read_block_Next gap_loop_used_mono0)

datatype load_end = Loaded loader | Failed FRESULT loader

text \<open>The block loop. \<open>None\<close>: a CRC computation inside it never returned.\<close>

function load_loop :: "fds_consts \<Rightarrow> loader \<Rightarrow> load_end option" where
  "load_loop K L =
     (case load_block K L of
        None \<Rightarrow> None
      | Some (Next L') \<Rightarrow> load_loop K L'
      | Some (Break L') \<Rightarrow> Some (Loaded L')
      | Some (Return r L') \<Rightarrow> Some (Failed r L'))"
  by pat_completeness auto
termination
proof (relation "measure (\<lambda>(K, L). nat (FDS_MAX_SIDE_SIZE K - fds_used_space (drive L)))")
  show "wf (measure (\<lambda>(K, L). nat (FDS_MAX_SIDE_SIZE K - fds_used_space (drive L))))"
    by simp
next
  fix K L x2 L'
  assume "load_block K L = Some x2" and "x2 = Next L'"
  then have "load_block K L = Some (Next L')" by simp
  from load_block_Next[OF this]
  show "((K, L'), (K, L)) \<in> measure (\<lambda>(K, L). nat (FDS_MAX_SIDE_SIZE K - fds_used_space (drive L)))"
    by simp
qed

declare load_loop.simps [simp del]

text \<open>The end of \<^verbatim>\<open>fds_load_side\<close>: a failed load returns its code (the file and
  the drive are closed already); after the accepted end of the image the file is
  closed, the drive goes to \<^verbatim>\<open>FDS_IDLE\<close> or, with the motor on in turbo mode, to
  \<^verbatim>\<open>FDS_READ_WAIT_READY_TIMER\<close>, the pins are checked and the result is \<^verbatim>\<open>FR_OK\<close>.\<close>

definition finish_load :: "fds_consts \<Rightarrow> host \<Rightarrow> load_end \<Rightarrow> FRESULT \<times> storage \<times> fds" where
  "finish_load K h e =
     (case e of
        Failed r L \<Rightarrow> (r, lfs L, drive L)
      | Loaded L \<Rightarrow>
          (FR_OK, snd (f_close (lfs L) (lfp L)),
           fds_check_pins K h
             ((drive L)\<lparr>fds_state :=
                (if FDS_SCAN_MEDIA_Pin h = GPIO_PIN_RESET \<and> rewind_speed h = REWIND_SPEED_TURBO
                 then FDS_READ_WAIT_READY_TIMER else FDS_IDLE)\<rparr>)))"

text \<open>\<^verbatim>\<open>fds_load_side\<close> from the block loop on, the loop being in state \<open>L\<close>.\<close>

definition load_from ::
  "fds_consts \<Rightarrow> host \<Rightarrow> loader \<Rightarrow> (FRESULT \<times> storage \<times> fds) option" where
  "load_from K h L = map_option (finish_load K h) (load_loop K L)"

text \<open>The file that \<^verbatim>\<open>fds_load_side\<close> opens: the image, or with Everdrive-style saves
  the \<^verbatim>\<open>bram.srm\<close> of the game when it exists.\<close>

definition open_rom ::
  "fds_consts \<Rightarrow> host \<Rightarrow> storage \<Rightarrow> string \<Rightarrow> string \<Rightarrow> (FRESULT \<times> FIL \<times> storage) option" where
  "open_rom K h fs filename stored =
     (if backup_original h \<noteq> SAVES_EVERDRIVE then Some (f_open fs filename FA_READ)
      else
        (case filename_no_path stored of
           None \<Rightarrow> None
         | Some base \<Rightarrow>
             (case f_stat fs (bram_name K base) of (fr, sz, fs1) \<Rightarrow>
                Some (if fr = FR_OK then f_open fs1 (bram_name K base) FA_READ
                      else f_open fs1 filename FA_READ))))"

text \<open>The offset of a side in the file: the header, when the file has one, and the
  sides before it.\<close>

definition side_offset :: "nat \<Rightarrow> u8 \<Rightarrow> nat" where
  "side_offset f_size side =
     nat ((if int f_size mod FDS_ROM_SIDE_SIZE = FDS_ROM_HEADER_SIZE then FDS_ROM_HEADER_SIZE else 0)
          + uint side * FDS_ROM_SIDE_SIZE)"

definition fds_load_side ::
  "fds_consts \<Rightarrow> host \<Rightarrow> storage \<Rightarrow> string \<Rightarrow> u8 \<Rightarrow> u8 \<Rightarrow> fds \<Rightarrow> (FRESULT \<times> storage \<times> fds) option" where
  "fds_load_side K h fs filename side ro s =
     (let s1 = fds_reset_reading h (close_drive s);
          s2 = s1\<lparr>FDS_READY_Pin := GPIO_PIN_SET,
                 FDS_MEDIA_SET_Pin := GPIO_PIN_RESET,
                 fds_readonly := ro,
                 FDS_WRITABLE_MEDIA_Pin := (if ro \<noteq> 0 then GPIO_PIN_SET else GPIO_PIN_RESET),
                 fds_not_ready_time := HAL_GetTick h,
                 fds_filename := strlcpy K filename,
                 fds_side := side\<rparr>
      in case open_rom K h fs filename (fds_filename s2) of
           None \<Rightarrow> None
         | Some (fr, fp, fs1) \<Rightarrow>
             if fr \<noteq> FR_OK then Some (fr, fs1, close_drive s2)
             else
               (let f_size = length (content fs1 (fname fp))
                in if int f_size mod FDS_ROM_SIDE_SIZE \<noteq> 0 \<and> int f_size mod FDS_ROM_SIDE_SIZE \<noteq> 16
                   then Some (FDSR_INVALID_ROM, snd (f_close fs1 fp), close_drive s2)
                   else
                     (case f_lseek fs1 fp (side_offset f_size side) of (fr2, fp2, fs2) \<Rightarrow>
                        if fr2 \<noteq> FR_OK then Some (fr2, fs2, s2)
                        else
                          load_from K h
                            \<lparr>lfs = fs2, lfp = fp2, min_blocks = 0,
                             drive = s2\<lparr>fds_raw_data := erase_tail K 0 (fds_raw_data s2)\<rparr>\<rparr>)))"


section \<open>Saving\<close>

text \<open>The address of the payload of block \<open>i\<close>:
  \<^verbatim>\<open>fds_block_offsets[i] + (i == 0 ? FDS_FIRST_GAP_READ_BITS : FDS_NEXT_GAPS_READ_BITS) / 8\<close>.\<close>

definition payload_addr :: "fds_consts \<Rightarrow> fds \<Rightarrow> int \<Rightarrow> int" where
  "payload_addr K s i =
     fds_block_offsets s i
     + (if i = 0 then FDS_FIRST_GAP_READ_BITS K else FDS_NEXT_GAPS_READ_BITS K) div 8"

text \<open>The first loop of \<^verbatim>\<open>fds_save\<close>: \<open>Some False\<close> is the return of
  \<^verbatim>\<open>FDSR_WRONG_CRC\<close>, \<open>None\<close> a CRC computation that never returns.\<close>

function check_crcs :: "fds_consts \<Rightarrow> fds \<Rightarrow> int \<Rightarrow> bool option" where
  "check_crcs K s i =
     (if i < fds_block_count s then
        (let block_size = fds_get_block_size K s i False False
         in case fds_crc (load_bytes (fds_raw_data s) (payload_addr K s i) block_size) of
              None \<Rightarrow> None
            | Some valid_crc \<Rightarrow>
                if uint valid_crc \<noteq>
                   le16 (fds_raw_data s (payload_addr K s i + block_size))
                        (fds_raw_data s (payload_addr K s i + block_size + 1))
                then Some False
                else check_crcs K s (i + 1))
      else Some True)"
  by pat_completeness auto
termination
  by (relation "measure (\<lambda>(K, s, i). nat (fds_block_count s - i))") auto

declare check_crcs.simps [simp del]

text \<open>The loop that copies the original image to a new backup file through a buffer
  of 4096 bytes. The result of \<^verbatim>\<open>f_write\<close> is not looked at, its count is.\<close>

partial_function (option) copy_loop ::
  "storage \<Rightarrow> FIL \<Rightarrow> FIL \<Rightarrow> (FRESULT \<times> FIL \<times> FIL \<times> storage) option" where
  "copy_loop fs fp fp_backup =
     (case f_read fs fp 4096 of (fr, buff, fp1, fs1) \<Rightarrow>
        if fr \<noteq> FR_OK then Some (fr, fp1, fp_backup, fs1)
        else
          (case f_write fs1 fp_backup buff of (fr2, bw, fpb1, fs2) \<Rightarrow>
             if bw \<noteq> length buff then
               Some (FR_DENIED, fp1, fpb1, snd (f_close (snd (f_close fs2 fp1)) fpb1))
             else if length buff > 0 then copy_loop fs2 fp1 fpb1
             else Some (FR_OK, fp1, fpb1, fs2)))"

declare copy_loop.simps [code]

text \<open>The copy of the original to \<open>alt\<close> when \<open>alt\<close> does not exist yet. The result
  is \<^verbatim>\<open>FR_OK\<close> when \<^verbatim>\<open>fds_save\<close> goes on.\<close>

definition copy_original ::
  "fds_consts \<Rightarrow> host \<Rightarrow> storage \<Rightarrow> string \<Rightarrow> fds \<Rightarrow> (FRESULT \<times> storage) option" where
  "copy_original K h fs alt s =
     (case f_open fs (fds_filename s) FA_READ of (fr, fp, fs1) \<Rightarrow>
      if fr \<noteq> FR_OK then Some (fr, fs1)
      else
        (case f_open fs1 alt FA_CREATE_NEW_WRITE of (fr2, fp_backup, fs2) \<Rightarrow>
         if fr2 \<noteq> FR_OK then Some (fr2, snd (f_close fs2 fp))
         else
           (case (if backup_original h = SAVES_EVERDRIVE then
                    (case f_stat fs2 (fds_filename s) of (fr3, fsize, fs3) \<Rightarrow>
                       if fr3 \<noteq> FR_OK then
                         (fr3, fp, snd (f_close (snd (f_close fs3 fp)) fp_backup))
                       else if int fsize mod FDS_ROM_SIDE_SIZE = FDS_ROM_HEADER_SIZE then
                         (case f_lseek fs3 fp (nat FDS_ROM_HEADER_SIZE) of (fr4, fp4, fs4) \<Rightarrow>
                            if fr4 \<noteq> FR_OK then
                              (fr4, fp4, snd (f_close (snd (f_close fs4 fp4)) fp_backup))
                            else (FR_OK, fp4, fs4))
                       else (FR_OK, fp, fs3))
                  else (FR_OK, fp, fs2)) of
              (fr5, fp5, fs5) \<Rightarrow>
                if fr5 \<noteq> FR_OK then Some (fr5, fs5)
                else
                  (case copy_loop fs5 fp5 fp_backup of
                     None \<Rightarrow> None
                   | Some (fr6, fp6, fpb6, fs6) \<Rightarrow>
                       if fr6 \<noteq> FR_OK then Some (fr6, fs6)
                       else Some (f_close (snd (f_close fs6 fp6)) fpb6)))))"

text \<open>The part of \<^verbatim>\<open>fds_save\<close> between the CRC check and the opening of the
  destination: the name of the side file, its directories, and the first copy. It
  returns a result (other than \<^verbatim>\<open>FR_OK\<close>: \<^verbatim>\<open>fds_save\<close> returns it), the volume and
  \<^verbatim>\<open>alt_filename\<close>.\<close>

definition prepare_backup ::
  "fds_consts \<Rightarrow> host \<Rightarrow> storage \<Rightarrow> fds \<Rightarrow> (FRESULT \<times> storage \<times> string) option" where
  "prepare_backup K h fs s =
     (if backup_original h = SAVES_REWRITE_BACKUP \<or> backup_original h = SAVES_EVERDRIVE then
        (case (if backup_original h = SAVES_REWRITE_BACKUP then
                 Some (FR_OK, fs, strlcat K (strlcpy K (fds_filename s)) ''.bak'')
               else
                 (case filename_no_path (fds_filename s) of
                    None \<Rightarrow> None
                  | Some base \<Rightarrow>
                      (case f_mkdir fs ''EDN8'' of (fr1, fs1) \<Rightarrow>
                       if fr1 \<noteq> FR_OK \<and> fr1 \<noteq> FR_EXIST then Some (fr1, fs1, [])
                       else
                         (case f_mkdir fs1 (''EDN8'' @ [backslash] @ ''gamedata'') of (fr2, fs2) \<Rightarrow>
                          if fr2 \<noteq> FR_OK \<and> fr2 \<noteq> FR_EXIST then Some (fr2, fs2, [])
                          else
                            (case f_mkdir fs2 (gamedata_dir K base) of (fr3, fs3) \<Rightarrow>
                             if fr3 \<noteq> FR_OK \<and> fr3 \<noteq> FR_EXIST
                             then Some (fr3, fs3, gamedata_dir K base)
                             else Some (FR_OK, fs3, bram_name K base)))))) of
           None \<Rightarrow> None
         | Some (fr, fs4, alt) \<Rightarrow>
             if fr \<noteq> FR_OK then Some (fr, fs4, alt)
             else
               (case f_stat fs4 alt of (fr5, sz, fs5) \<Rightarrow>
                if fr5 = FR_NO_FILE then
                  (case copy_original K h fs5 alt s of
                     None \<Rightarrow> None
                   | Some (fr6, fs6) \<Rightarrow> Some (fr6, fs6, alt))
                else Some (FR_OK, fs5, alt)))
      else Some (FR_OK, fs, []))"

text \<open>The last loop of \<^verbatim>\<open>fds_save\<close>: one \<^verbatim>\<open>f_write\<close> for each block, of
  \<^verbatim>\<open>fds_get_block_size(i, 0, 0)\<close> bytes from the payload address.\<close>

function save_blocks ::
  "fds_consts \<Rightarrow> fds \<Rightarrow> storage \<Rightarrow> FIL \<Rightarrow> int \<Rightarrow> FRESULT \<times> FIL \<times> storage" where
  "save_blocks K s fs fp i =
     (if i < fds_block_count s then
        (case f_write fs fp
                (load_bytes (fds_raw_data s) (payload_addr K s i)
                   (fds_get_block_size K s i False False)) of
           (fr, bw, fp1, fs1) \<Rightarrow>
             if fr \<noteq> FR_OK then (fr, fp1, fs1)
             else if int bw \<noteq> fds_get_block_size K s i False False then (FR_DISK_ERR, fp1, fs1)
             else save_blocks K s fs1 fp1 (i + 1))
      else (FR_OK, fp, fs))"
  by pat_completeness auto
termination
  by (relation "measure (\<lambda>(K, s, fs, fp, i). nat (fds_block_count s - i))") auto

declare save_blocks.simps [simp del]

text \<open>The part of \<^verbatim>\<open>fds_save\<close> from the opening of the destination on.\<close>

definition write_image ::
  "fds_consts \<Rightarrow> host \<Rightarrow> storage \<Rightarrow> string \<Rightarrow> fds \<Rightarrow> FRESULT \<times> storage \<times> fds" where
  "write_image K h fs alt s =
     (let dest = (if backup_original h \<noteq> SAVES_EVERDRIVE then fds_filename s else alt)
      in case f_open fs dest FA_WRITE of (fr1, fp, fs1) \<Rightarrow>
         if fr1 \<noteq> FR_OK then (fr1, fs1, s\<lparr>fds_state := FDS_IDLE\<rparr>)
         else
           (case f_stat fs1 dest of (fr2, fsize, fs2) \<Rightarrow>
            if fr2 \<noteq> FR_OK then (fr2, fs2, s\<lparr>fds_state := FDS_IDLE\<rparr>)
            else
              (let header_offset = int fsize mod FDS_ROM_SIDE_SIZE
               in case f_lseek fs2 fp (nat (header_offset + uint (fds_side s) * FDS_ROM_SIDE_SIZE)) of
                    (fr3, fp3, fs3) \<Rightarrow>
                      if fr3 \<noteq> FR_OK then (fr3, fs3, s\<lparr>fds_state := FDS_IDLE\<rparr>)
                      else
                        (case save_blocks K s fs3 fp3 0 of (fr4, fp4, fs4) \<Rightarrow>
                         if fr4 \<noteq> FR_OK then (fr4, fs4, s\<lparr>fds_state := FDS_IDLE\<rparr>)
                         else
                           (case f_close fs4 fp4 of (fr5, fs5) \<Rightarrow>
                            if fr5 \<noteq> FR_OK then (fr5, fs5, s\<lparr>fds_state := FDS_IDLE\<rparr>)
                            else (FR_OK, fs5, fds_check_pins K h (s\<lparr>fds_changed := 0\<rparr>)))))))"

definition fds_save ::
  "fds_consts \<Rightarrow> host \<Rightarrow> storage \<Rightarrow> fds \<Rightarrow> (FRESULT \<times> storage \<times> fds) option" where
  "fds_save K h fs s =
     (if fds_changed s = 0 then Some (FR_OK, fs, s)
      else if fds_readonly s \<noteq> 0 then Some (FDSR_READ_ONLY, fs, s)
      else
        (case check_crcs K s 0 of
           None \<Rightarrow> None
         | Some False \<Rightarrow> Some (FDSR_WRONG_CRC, fs, s)
         | Some True \<Rightarrow>
             (case prepare_backup K h fs s of
                None \<Rightarrow> None
              | Some (fr, fs1, alt) \<Rightarrow>
                  if fr \<noteq> FR_OK then Some (fr, fs1, s\<lparr>fds_state := FDS_IDLE\<rparr>)
                  else Some (write_image K h fs1 alt s))))"

definition fds_close ::
  "fds_consts \<Rightarrow> host \<Rightarrow> storage \<Rightarrow> u8 \<Rightarrow> fds \<Rightarrow> (FRESULT \<times> storage \<times> fds) option" where
  "fds_close K h fs save s =
     (let s1 = s\<lparr>FDS_MEDIA_SET_Pin := GPIO_PIN_SET, FDS_WRITABLE_MEDIA_Pin := GPIO_PIN_SET\<rparr>
      in case (if save \<noteq> 0 then fds_save K h fs s1 else Some (FR_OK, fs, s1)) of
           None \<Rightarrow> None
         | Some (fr, fs1, s2) \<Rightarrow> Some (fr, fs1, close_drive s2))"


section \<open>A configuration and a drive for the witnesses\<close>

text \<open>Values for the macros of \<^verbatim>\<open>fdsemu.h\<close>, a host with the motor off, an empty
  volume and a drive with every variable zero. The witnesses and counterexamples
  below start from them.\<close>

definition sample_consts :: fds_consts where
  "sample_consts =
     \<lparr>FDS_MAX_SIDE_SIZE = 81920, FDS_FIRST_GAP_READ_BITS = 28300,
      FDS_NEXT_GAPS_READ_BITS = 976, FDS_READ_IMPULSE_LENGTH = 32,
      FDS_READ_BUFFER_SIZE = 128, FDS_WRITE_BUFFER_SIZE = 32,
      FDS_NOT_READY_BYTES = 4096, FDS_NOT_READY_TIME = 300,
      FDS_NOT_READY_TIME_ORIGINAL = 5000, FDS_AUTOSAVE_DELAY = 1000,
      FDS_THRESHOLD_1 = 960, FDS_THRESHOLD_2 = 1120,
      FDS_WRITE_GAP_SKIP_BITS = 32, FDS_MULTI_WRITE_UNLICENSED_BITS = 16,
      FF_MAX_LFN = 255\<rparr>"

definition sample_host :: host where
  "sample_host =
     \<lparr>HAL_GetTick = 5, FDS_SCAN_MEDIA_Pin = GPIO_PIN_SET, FDS_WRITE_Pin = GPIO_PIN_SET,
      rewind_speed = REWIND_SPEED_TURBO, backup_original = SAVES_IN_PLACE\<rparr>"

definition sample_volume :: storage where
  "sample_volume =
     \<lparr>files = (\<lambda>name. None), dirs = {}, room = 1000000, faults = [], filler = 0\<rparr>"

definition sample_drive :: fds where
  "sample_drive =
     \<lparr>fds_filename = ''game.fds'', fds_side = 0, fds_raw_data = (\<lambda>a. 0),
      fds_read_buffer = (\<lambda>a. 0), fds_used_space = 0, fds_block_count = 0,
      fds_block_offsets = (\<lambda>i. 0), fds_write_buffer = (\<lambda>a. 0), fds_state = FDS_IDLE,
      fds_clock = 0, fds_current_byte = 0, fds_current_bit = 0, fds_last_value = 0,
      fds_not_ready_time = 0, fds_write_carrier = 0, fds_last_write_impulse = 0,
      fds_current_block_end = 0, fds_write_gap_skip = 0, fds_changed = 0,
      fds_last_action_time = 0, fds_readonly = 0, FDS_READY_Pin = GPIO_PIN_SET,
      FDS_MEDIA_SET_Pin = GPIO_PIN_RESET, FDS_WRITABLE_MEDIA_Pin = GPIO_PIN_RESET,
      read_dma_running = False, write_dma_running = False\<rparr>"

section \<open>The CRC unit: what it computes and where it returns\<close>

lemma crc_and_one: "drop_bit k (byte :: u8) AND 1 = of_bool (bit byte k)"
  by (simp add: and_one_eq bit_iff_odd_drop_bit mod_2_eq_odd)

lemma crc_bit_step_spec: "crc_bit_step byte k csum = spec_crc_bit (bit byte k) csum"
  unfolding crc_bit_step_def spec_crc_bit_def Let_def
  by (simp add: crc_and_one and_one_eq bit_0 mod_2_eq_odd bit_iff_odd_drop_bit)

lemma crc_byte_step_spec: "crc_byte_step byte csum = spec_crc_byte byte csum"
  by (simp add: crc_byte_step_def spec_crc_byte_def crc_bit_step_spec)

lemma fds_crc_loop_returns:
  assumes "length data < 65534" and "i \<le> length data + 2"
  shows "fds_crc_loop data i csum = Some (fold spec_crc_byte (drop i (data @ [0, 0])) csum)"
  using assms
proof (induction "length data + 2 - i" arbitrary: i csum)
  case 0
  then have "i = length data + 2" by simp
  then show ?case using "0.prems"
    by (subst fds_crc_loop.simps) simp
next
  case (Suc n)
  then have lt: "i < length data + 2" and n: "n = length data + 2 - Suc i" by linarith+
  have m1: "(length data + 2) mod 2 ^ 32 = length data + 2"
    using Suc.prems by simp
  have m2: "Suc i mod 65536 = Suc i" using lt Suc.prems by simp
  have nth: "(if i < length data then data ! i else 0) = (data @ [0, 0]) ! i"
    using lt by (auto simp: nth_append less_Suc_eq numeral_2_eq_2 dest!: leI)
  have dr: "drop i (data @ [0, 0]) = (data @ [0, 0]) ! i # drop (Suc i) (data @ [0, 0])"
    using lt by (simp add: Cons_nth_drop_Suc del: append.simps drop_append)
  have "fds_crc_loop data i csum =
        fds_crc_loop data (Suc i) (crc_byte_step ((data @ [0, 0]) ! i) csum)"
    using lt m1 m2 nth by (subst fds_crc_loop.simps) simp
  also have "\<dots> = Some (fold spec_crc_byte (drop (Suc i) (data @ [0, 0]))
                       (crc_byte_step ((data @ [0, 0]) ! i) csum))"
    using Suc.hyps(1)[OF n] Suc.prems lt by simp
  finally show ?case by (simp add: dr crc_byte_step_spec del: drop_append append.simps)
qed

text \<open>With 65534 bytes or more the 16-bit \<^verbatim>\<open>byte_index\<close> stays below \<^verbatim>\<open>size + 2\<close>
  for ever.\<close>

lemma fds_crc_loop_never_returns:
  assumes "fds_crc_loop data i csum = Some r"
  shows "\<not> (65534 \<le> length data \<and> length data + 2 < 2 ^ 32 \<and> i < 65536)"
proof (rule fds_crc_loop.raw_induct
    [where P = "\<lambda>data i csum r. \<not> (65534 \<le> length data \<and> length data + 2 < 2 ^ 32 \<and> i < 65536)",
     OF _ assms])
  fix f :: "u8 list \<Rightarrow> nat \<Rightarrow> u16 \<Rightarrow> u16 option" and data i csum r
  assume IH: "\<And>d j c y. f d j c = Some y \<Longrightarrow>
     \<not> (65534 \<le> length d \<and> length d + 2 < 2 ^ 32 \<and> j < 65536)"
  assume eq: "(if i < (length data + 2) mod 2 ^ 32
      then f data ((i + 1) mod 65536) (crc_byte_step (if i < length data then data ! i else 0) csum)
      else Some csum) = Some r"
  show "\<not> (65534 \<le> length data \<and> length data + 2 < 2 ^ 32 \<and> i < 65536)"
  proof
    assume a: "65534 \<le> length data \<and> length data + 2 < 2 ^ 32 \<and> i < 65536"
    then have "(length data + 2) mod 2 ^ 32 = length data + 2" by simp
    with a eq have "f data ((i + 1) mod 65536)
        (crc_byte_step (if i < length data then data ! i else 0) csum) = Some r"
      by (simp split: if_splits)
    from IH[OF this] a show False by simp
  qed
qed

lemma fds_crc_spec: "length data < 65534 \<Longrightarrow> fds_crc data = Some (spec_crc data)"
  by (simp add: fds_crc_def spec_crc_def fds_crc_loop_returns del: append.simps)

lemma fds_crc_hangs:
  assumes "65534 \<le> length data" and "length data + 2 < 2 ^ 32"
  shows "fds_crc data = None"
proof (cases "fds_crc data")
  case (Some r)
  then show ?thesis
    using fds_crc_loop_never_returns[of data 0 "0x8000" r] assms by (simp add: fds_crc_def)
qed simp

text \<open>
  Claim C4. For every byte array of fewer than 65534 bytes, \<^verbatim>\<open>fds_crc\<close> returns the
  CRC of the specification: the register starts at \<open>0x8000\<close>, the data bytes and two
  zero bytes are processed, each from its least significant bit, with
  \<open>carry = sum & 1\<close>, \<open>sum = (sum >> 1) | (bit << 15)\<close> and \<open>sum ^= 0x8408\<close> on a carry.
  For an array of 65534 bytes or more (and fewer than \<open>2^32 - 2\<close>, where \<^verbatim>\<open>size + 2\<close>
  wraps) it does not return: \<^verbatim>\<open>byte_index\<close> is a \<^verbatim>\<open>uint16_t\<close>, it wraps to 0 at 65536
  and stays below \<^verbatim>\<open>size + 2\<close> for ever. The parameter \<^verbatim>\<open>size\<close> is \<^verbatim>\<open>unsigned\<close>, and a
  data block whose file header announces \<open>0xFFFD\<close> bytes has a payload of 65534 bytes.
\<close>

theorem fds_crc_returns_below_65534_only:
  "(length data < 65534 \<longrightarrow> fds_crc data = Some (spec_crc data)) \<and>
   (65534 \<le> length data \<and> length data + 2 < 2 ^ 32 \<longrightarrow> fds_crc data = None)"
  by (simp add: fds_crc_spec fds_crc_hangs)

theorem fds_crc_returns_below_65534_only_witness:
  "length [1, 2, 3 :: u8] < 65534 \<and> fds_crc [1, 2, 3] = Some (spec_crc [1, 2, 3]) \<and>
   65534 \<le> length (replicate 65534 (0 :: u8)) \<and>
   length (replicate 65534 (0 :: u8)) + 2 < 2 ^ 32 \<and>
   fds_crc (replicate 65534 0) = None"
proof -
  have h: "length [1, 2, 3 :: u8] < 65534" by simp
  have k: "65534 \<le> length (replicate 65534 (0 :: u8)) \<and>
           length (replicate 65534 (0 :: u8)) + 2 < 2 ^ 32" by simp
  from fds_crc_returns_below_65534_only[of "[1, 2, 3]"] h
  have a: "fds_crc [1, 2, 3] = Some (spec_crc [1, 2, 3])" by blast
  from fds_crc_returns_below_65534_only[of "replicate 65534 0"] k
  have b: "fds_crc (replicate 65534 0) = None" by blast
  from h a k b show ?thesis by blast
qed

section \<open>Save: the order of the preconditions\<close>

text \<open>The results that the storage model and the file part of \<^verbatim>\<open>fds_save\<close> can
  give.\<close>

definition storage_code :: "FRESULT \<Rightarrow> bool" where
  "storage_code r \<longleftrightarrow> r \<in> {FR_OK, FR_DISK_ERR, FR_INT_ERR, FR_NO_FILE, FR_DENIED, FR_EXIST}"

lemma storage_code_simps [simp]:
  "storage_code FR_OK" "storage_code FR_DISK_ERR" "storage_code FR_NO_FILE"
  "storage_code FR_DENIED" "storage_code FR_EXIST" "\<not> storage_code FDSR_READ_ONLY"
  by (simp_all add: storage_code_def)

lemma f_open_code: "f_open fs name mode = (r, fp, fs') \<Longrightarrow> storage_code r"
  by (auto simp: f_open_def Let_def split: prod.splits if_splits)

lemma f_close_code: "f_close fs fp = (r, fs') \<Longrightarrow> storage_code r"
  by (auto simp: f_close_def split: prod.splits if_splits)

lemma f_stat_code: "f_stat fs name = (r, n, fs') \<Longrightarrow> storage_code r"
  by (auto simp: f_stat_def split: prod.splits if_splits)

lemma f_mkdir_code: "f_mkdir fs name = (r, fs') \<Longrightarrow> storage_code r"
  by (auto simp: f_mkdir_def split: prod.splits if_splits)

lemma f_lseek_code: "f_lseek fs fp ofs = (r, fp', fs') \<Longrightarrow> storage_code r"
  by (auto simp: f_lseek_def Let_def split: prod.splits if_splits)

lemma f_read_code: "f_read fs fp n = (r, bytes, fp', fs') \<Longrightarrow> storage_code r"
  by (auto simp: f_read_def Let_def split: prod.splits if_splits)

lemma f_write_code: "f_write fs fp bytes = (r, bw, fp', fs') \<Longrightarrow> storage_code r"
  by (auto simp: f_write_def Let_def split: prod.splits if_splits)

lemma copy_loop_code:
  assumes "copy_loop fs fp fpb = Some res"
  shows "storage_code (fst res)"
proof (rule copy_loop.raw_induct[where P = "\<lambda>fs fp fpb res. storage_code (fst res)", OF _ assms])
  fix f :: "storage \<Rightarrow> FIL \<Rightarrow> FIL \<Rightarrow> (FRESULT \<times> FIL \<times> FIL \<times> storage) option"
    and fs fp fpb res
  assume IH: "\<And>a b c y. f a b c = Some y \<Longrightarrow> storage_code (fst y)"
  assume eq: "(case f_read fs fp 4096 of (fr, buff, fp1, fs1) \<Rightarrow>
        if fr \<noteq> FR_OK then Some (fr, fp1, fpb, fs1)
        else
          (case f_write fs1 fpb buff of (fr2, bw, fpb1, fs2) \<Rightarrow>
             if bw \<noteq> length buff then
               Some (FR_DENIED, fp1, fpb1, snd (f_close (snd (f_close fs2 fp1)) fpb1))
             else if length buff > 0 then f fs2 fp1 fpb1
             else Some (FR_OK, fp1, fpb1, fs2))) = Some res"
  then show "storage_code (fst res)"
    by (auto split: prod.splits if_splits dest: f_read_code IH)
qed

lemma copy_original_code:
  "copy_original K h fs alt s = Some (r, fs') \<Longrightarrow> storage_code r"
  unfolding copy_original_def
  by (auto split: prod.splits if_splits option.splits
           dest: f_open_code f_stat_code f_lseek_code f_close_code copy_loop_code)

lemma prepare_backup_code:
  "prepare_backup K h fs s = Some (r, fs', alt) \<Longrightarrow> storage_code r"
  unfolding prepare_backup_def
  by (auto split: prod.splits if_splits option.splits
           dest: f_mkdir_code copy_original_code)

lemma save_blocks_code:
  "save_blocks K s fs fp i = (r, fp', fs') \<Longrightarrow> storage_code r"
proof (induction K s fs fp i rule: save_blocks.induct)
  case (1 K s fs fp i)
  from "1.prems" show ?case
    by (subst (asm) save_blocks.simps)
       (auto split: prod.splits if_splits dest: f_write_code "1.IH")
qed

lemma write_image_code:
  "write_image K h fs alt s = (r, fs', s') \<Longrightarrow> storage_code r"
  unfolding write_image_def Let_def
  by (auto split: prod.splits if_splits
           dest: f_open_code f_stat_code f_lseek_code f_close_code save_blocks_code)

text \<open>
  Claim C10. When \<^verbatim>\<open>fds_changed\<close> is zero, \<^verbatim>\<open>fds_save\<close> returns \<^verbatim>\<open>FR_OK\<close> and
  leaves the volume and the drive as they are, whatever \<^verbatim>\<open>fds_readonly\<close> is; it
  returns \<^verbatim>\<open>FDSR_READ_ONLY\<close> exactly when \<^verbatim>\<open>fds_changed\<close> and \<^verbatim>\<open>fds_readonly\<close>
  are both set.
\<close>

theorem save_precondition_precedence:
  "(fds_changed s = 0 \<longrightarrow> fds_save K h fs s = Some (FR_OK, fs, s)) \<and>
   ((\<exists>fs' s'. fds_save K h fs s = Some (FDSR_READ_ONLY, fs', s'))
      \<longleftrightarrow> fds_changed s \<noteq> 0 \<and> fds_readonly s \<noteq> 0)"
proof -
  have a: "fds_changed s = 0 \<Longrightarrow> fds_save K h fs s = Some (FR_OK, fs, s)"
    by (simp add: fds_save_def)
  have b: "fds_changed s \<noteq> 0 \<Longrightarrow> fds_readonly s \<noteq> 0 \<Longrightarrow>
           fds_save K h fs s = Some (FDSR_READ_ONLY, fs, s)"
    by (simp add: fds_save_def)
  have c: "fds_changed s \<noteq> 0 \<and> fds_readonly s \<noteq> 0"
    if r: "fds_save K h fs s = Some (FDSR_READ_ONLY, fs', s')" for fs' s'
  proof (rule ccontr)
    assume n: "\<not> (fds_changed s \<noteq> 0 \<and> fds_readonly s \<noteq> 0)"
    with r show False
      unfolding fds_save_def
      by (auto split: if_splits option.splits bool.splits prod.splits
               dest: prepare_backup_code write_image_code)
  qed
  show ?thesis using a b c by blast
qed

theorem save_precondition_precedence_witness:
  "fds_changed (sample_drive\<lparr>fds_readonly := 1\<rparr>) = 0 \<and>
   fds_save sample_consts sample_host sample_volume (sample_drive\<lparr>fds_readonly := 1\<rparr>)
     = Some (FR_OK, sample_volume, sample_drive\<lparr>fds_readonly := 1\<rparr>) \<and>
   fds_changed (sample_drive\<lparr>fds_readonly := 1, fds_changed := 1\<rparr>) \<noteq> 0 \<and>
   fds_readonly (sample_drive\<lparr>fds_readonly := 1, fds_changed := 1\<rparr>) \<noteq> 0 \<and>
   (\<exists>fs' s'. fds_save sample_consts sample_host sample_volume
                (sample_drive\<lparr>fds_readonly := 1, fds_changed := 1\<rparr>)
              = Some (FDSR_READ_ONLY, fs', s'))"
proof -
  have h1: "fds_changed (sample_drive\<lparr>fds_readonly := 1\<rparr>) = 0"
    by (simp add: sample_drive_def)
  have h2: "fds_changed (sample_drive\<lparr>fds_readonly := 1, fds_changed := 1\<rparr>) \<noteq> 0 \<and>
            fds_readonly (sample_drive\<lparr>fds_readonly := 1, fds_changed := 1\<rparr>) \<noteq> 0"
    by simp
  from save_precondition_precedence
         [of "sample_drive\<lparr>fds_readonly := 1\<rparr>" sample_consts sample_host sample_volume] h1
  have c1: "fds_save sample_consts sample_host sample_volume (sample_drive\<lparr>fds_readonly := 1\<rparr>)
     = Some (FR_OK, sample_volume, sample_drive\<lparr>fds_readonly := 1\<rparr>)" by blast
  from save_precondition_precedence
         [of "sample_drive\<lparr>fds_readonly := 1, fds_changed := 1\<rparr>"
             sample_consts sample_host sample_volume] h2
  have c2: "\<exists>fs' s'. fds_save sample_consts sample_host sample_volume
                (sample_drive\<lparr>fds_readonly := 1, fds_changed := 1\<rparr>)
              = Some (FDSR_READ_ONLY, fs', s')" by blast
  from h1 c1 h2 c2 show ?thesis by blast
qed

section \<open>Save: the CRC guard\<close>

text \<open>The payload of block \<open>i\<close> and the CRC stored behind it, as \<^verbatim>\<open>fds_save\<close> reads
  them.\<close>

definition block_payload :: "fds_consts \<Rightarrow> fds \<Rightarrow> int \<Rightarrow> u8 list" where
  "block_payload K s i =
     load_bytes (fds_raw_data s) (payload_addr K s i) (fds_get_block_size K s i False False)"

definition stored_crc :: "fds_consts \<Rightarrow> fds \<Rightarrow> int \<Rightarrow> int" where
  "stored_crc K s i =
     le16 (fds_raw_data s (payload_addr K s i + fds_get_block_size K s i False False))
          (fds_raw_data s (payload_addr K s i + fds_get_block_size K s i False False + 1))"

lemma check_crcs_unfold:
  "check_crcs K s i =
     (if i < fds_block_count s then
        (case fds_crc (block_payload K s i) of
           None \<Rightarrow> None
         | Some valid_crc \<Rightarrow>
             if uint valid_crc \<noteq> stored_crc K s i then Some False
             else check_crcs K s (i + 1))
      else Some True)"
  unfolding block_payload_def stored_crc_def
  by (subst check_crcs.simps) (simp add: Let_def)

lemma check_crcs_mismatch:
  assumes "k \<le> i" and "i < fds_block_count s"
    and "\<forall>j. k \<le> j \<and> j < i \<longrightarrow> fds_crc (block_payload K s j) \<noteq> None"
    and "fds_crc (block_payload K s i) = Some c" and "uint c \<noteq> stored_crc K s i"
  shows "check_crcs K s k = Some False"
  using assms(1,3)
proof (induction "nat (i - k)" arbitrary: k)
  case 0
  then have "k = i" by simp
  with assms(2,4,5) show ?case by (subst check_crcs_unfold) simp
next
  case (Suc n)
  then have lt: "k < i" by linarith
  with Suc.prems obtain v where v: "fds_crc (block_payload K s k) = Some v" by auto
  from Suc.hyps(2) lt have n: "n = nat (i - (k + 1))" by linarith
  have "check_crcs K s (k + 1) = Some False"
    using Suc.hyps(1)[OF n] lt Suc.prems by simp
  with v lt assms(2) show ?case by (subst check_crcs_unfold) simp
qed

lemma check_crcs_hang:
  assumes "k \<le> i" and "i < fds_block_count s"
    and "\<forall>j. k \<le> j \<and> j < i \<longrightarrow>
           (\<exists>c. fds_crc (block_payload K s j) = Some c \<and> uint c = stored_crc K s j)"
    and "fds_crc (block_payload K s i) = None"
  shows "check_crcs K s k = None"
  using assms(1,3)
proof (induction "nat (i - k)" arbitrary: k)
  case 0
  then have "k = i" by simp
  with assms(2,4) show ?case by (subst check_crcs_unfold) simp
next
  case (Suc n)
  then have lt: "k < i" by linarith
  with Suc.prems obtain v
    where v: "fds_crc (block_payload K s k) = Some v" "uint v = stored_crc K s k" by auto
  from Suc.hyps(2) lt have n: "n = nat (i - (k + 1))" by linarith
  have "check_crcs K s (k + 1) = None"
    using Suc.hyps(1)[OF n] lt Suc.prems by simp
  with v lt assms(2) show ?case by (subst check_crcs_unfold) simp
qed

text \<open>
  Claim C5. The image is dirty and not read-only. When the CRC stored behind some block
  \<open>i\<close> differs from the CRC computed over its payload, and the computations for the
  blocks before it return, \<^verbatim>\<open>fds_save\<close> returns \<^verbatim>\<open>FDSR_WRONG_CRC\<close>; the volume, with its
  pending faults, and the whole drive state are as before: no file call was made and
  \<^verbatim>\<open>fds_changed\<close> is still set. But when the computation for a block \<open>k\<close> does not
  return (a payload of 65534 bytes or more) and the blocks before \<open>k\<close> pass the check,
  \<^verbatim>\<open>fds_save\<close> does not return, whatever CRC is stored behind the blocks after \<open>k\<close>.
\<close>

theorem save_crc_guard_or_hang:
  assumes "fds_changed s \<noteq> 0" and "fds_readonly s = 0"
  shows "(0 \<le> i \<and> i < fds_block_count s \<and>
          (\<forall>j. 0 \<le> j \<and> j < i \<longrightarrow> fds_crc (block_payload K s j) \<noteq> None) \<and>
          fds_crc (block_payload K s i) = Some c \<and> uint c \<noteq> stored_crc K s i
          \<longrightarrow> fds_save K h fs s = Some (FDSR_WRONG_CRC, fs, s)) \<and>
         (0 \<le> k \<and> k < fds_block_count s \<and>
          (\<forall>j. 0 \<le> j \<and> j < k \<longrightarrow>
             (\<exists>c. fds_crc (block_payload K s j) = Some c \<and> uint c = stored_crc K s j)) \<and>
          fds_crc (block_payload K s k) = None
          \<longrightarrow> fds_save K h fs s = None)"
proof (intro conjI impI)
  assume a: "0 \<le> i \<and> i < fds_block_count s \<and>
          (\<forall>j. 0 \<le> j \<and> j < i \<longrightarrow> fds_crc (block_payload K s j) \<noteq> None) \<and>
          fds_crc (block_payload K s i) = Some c \<and> uint c \<noteq> stored_crc K s i"
  then have "check_crcs K s 0 = Some False"
    by (intro check_crcs_mismatch[of 0 i s K c]) simp_all
  with assms show "fds_save K h fs s = Some (FDSR_WRONG_CRC, fs, s)"
    by (simp add: fds_save_def)
next
  assume a: "0 \<le> k \<and> k < fds_block_count s \<and>
          (\<forall>j. 0 \<le> j \<and> j < k \<longrightarrow>
             (\<exists>c. fds_crc (block_payload K s j) = Some c \<and> uint c = stored_crc K s j)) \<and>
          fds_crc (block_payload K s k) = None"
  then have "check_crcs K s 0 = None"
    by (intro check_crcs_hang[of 0 k s K]) simp_all
  with assms show "fds_save K h fs s = None"
    by (simp add: fds_save_def)
qed

lemma load_bytes_const: "load_bytes (\<lambda>a. c) p n = replicate (nat n) c"
  by (simp add: load_bytes_def map_replicate_const)

lemma replicate_numeral: "replicate (numeral k) x = x # replicate (pred_numeral k) x"
  by (simp add: numeral_eq_Suc)

lemma spec_crc_blank: "spec_crc (replicate 56 0) = 43001"
  by (simp add: spec_crc_def spec_crc_byte_def spec_crc_bit_def bit_0 replicate_numeral)

section \<open>The write engine between two blocks\<close>

lemma find_current_block_state:
  "find_current_block K s i = (s', b) \<Longrightarrow> fds_state s' = fds_state s"
proof (induction K s i rule: find_current_block.induct)
  case (1 K s i)
  from "1.prems" show ?case
    by (subst (asm) find_current_block.simps) (auto split: if_splits dest: "1.IH")
qed

lemma write_gap_state: "fds_state (write_gap g s) = fds_state s"
  by (simp add: write_gap_def split: prod.splits)

lemma fds_reset_writing_state:
  "fds_state (fds_reset_writing K s) = fds_state s \<or> fds_state (fds_reset_writing K s) = FDS_IDLE"
proof (cases "find_current_block K s 0")
  case (Pair s1 b)
  from find_current_block_state[OF Pair] show ?thesis
    unfolding fds_reset_writing_def Let_def Pair
    by (simp add: fds_stop_def fds_stop_writing_def fds_stop_reading_def write_gap_state)
qed

text \<open>
  Claim C9 on the code. In state \<^verbatim>\<open>FDS_WRITING_STOPPING\<close> a pulse, short or long,
  whatever the count of short pulses before it, never brings the engine to
  \<^verbatim>\<open>FDS_WRITING_GAP\<close>: \<^verbatim>\<open>fds_write_impulse\<close> calls \<^verbatim>\<open>fds_reset_writing\<close>, which sets
  no state but \<^verbatim>\<open>FDS_IDLE\<close> (through \<^verbatim>\<open>fds_stop\<close>), and returns. The state after the
  pulse is \<^verbatim>\<open>FDS_WRITING_STOPPING\<close> or \<^verbatim>\<open>FDS_IDLE\<close>.
\<close>

theorem writing_stopping_never_reenters_gap:
  assumes "fds_state s = FDS_WRITING_STOPPING"
  shows "fds_state (fds_write_impulse K h pulse s) = FDS_WRITING_STOPPING \<or>
         fds_state (fds_write_impulse K h pulse s) = FDS_IDLE"
proof -
  let ?s1 = "if uint pulse < FDS_THRESHOLD_1 K
             then s\<lparr>fds_write_gap_skip := fds_write_gap_skip s + 1\<rparr>
             else s\<lparr>fds_write_gap_skip := 0\<rparr>"
  have s1: "fds_state ?s1 = FDS_WRITING_STOPPING" using assms by simp
  have "fds_write_impulse K h pulse s =
        (if uint (fds_write_gap_skip ?s1) \<ge> FDS_MULTI_WRITE_UNLICENSED_BITS K
         then fds_reset_writing K ?s1 else ?s1)"
    using assms by (simp add: fds_write_impulse_def Let_def)
  moreover have "fds_state (fds_reset_writing K ?s1) = FDS_WRITING_STOPPING \<or>
                 fds_state (fds_reset_writing K ?s1) = FDS_IDLE"
    using fds_reset_writing_state[of K ?s1] s1 by metis
  ultimately show ?thesis using s1 by (auto split: if_splits)
qed

text \<open>The failing input: the drive waits in \<^verbatim>\<open>FDS_WRITING_STOPPING\<close>, 15 short pulses
  were counted (the sample \<^verbatim>\<open>FDS_MULTI_WRITE_UNLICENSED_BITS\<close> is 16), and one more short
  pulse arrives.\<close>

definition stopping_drive :: fds where
  "stopping_drive = sample_drive\<lparr>fds_state := FDS_WRITING_STOPPING, fds_write_gap_skip := 15\<rparr>"

theorem writing_stopping_never_reenters_gap_witness:
  "fds_state stopping_drive = FDS_WRITING_STOPPING \<and>
   uint (fds_write_gap_skip stopping_drive) + 1 = FDS_MULTI_WRITE_UNLICENSED_BITS sample_consts \<and>
   uint (100 :: u16) < FDS_THRESHOLD_1 sample_consts \<and>
   fds_state (fds_write_impulse sample_consts sample_host 100 stopping_drive)
     \<noteq> FDS_WRITING_GAP"
proof -
  have h: "fds_state stopping_drive = FDS_WRITING_STOPPING"
    by (simp add: stopping_drive_def)
  have k: "uint (fds_write_gap_skip stopping_drive) + 1
             = FDS_MULTI_WRITE_UNLICENSED_BITS sample_consts"
          "uint (100 :: u16) < FDS_THRESHOLD_1 sample_consts"
    by (simp_all add: stopping_drive_def sample_consts_def)
  from writing_stopping_never_reenters_gap[OF h, of sample_consts sample_host 100]
  have c: "fds_state (fds_write_impulse sample_consts sample_host 100 stopping_drive)
             \<noteq> FDS_WRITING_GAP" by auto
  from h k c show ?thesis by blast
qed

section \<open>The read engine: encoding and rewind\<close>

text \<open>The read cursor of the data model: a one-bit clock, \<^verbatim>\<open>current_bit\<close> in
  \<open>[0, 16)\<close>, a head position that is not negative.\<close>

definition read_cursor_ok :: "fds \<Rightarrow> bool" where
  "read_cursor_ok s \<longleftrightarrow> fds_clock s \<le> 1 \<and> fds_current_bit s < 16 \<and> 0 \<le> fds_current_byte s"

text \<open>The rewind transition as the specification words it.\<close>

definition spec_rewind :: "host \<Rightarrow> fds \<Rightarrow> fds" where
  "spec_rewind h s =
     s\<lparr>FDS_READY_Pin := GPIO_PIN_SET,
       fds_not_ready_time := HAL_GetTick h,
       fds_state := FDS_READ_WAIT_READY_TIMER,
       fds_clock := 0, fds_last_value := 0, fds_current_bit := 0,
       fds_current_byte := (if rewind_speed h = REWIND_SPEED_TURBO then 0 else fds_current_byte s)\<rparr>"

text \<open>
  One slot as the specification words it: the clock is toggled; the bit is
  \<open>(image[current_byte] >> (current_bit / 2)) & 1\<close>; the value is the bit XOR the clock;
  the slot gets \<open>IMPULSE_LENGTH - 1\<close> iff the value is 1 and the last value 0, and 0
  otherwise; \<open>current_bit\<close> advances, and when it reaches 16 it goes back to 0 and
  \<open>current_byte\<close> advances modulo \<open>MAX_SIDE_SIZE\<close>, with the rewind test.
\<close>

definition spec_read_slot :: "fds_consts \<Rightarrow> host \<Rightarrow> int \<Rightarrow> fds \<Rightarrow> fds" where
  "spec_read_slot K h pos s =
     (let clock = (if fds_clock s = 0 then 1 else 0);
          b = drop_bit (unat (fds_current_bit s) div 2) (fds_raw_data s (fds_current_byte s)) AND 1;
          val = b XOR clock;
          slot = (if val = 1 \<and> fds_last_value s = 0
                  then word_of_int (FDS_READ_IMPULSE_LENGTH K - 1) else 0);
          s1 = s\<lparr>fds_clock := clock,
                 fds_read_buffer := (fds_read_buffer s)(pos := slot),
                 fds_last_value := val\<rparr>
      in if unat (fds_current_bit s) + 1 = 16 then
           (let s2 = s1\<lparr>fds_current_bit := 0,
                         fds_current_byte := (fds_current_byte s + 1) mod FDS_MAX_SIDE_SIZE K\<rparr>
            in if fds_current_byte s2 = 0 \<or>
                  (rewind_speed h = REWIND_SPEED_TURBO \<and>
                   fds_current_byte s2 > fds_used_space s2 + FDS_NOT_READY_BYTES K)
               then spec_rewind h s2 else s2)
         else s1\<lparr>fds_current_bit := fds_current_bit s + 1\<rparr>)"

fun spec_refill :: "fds_consts \<Rightarrow> host \<Rightarrow> int \<Rightarrow> nat \<Rightarrow> fds \<Rightarrow> fds" where
  "spec_refill K h pos 0 s = s"
| "spec_refill K h pos (Suc n) s = spec_refill K h (pos + 1) n (spec_read_slot K h pos s)"

lemma c_rem_mod: "0 \<le> a \<Longrightarrow> 0 < b \<Longrightarrow> c_rem a b = a mod b"
  by (cases "a = 0") (simp_all add: c_rem_def minus_mult_div_eq_mod)

lemma u8_le_1: "(c :: u8) \<le> 1 \<Longrightarrow> c = 0 \<or> c = 1"
  by (simp add: word_le_nat_alt word_unat_eq_iff) arith

lemma u8_and_1_cases: "(w :: u8) AND 1 = 0 \<or> w AND 1 = 1"
  by (simp add: and_one_eq mod_2_eq_odd)

lemma u8_bit_ne_0: "((w :: u8) AND 1 \<noteq> 0) = (w AND 1 = 1)"
  using u8_and_1_cases[of w] by auto

lemma u8_bit_xor_ne_0: "((w :: u8) AND 1 XOR 1 \<noteq> 0) = (w AND 1 XOR 1 = 1)"
  using u8_and_1_cases[of w] by auto

lemma u8_succ_gt_15: "(x :: u8) < 16 \<Longrightarrow> (x + 1 > 15) = (unat x + 1 = 16)"
  by (auto simp: word_less_nat_alt unat_word_ariths)

lemma u8_succ_lt_16: "(x :: u8) < 16 \<Longrightarrow> unat x + 1 \<noteq> 16 \<Longrightarrow> x + 1 < 16"
  by (auto simp: word_less_nat_alt unat_word_ariths)

lemma pause_before_ready_spec: "pause_before_ready h s = spec_rewind h s"
  by (simp add: pause_before_ready_def spec_rewind_def fds_reset_reading_def Let_def)

lemma read_phase_spec:
  assumes "0 < FDS_MAX_SIDE_SIZE K" and "read_cursor_ok s"
  shows "read_phase K h pos s = spec_read_slot K h pos s"
proof -
  from assms(2) have c: "fds_clock s = 0 \<or> fds_clock s = 1"
    and b: "fds_current_bit s < 16" and p: "0 \<le> fds_current_byte s"
    by (auto simp: read_cursor_ok_def dest: u8_le_1)
  have adv: "c_rem (fds_current_byte s + 1) (FDS_MAX_SIDE_SIZE K)
             = (fds_current_byte s + 1) mod FDS_MAX_SIDE_SIZE K"
    using p assms(1) by (simp add: c_rem_mod)
  from c show ?thesis
    unfolding read_phase_def spec_read_slot_def Let_def
    by (elim disjE)
       (simp_all add: adv u8_succ_gt_15[OF b] rewinded_def pause_before_ready_spec
          u8_bit_ne_0 u8_bit_xor_ne_0)
qed

lemma spec_read_slot_cursor:
  assumes "0 < FDS_MAX_SIDE_SIZE K" and "read_cursor_ok s"
  shows "read_cursor_ok (spec_read_slot K h pos s)"
proof -
  from assms(2) have b: "fds_current_bit s < 16" and p: "0 \<le> fds_current_byte s"
    by (auto simp: read_cursor_ok_def)
  show ?thesis
    using assms(1) p u8_succ_lt_16[OF b]
    unfolding spec_read_slot_def Let_def read_cursor_ok_def spec_rewind_def
    by (auto simp: )
qed

lemma fill_slots_spec:
  assumes "0 < FDS_MAX_SIDE_SIZE K"
  shows "read_cursor_ok s \<Longrightarrow> fill_slots K h pos n s = spec_refill K h pos n s"
proof (induction n arbitrary: pos s)
  case 0
  show ?case by simp
next
  case (Suc n)
  from Suc.prems have "read_cursor_ok (spec_read_slot K h pos s)"
    by (rule spec_read_slot_cursor[OF assms])
  then show ?case
    using Suc.IH Suc.prems by (simp add: read_phase_spec[OF assms])
qed

text \<open>
  Claim C7. With the read cursor of the data model, a refill in state \<^verbatim>\<open>FDS_READING\<close>
  or \<^verbatim>\<open>FDS_READ_WAIT_READY\<close> produces the slots \<open>pos\<close>, \<open>pos + 1\<close>, ... one after the
  other as the specification encodes a slot; in every other state the refill changes
  nothing.
\<close>

theorem read_refill_encoding:
  assumes "0 < FDS_MAX_SIDE_SIZE K" and "read_cursor_ok s"
  shows "fds_dma_fill_read_buffer K h pos n s =
           (if fds_state s = FDS_READING \<or> fds_state s = FDS_READ_WAIT_READY
            then spec_refill K h pos n s else s)"
  using fill_slots_spec[OF assms, of h pos n]
  by (cases "fds_state s") (simp_all add: fds_dma_fill_read_buffer_def)

text \<open>A drive that reads the last byte of the buffer: its next slot is the last one
  of that byte.\<close>

definition rewinding_drive :: fds where
  "rewinding_drive =
     sample_drive\<lparr>fds_state := FDS_READING, fds_current_byte := 81919, fds_current_bit := 15\<rparr>"

theorem read_refill_encoding_witness:
  "0 < FDS_MAX_SIDE_SIZE sample_consts \<and> read_cursor_ok rewinding_drive \<and>
   fds_dma_fill_read_buffer sample_consts sample_host 0 2 rewinding_drive
     = spec_refill sample_consts sample_host 0 2 rewinding_drive \<and>
   fds_dma_fill_read_buffer sample_consts sample_host 0 2 sample_drive = sample_drive"
proof -
  have h1: "0 < FDS_MAX_SIDE_SIZE sample_consts" by (simp add: sample_consts_def)
  have h2: "read_cursor_ok rewinding_drive" "read_cursor_ok sample_drive"
    by (simp_all add: read_cursor_ok_def rewinding_drive_def sample_drive_def)
  have c1: "fds_dma_fill_read_buffer sample_consts sample_host 0 2 rewinding_drive
     = spec_refill sample_consts sample_host 0 2 rewinding_drive"
    using read_refill_encoding[OF h1 h2(1), of sample_host 0 2]
    by (simp add: rewinding_drive_def)
  have c2: "fds_dma_fill_read_buffer sample_consts sample_host 0 2 sample_drive = sample_drive"
    using read_refill_encoding[OF h1 h2(2), of sample_host 0 2]
    by (simp add: sample_drive_def)
  from h1 h2(1) c1 c2 show ?thesis by blast
qed

lemma read_phase_state:
  "fds_state (read_phase K h pos s) = fds_state s \<or>
   fds_state (read_phase K h pos s) = FDS_READ_WAIT_READY_TIMER"
  by (simp add: read_phase_def Let_def pause_before_ready_def fds_reset_reading_def)

lemma fill_slots_timer:
  "fds_state s = FDS_READ_WAIT_READY_TIMER \<Longrightarrow>
   fds_state (fill_slots K h pos n s) = FDS_READ_WAIT_READY_TIMER"
proof (induction n arbitrary: pos s)
  case 0
  then show ?case by simp
next
  case (Suc n)
  from read_phase_state[of K h pos s] Suc.prems
  have "fds_state (read_phase K h pos s) = FDS_READ_WAIT_READY_TIMER" by auto
  then show ?case using Suc.IH by simp
qed

text \<open>
  Claim C8, as amended. At the slot where the read cursor leaves a byte
  (\<^verbatim>\<open>current_bit\<close> is 15) and the next byte is byte 0, or in turbo mode lies beyond
  \<^verbatim>\<open>used_space + NOT_READY_BYTES\<close>, the engine sets the ready line high (not ready),
  records the tick, moves to \<^verbatim>\<open>FDS_READ_WAIT_READY_TIMER\<close> and clears the clock, the
  last value and \<^verbatim>\<open>current_bit\<close>, in turbo mode also \<^verbatim>\<open>current_byte\<close>. The slots
  that remain in the same refill are still produced; the state stays
  \<^verbatim>\<open>FDS_READ_WAIT_READY_TIMER\<close>, and every later refill changes nothing.
\<close>

theorem rewind_transition:
  assumes "0 < FDS_MAX_SIDE_SIZE K" and "read_cursor_ok s" and "fds_current_bit s = 15"
    and "(fds_current_byte s + 1) mod FDS_MAX_SIDE_SIZE K = 0 \<or>
         (rewind_speed h = REWIND_SPEED_TURBO \<and>
          (fds_current_byte s + 1) mod FDS_MAX_SIDE_SIZE K
            > fds_used_space s + FDS_NOT_READY_BYTES K)"
  shows "FDS_READY_Pin (read_phase K h pos s) = GPIO_PIN_SET \<and>
         fds_not_ready_time (read_phase K h pos s) = HAL_GetTick h \<and>
         fds_state (read_phase K h pos s) = FDS_READ_WAIT_READY_TIMER \<and>
         fds_clock (read_phase K h pos s) = 0 \<and>
         fds_last_value (read_phase K h pos s) = 0 \<and>
         fds_current_bit (read_phase K h pos s) = 0 \<and>
         fds_current_byte (read_phase K h pos s)
           = (if rewind_speed h = REWIND_SPEED_TURBO then 0
              else (fds_current_byte s + 1) mod FDS_MAX_SIDE_SIZE K) \<and>
         fill_slots K h pos (Suc n) s = fill_slots K h (pos + 1) n (read_phase K h pos s) \<and>
         fds_state (fill_slots K h pos (Suc n) s) = FDS_READ_WAIT_READY_TIMER \<and>
         fds_dma_fill_read_buffer K h pos' m (fill_slots K h pos (Suc n) s)
           = fill_slots K h pos (Suc n) s"
proof -
  have eq: "read_phase K h pos s =
        spec_rewind h (s\<lparr>fds_clock := (if fds_clock s = 0 then 1 else 0),
          fds_read_buffer := (fds_read_buffer s)
            (pos := (if (drop_bit (unat (fds_current_bit s) div 2)
                           (fds_raw_data s (fds_current_byte s)) AND 1)
                         XOR (if fds_clock s = 0 then 1 else 0) = 1 \<and> fds_last_value s = 0
                     then word_of_int (FDS_READ_IMPULSE_LENGTH K - 1) else 0)),
          fds_last_value := (drop_bit (unat (fds_current_bit s) div 2)
                               (fds_raw_data s (fds_current_byte s)) AND 1)
                            XOR (if fds_clock s = 0 then 1 else 0),
          fds_current_bit := 0,
          fds_current_byte := (fds_current_byte s + 1) mod FDS_MAX_SIDE_SIZE K\<rparr>)"
    using assms(3,4)
    by (simp add: read_phase_spec[OF assms(1,2)] spec_read_slot_def Let_def)
  have st: "fds_state (read_phase K h pos s) = FDS_READ_WAIT_READY_TIMER"
    by (simp add: eq spec_rewind_def)
  have st': "fds_state (fill_slots K h pos (Suc n) s) = FDS_READ_WAIT_READY_TIMER"
    using fill_slots_timer[OF st] by simp
  have noop: "fds_dma_fill_read_buffer K h pos' m (fill_slots K h pos (Suc n) s)
           = fill_slots K h pos (Suc n) s"
    using st' by (simp add: fds_dma_fill_read_buffer_def)
  show ?thesis
    using st' noop by (simp add: eq spec_rewind_def)
qed

theorem rewind_transition_witness:
  "0 < FDS_MAX_SIDE_SIZE sample_consts \<and> read_cursor_ok rewinding_drive \<and>
   fds_current_bit rewinding_drive = 15 \<and>
   (fds_current_byte rewinding_drive + 1) mod FDS_MAX_SIDE_SIZE sample_consts = 0 \<and>
   fds_state (read_phase sample_consts sample_host 0 rewinding_drive)
     = FDS_READ_WAIT_READY_TIMER \<and>
   fds_clock (read_phase sample_consts sample_host 0 rewinding_drive) = 0 \<and>
   fds_state (fill_slots sample_consts sample_host 0 (Suc 1) rewinding_drive)
     = FDS_READ_WAIT_READY_TIMER"
proof -
  have h1: "0 < FDS_MAX_SIDE_SIZE sample_consts" by (simp add: sample_consts_def)
  have h2: "read_cursor_ok rewinding_drive"
    by (simp add: read_cursor_ok_def rewinding_drive_def sample_drive_def)
  have h3: "fds_current_bit rewinding_drive = 15" by (simp add: rewinding_drive_def)
  have h4: "(fds_current_byte rewinding_drive + 1) mod FDS_MAX_SIDE_SIZE sample_consts = 0"
    by (simp add: rewinding_drive_def sample_consts_def)
  from rewind_transition[OF h1 h2 h3 disjI1[OF h4], of sample_host 0 1 0 0]
  have c: "fds_state (read_phase sample_consts sample_host 0 rewinding_drive)
             = FDS_READ_WAIT_READY_TIMER \<and>
           fds_clock (read_phase sample_consts sample_host 0 rewinding_drive) = 0 \<and>
           fds_state (fill_slots sample_consts sample_host 0 (Suc 1) rewinding_drive)
             = FDS_READ_WAIT_READY_TIMER" by blast
  from h1 h2 h3 h4 c show ?thesis by blast
qed

lemma fill_slots_two:
  "fill_slots K h pos 2 s = read_phase K h (pos + 1) (read_phase K h pos s)"
  by (simp add: numeral_2_eq_2)

text \<open>
  Claim C8 as stated fails: the cursor wraps at slot 0 of a refill of two slots, and
  slot 1 is still produced. After the refill the state is \<^verbatim>\<open>FDS_READ_WAIT_READY_TIMER\<close>,
  but the clock, the last value and \<^verbatim>\<open>current_bit\<close> are 1, not cleared, and slot 1 holds
  an impulse read from byte 0.
\<close>

theorem rewind_keeps_streaming_counterexample:
  "fds_state (fds_dma_fill_read_buffer sample_consts sample_host 0 2 rewinding_drive)
     = FDS_READ_WAIT_READY_TIMER \<and>
   fds_clock (fds_dma_fill_read_buffer sample_consts sample_host 0 2 rewinding_drive) = 1 \<and>
   fds_last_value (fds_dma_fill_read_buffer sample_consts sample_host 0 2 rewinding_drive) = 1 \<and>
   fds_current_bit (fds_dma_fill_read_buffer sample_consts sample_host 0 2 rewinding_drive) = 1 \<and>
   fds_read_buffer (fds_dma_fill_read_buffer sample_consts sample_host 0 2 rewinding_drive) 1 = 31"
  by (simp add: fds_dma_fill_read_buffer_def rewinding_drive_def sample_drive_def
        sample_consts_def sample_host_def fill_slots_two read_phase_def Let_def c_rem_def
        rewinded_def pause_before_ready_def fds_reset_reading_def)

section \<open>The block index after a write reset\<close>

text \<open>The invariant of the block index: the first block starts at 0, every next
  block where the one before it ends, and the used space fits the buffer.\<close>

definition block_index_ok :: "fds_consts \<Rightarrow> fds \<Rightarrow> bool" where
  "block_index_ok K s \<longleftrightarrow>
     (0 < fds_block_count s \<longrightarrow> fds_block_offsets s 0 = 0) \<and>
     (\<forall>i. 0 \<le> i \<and> i + 1 < fds_block_count s \<longrightarrow>
        fds_block_offsets s (i + 1)
          = fds_block_offsets s i + fds_get_block_size K s i True True) \<and>
     fds_used_space s \<le> FDS_MAX_SIDE_SIZE K"

lemma fds_get_block_size_append:
  "i \<le> n \<Longrightarrow>
   fds_get_block_size K (s\<lparr>fds_block_offsets := (fds_block_offsets s)(n := v),
                              fds_block_count := c\<rparr>) i g c'
     = fds_get_block_size K s i g c'"
  by (simp add: fds_get_block_size_def)

lemma find_current_block_append:
  assumes "k \<le> fds_block_count s"
    and "\<forall>i. k \<le> i \<and> i < fds_block_count s \<longrightarrow>
           fds_block_offsets s i + fds_get_block_size K s i True True \<le> fds_current_byte s"
  shows "find_current_block K s k =
           (s\<lparr>fds_block_offsets := (fds_block_offsets s)
                 (fds_block_count s :=
                    (if fds_block_count s = 0 then 0
                     else fds_block_offsets s (fds_block_count s - 1)
                          + fds_get_block_size K s (fds_block_count s - 1) True True)),
               fds_block_count := fds_block_count s + 1\<rparr>,
            fds_block_count s)"
  using assms
proof (induction "nat (fds_block_count s - k)" arbitrary: k)
  case 0
  then have "k = fds_block_count s" by simp
  then show ?case by (subst find_current_block.simps) simp
next
  case (Suc m)
  then have lt: "k < fds_block_count s" by linarith
  from Suc.hyps(2) lt have m: "m = nat (fds_block_count s - (k + 1))" by linarith
  from Suc.prems(2) lt
  have "\<not> fds_current_byte s < fds_block_offsets s k + fds_get_block_size K s k True True"
    by (simp add: not_less)
  moreover have "find_current_block K s (k + 1) =
           (s\<lparr>fds_block_offsets := (fds_block_offsets s)
                 (fds_block_count s :=
                    (if fds_block_count s = 0 then 0
                     else fds_block_offsets s (fds_block_count s - 1)
                          + fds_get_block_size K s (fds_block_count s - 1) True True)),
               fds_block_count := fds_block_count s + 1\<rparr>,
            fds_block_count s)"
    using Suc.hyps(1)[OF m] lt Suc.prems(2) by simp
  ultimately show ?case using lt by (subst find_current_block.simps) simp
qed

lemma write_gap_index:
  "fds_used_space (write_gap g s) = fds_used_space s \<and>
   fds_block_count (write_gap g s) = fds_block_count s"
  by (simp add: write_gap_def split: prod.splits)

text \<open>
  Claim C3 on the code. The head stands behind the last block of an image and the
  block to append does not fit the buffer. \<^verbatim>\<open>fds_reset_writing\<close> appends the block,
  computes \<^verbatim>\<open>fds_used_space\<close> with it, finds it larger than \<^verbatim>\<open>FDS_MAX_SIDE_SIZE\<close>, takes
  \<^verbatim>\<open>fds_block_count\<close> back and stops the drive, but leaves \<^verbatim>\<open>fds_used_space\<close> as
  computed: after the reset the used space exceeds the buffer.
\<close>

theorem reset_writing_keeps_overflowing_used_space:
  assumes "0 < fds_block_count s"
    and "\<forall>i. 0 \<le> i \<and> i < fds_block_count s \<longrightarrow>
           fds_block_offsets s i + fds_get_block_size K s i True True \<le> fds_current_byte s"
    and "fds_block_offsets s (fds_block_count s - 1)
         + fds_get_block_size K s (fds_block_count s - 1) True True
         + fds_get_block_size K s (fds_block_count s) True True > FDS_MAX_SIDE_SIZE K"
  shows "fds_used_space (fds_reset_writing K s) > FDS_MAX_SIDE_SIZE K \<and>
         fds_block_count (fds_reset_writing K s) = fds_block_count s"
proof -
  let ?n = "fds_block_count s"
  let ?s1 = "s\<lparr>fds_block_offsets := (fds_block_offsets s)
                 (?n := (if ?n = 0 then 0
                         else fds_block_offsets s (?n - 1)
                              + fds_get_block_size K s (?n - 1) True True)),
               fds_block_count := ?n + 1\<rparr>"
  have f: "find_current_block K s 0 = (?s1, ?n)"
    using assms(1,2) by (intro find_current_block_append) auto
  have sz: "fds_get_block_size K ?s1 ?n True True = fds_get_block_size K s ?n True True"
    by (rule fds_get_block_size_append) simp
  have used: "fds_block_offsets ?s1 (fds_block_count ?s1 - 1)
              + fds_get_block_size K ?s1 (fds_block_count ?s1 - 1) True True
              > FDS_MAX_SIDE_SIZE K"
    using assms(1,3) sz by simp
  show ?thesis
    unfolding fds_reset_writing_def f Let_def prod.case
    using used assms(1)
    by (simp add: fds_stop_def fds_stop_reading_def fds_stop_writing_def write_gap_index
             del: fun_upd_apply)
qed

text \<open>The failing input: six blocks, two of them files of 38800 bytes, use 81851 of
  the 81920 bytes of the buffer; the index is in order; the head stands at byte 81900
  and the console starts to write.\<close>

definition nearly_full_drive :: fds where
  "nearly_full_drive =
     sample_drive
       \<lparr>fds_raw_data := (\<lambda>a. 0)(3856 := 144, 3857 := 151, 42921 := 144, 42922 := 151),
        fds_used_space := 81851,
        fds_block_count := 6,
        fds_block_offsets := (\<lambda>i. 0)(1 := 3595, 2 := 3721, 3 := 3861, 4 := 42786, 5 := 42926),
        fds_current_byte := 81900\<rparr>"

lemma below_six: "0 \<le> i \<Longrightarrow> i < 6 \<Longrightarrow> (i::int) \<in> {0, 1, 2, 3, 4, 5}"
  by auto

lemma nearly_full_sizes:
  "fds_get_block_size sample_consts nearly_full_drive 0 True True = 3595"
  "fds_get_block_size sample_consts nearly_full_drive 1 True True = 126"
  "fds_get_block_size sample_consts nearly_full_drive 2 True True = 140"
  "fds_get_block_size sample_consts nearly_full_drive 3 True True = 38925"
  "fds_get_block_size sample_consts nearly_full_drive 4 True True = 140"
  "fds_get_block_size sample_consts nearly_full_drive 5 True True = 38925"
  "fds_get_block_size sample_consts nearly_full_drive 6 True True = 140"
  by (simp_all add: fds_get_block_size_def nearly_full_drive_def sample_drive_def
        sample_consts_def first_gap_def next_gap_def le16_def)

theorem reset_writing_keeps_overflowing_used_space_witness:
  "block_index_ok sample_consts nearly_full_drive \<and>
   fds_used_space nearly_full_drive
     = fds_block_offsets nearly_full_drive 5
       + fds_get_block_size sample_consts nearly_full_drive 5 True True \<and>
   fds_used_space (fds_reset_writing sample_consts nearly_full_drive)
     > FDS_MAX_SIDE_SIZE sample_consts \<and>
   fds_block_count (fds_reset_writing sample_consts nearly_full_drive) = 6"
proof -
  have n: "fds_block_count nearly_full_drive = 6" by (simp add: nearly_full_drive_def)
  have ok: "block_index_ok sample_consts nearly_full_drive"
    unfolding block_index_ok_def n
  proof (intro conjI allI impI)
    fix i :: int
    assume "0 \<le> i \<and> i + 1 < 6"
    then have "i \<in> {0, 1, 2, 3, 4}" by auto
    then show "fds_block_offsets nearly_full_drive (i + 1)
      = fds_block_offsets nearly_full_drive i
        + fds_get_block_size sample_consts nearly_full_drive i True True"
      by (auto simp: nearly_full_sizes) (simp_all add: nearly_full_drive_def)
  qed (simp_all add: nearly_full_drive_def sample_drive_def sample_consts_def)
  have u: "fds_used_space nearly_full_drive
     = fds_block_offsets nearly_full_drive 5
       + fds_get_block_size sample_consts nearly_full_drive 5 True True"
    by (simp add: nearly_full_sizes) (simp add: nearly_full_drive_def)
  have h1: "0 < fds_block_count nearly_full_drive" by (simp add: n)
  have h2: "\<forall>i. 0 \<le> i \<and> i < fds_block_count nearly_full_drive \<longrightarrow>
           fds_block_offsets nearly_full_drive i
           + fds_get_block_size sample_consts nearly_full_drive i True True
           \<le> fds_current_byte nearly_full_drive"
    unfolding n
  proof (intro allI impI)
    fix i :: int
    assume "0 \<le> i \<and> i < 6"
    then have "i \<in> {0, 1, 2, 3, 4, 5}" by auto
    then show "fds_block_offsets nearly_full_drive i
           + fds_get_block_size sample_consts nearly_full_drive i True True
           \<le> fds_current_byte nearly_full_drive"
      by (auto simp: nearly_full_sizes) (simp_all add: nearly_full_drive_def)
  qed
  have h3: "fds_block_offsets nearly_full_drive (fds_block_count nearly_full_drive - 1)
         + fds_get_block_size sample_consts nearly_full_drive
             (fds_block_count nearly_full_drive - 1) True True
         + fds_get_block_size sample_consts nearly_full_drive
             (fds_block_count nearly_full_drive) True True
         > FDS_MAX_SIDE_SIZE sample_consts"
    unfolding n by (simp add: nearly_full_sizes) (simp add: nearly_full_drive_def sample_consts_def)
  from reset_writing_keeps_overflowing_used_space[OF h1 h2 h3]
  have c: "fds_used_space (fds_reset_writing sample_consts nearly_full_drive)
             > FDS_MAX_SIDE_SIZE sample_consts \<and>
           fds_block_count (fds_reset_writing sample_consts nearly_full_drive) = 6"
    by (simp add: n)
  from ok u c show ?thesis by blast
qed

section \<open>What a save writes\<close>

text \<open>The bytes of the blocks from \<open>i\<close> on, in order: each payload, of
  \<^verbatim>\<open>fds_get_block_size(i, 0, 0)\<close> bytes, and nothing else.\<close>

function side_bytes :: "fds_consts \<Rightarrow> fds \<Rightarrow> int \<Rightarrow> u8 list" where
  "side_bytes K s i =
     (if i < fds_block_count s then block_payload K s i @ side_bytes K s (i + 1) else [])"
  by pat_completeness auto
termination
  by (relation "measure (\<lambda>(K, s, i). nat (fds_block_count s - i))") auto

declare side_bytes.simps [simp del]

lemma length_load_bytes [simp]: "length (load_bytes raw p n) = nat n"
  by (simp add: load_bytes_def)

lemma length_block_payload:
  "int (length (block_payload K s i)) = fds_get_block_size K s i False False"
  by (simp add: block_payload_def fds_get_block_size_nonneg)

lemma next_fault_files:
  "next_fault fs = (f, fs1) \<Longrightarrow>
   files fs1 = files fs \<and> room fs1 = room fs \<and> filler fs1 = filler fs \<and> dirs fs1 = dirs fs"
  by (auto simp: next_fault_def split: list.splits)

lemma next_fault_content: "next_fault fs = (f, fs1) \<Longrightarrow> content fs1 = content fs"
  by (rule ext) (auto simp: content_def dest: next_fault_files)

text \<open>A complete \<^verbatim>\<open>f_write\<close> replaces the bytes under the file pointer and moves it.\<close>

lemma f_write_complete:
  assumes "f_write fs fp bytes = (FR_OK, bw, fp1, fs1)" and "bw = length bytes"
    and "fptr fp \<le> length (content fs (fname fp))"
  shows "content fs1 (fname fp)
           = take (fptr fp) (content fs (fname fp)) @ bytes
             @ drop (fptr fp + length bytes) (content fs (fname fp)) \<and>
         fptr fp1 = fptr fp + length bytes \<and> fname fp1 = fname fp \<and>
         fptr fp1 \<le> length (content fs1 (fname fp))"
proof (cases "next_fault fs")
  case (Pair f fs0)
  have c: "content fs0 = content fs" by (rule next_fault_content[OF Pair])
  let ?c = "content fs (fname fp)"
  let ?bw = "min (length bytes) (length ?c - fptr fp + room fs0)"
  from assms Pair have nf: "\<not> f" by (auto simp: f_write_def Let_def split: if_splits)
  with assms(1) Pair have "fp1 = fp\<lparr>fptr := fptr fp + bw\<rparr>"
    and "fs1 = fs0\<lparr>files := (files fs0)
              (fname fp \<mapsto> take (fptr fp) ?c @ take bw bytes @ drop (fptr fp + bw) ?c),
            room := room fs0 - (bw - (length ?c - fptr fp))\<rparr>"
    by (auto simp: f_write_def Let_def c)
  then show ?thesis using assms(2,3) by (simp add: content_def)
qed

lemma overwrite_twice:
  assumes "p \<le> length c"
  shows "take (p + length b) (take p c @ b @ drop (p + length b) c) @ r
           @ drop (p + length b + length r) (take p c @ b @ drop (p + length b) c)
         = take p c @ (b @ r) @ drop (p + length (b @ r)) c"
proof -
  have t: "take (p + length b) (take p c @ b @ drop (p + length b) c) = take p c @ b"
    using assms by simp
  have d: "drop (p + length b + length r) (take p c @ b @ drop (p + length b) c)
           = drop (p + length b + length r) c"
    using assms by (simp add: add.commute add.left_commute)
  show ?thesis unfolding t d by (simp add: add.assoc)
qed

lemma save_blocks_content:
  assumes "save_blocks K s fs fp i = (FR_OK, fp', fs')"
    and "fptr fp \<le> length (content fs (fname fp))"
  shows "content fs' (fname fp)
           = take (fptr fp) (content fs (fname fp)) @ side_bytes K s i
             @ drop (fptr fp + length (side_bytes K s i)) (content fs (fname fp)) \<and>
         fptr fp' = fptr fp + length (side_bytes K s i) \<and> fname fp' = fname fp"
  using assms
proof (induction "nat (fds_block_count s - i)" arbitrary: i fs fp)
  case 0
  then have False: "\<not> i < fds_block_count s" by simp
  then have sb0: "side_bytes K s i = []" by (subst side_bytes.simps) simp
  from False have "save_blocks K s fs fp i = (FR_OK, fp, fs)"
    by (subst save_blocks.simps) simp
  with "0.prems"(1) have "fp' = fp" "fs' = fs" by simp_all
  then show ?case by (simp add: sb0)
next
  case (Suc m)
  then have True: "i < fds_block_count s" by linarith
  from Suc.hyps(2) have m: "m = nat (fds_block_count s - (i + 1))" by linarith
  let ?c = "content fs (fname fp)"
  let ?b = "block_payload K s i"
  obtain fr bw fp1 fs1 where w: "f_write fs fp ?b = (fr, bw, fp1, fs1)"
    by (cases "f_write fs fp ?b") auto
  have unf: "save_blocks K s fs fp i =
               (if fr \<noteq> FR_OK then (fr, fp1, fs1)
                else if int bw \<noteq> fds_get_block_size K s i False False then (FR_DISK_ERR, fp1, fs1)
                else save_blocks K s fs1 fp1 (i + 1))"
    using True w by (subst save_blocks.simps) (simp add: block_payload_def)
  from Suc.prems(1) unf
  have ok: "fr = FR_OK" and full: "int bw = fds_get_block_size K s i False False"
    and rest: "save_blocks K s fs1 fp1 (i + 1) = (FR_OK, fp', fs')"
    by (auto split: if_splits)
  from full have bw: "bw = length ?b" using length_block_payload[of K s i] by simp
  from f_write_complete[OF w[unfolded ok] bw Suc.prems(2)]
  have c1: "content fs1 (fname fp) = take (fptr fp) ?c @ ?b @ drop (fptr fp + length ?b) ?c"
    and p1: "fptr fp1 = fptr fp + length ?b" and n1: "fname fp1 = fname fp"
    and b1: "fptr fp1 \<le> length (content fs1 (fname fp))" by auto
  have IH: "content fs' (fname fp1)
         = take (fptr fp1) (content fs1 (fname fp1)) @ side_bytes K s (i + 1)
           @ drop (fptr fp1 + length (side_bytes K s (i + 1))) (content fs1 (fname fp1)) \<and>
       fptr fp' = fptr fp1 + length (side_bytes K s (i + 1)) \<and> fname fp' = fname fp1"
    using Suc.hyps(1)[OF m rest] b1 n1 by simp
  have sb: "side_bytes K s i = ?b @ side_bytes K s (i + 1)"
    using True by (subst side_bytes.simps) simp
  have len: "fptr fp \<le> length ?c" by (rule Suc.prems(2))
  from IH have "content fs' (fname fp)
         = take (fptr fp + length ?b) (take (fptr fp) ?c @ ?b @ drop (fptr fp + length ?b) ?c)
           @ side_bytes K s (i + 1)
           @ drop (fptr fp + length ?b + length (side_bytes K s (i + 1)))
               (take (fptr fp) ?c @ ?b @ drop (fptr fp + length ?b) ?c)"
    by (simp only: n1 p1 c1)
  then have "content fs' (fname fp)
         = take (fptr fp) ?c @ side_bytes K s i @ drop (fptr fp + length (side_bytes K s i)) ?c"
    by (simp only: overwrite_twice[OF len] sb)
  moreover from IH have "fptr fp' = fptr fp + length (side_bytes K s i)"
    by (simp add: p1 sb)
  moreover from IH have "fname fp' = fname fp" by (simp add: n1)
  ultimately show ?case by blast
qed

text \<open>The storage calls that \<^verbatim>\<open>fds_save\<close> and \<^verbatim>\<open>fds_load_side\<close> make around the
  block loops, when they succeed.\<close>

lemma f_open_ok:
  assumes "f_open fs name mode = (FR_OK, fp, fs1)" and "mode \<noteq> FA_CREATE_NEW_WRITE"
  shows "fp = \<lparr>fname = name, fptr = 0, fmode = mode\<rparr> \<and> files fs name \<noteq> None \<and>
         files fs1 = files fs \<and> room fs1 = room fs \<and> filler fs1 = filler fs"
proof (cases "next_fault fs")
  case (Pair f fs0)
  from assms Pair next_fault_files[OF Pair] show ?thesis
    by (auto simp: f_open_def Let_def split: if_splits)
qed

lemma f_stat_ok:
  assumes "f_stat fs name = (FR_OK, sz, fs1)"
  shows "sz = length (content fs name) \<and>
         files fs1 = files fs \<and> room fs1 = room fs \<and> filler fs1 = filler fs"
proof (cases "next_fault fs")
  case (Pair f fs0)
  from assms Pair next_fault_files[OF Pair] next_fault_content[OF Pair] show ?thesis
    by (auto simp: f_stat_def split: if_splits)
qed

lemma f_close_files: "f_close fs fp = (r, fs1) \<Longrightarrow> files fs1 = files fs"
  by (cases "next_fault fs") (auto simp: f_close_def dest: next_fault_files)

lemma content_cong: "files fs1 = files fs \<Longrightarrow> content fs1 name = content fs name"
  by (simp add: content_def)

text \<open>The file pointer and the bytes of the file \<open>name\<close> after a seek to the start of
  side \<open>side\<close>, in a file opened for writing.\<close>

definition after_seek :: "storage \<Rightarrow> string \<Rightarrow> u8 \<Rightarrow> nat \<times> u8 list" where
  "after_seek fs name side =
     (let c0 = content fs name;
          target = nat (int (length c0) mod FDS_ROM_SIDE_SIZE + uint side * FDS_ROM_SIDE_SIZE)
      in if target \<le> length c0 then (target, c0)
         else (length c0 + min (target - length c0) (room fs),
               c0 @ replicate (min (target - length c0) (room fs)) (filler fs)))"

lemma f_lseek_write_ok:
  assumes "f_lseek fs fp ofs = (FR_OK, fp1, fs1)" and "fmode fp = FA_WRITE"
  shows "fname fp1 = fname fp \<and>
         (fptr fp1, content fs1 (fname fp)) =
           (if ofs \<le> length (content fs (fname fp)) then (ofs, content fs (fname fp))
            else (length (content fs (fname fp))
                    + min (ofs - length (content fs (fname fp))) (room fs),
                  content fs (fname fp)
                    @ replicate (min (ofs - length (content fs (fname fp))) (room fs)) (filler fs)))
         \<and> fptr fp1 \<le> length (content fs1 (fname fp))"
proof (cases "next_fault fs")
  case (Pair f fs0)
  have c: "content fs0 = content fs" by (rule next_fault_content[OF Pair])
  have r: "room fs0 = room fs" "filler fs0 = filler fs"
    using next_fault_files[OF Pair] by simp_all
  let ?c = "content fs (fname fp)"
  let ?g = "min (ofs - length ?c) (room fs)"
  from assms Pair have nf: "\<not> f" by (auto simp: f_lseek_def Let_def split: if_splits)
  show ?thesis
  proof (cases "ofs \<le> length ?c")
    case True
    with assms Pair nf have "fp1 = fp\<lparr>fptr := ofs\<rparr>" "fs1 = fs0"
      by (simp_all add: f_lseek_def Let_def c)
    then show ?thesis using True by (simp add: c)
  next
    case False
    with assms Pair nf have "fp1 = fp\<lparr>fptr := length ?c + ?g\<rparr>"
      "fs1 = fs0\<lparr>files := (files fs0)(fname fp \<mapsto> ?c @ replicate ?g (filler fs)),
                 room := room fs0 - ?g\<rparr>"
      by (simp_all add: f_lseek_def Let_def c r)
    then show ?thesis using False by (simp add: content_def)
  qed
qed

definition dest_name :: "host \<Rightarrow> string \<Rightarrow> fds \<Rightarrow> string" where
  "dest_name h alt s = (if backup_original h \<noteq> SAVES_EVERDRIVE then fds_filename s else alt)"

lemma write_image_content:
  assumes "write_image K h fs alt s = (FR_OK, fs', s')"
  shows "files fs (dest_name h alt s) \<noteq> None \<and>
         content fs' (dest_name h alt s)
           = take (fst (after_seek fs (dest_name h alt s) (fds_side s)))
               (snd (after_seek fs (dest_name h alt s) (fds_side s)))
             @ side_bytes K s 0
             @ drop (fst (after_seek fs (dest_name h alt s) (fds_side s))
                     + length (side_bytes K s 0))
                 (snd (after_seek fs (dest_name h alt s) (fds_side s)))"
proof -
  let ?d = "dest_name h alt s"
  obtain fr1 fp fs1 where o: "f_open fs ?d FA_WRITE = (fr1, fp, fs1)"
    by (cases "f_open fs ?d FA_WRITE") auto
  obtain fr2 fsize fs2 where st: "f_stat fs1 ?d = (fr2, fsize, fs2)"
    by (cases "f_stat fs1 ?d") auto
  let ?t = "nat (int fsize mod FDS_ROM_SIDE_SIZE + uint (fds_side s) * FDS_ROM_SIDE_SIZE)"
  obtain fr3 fp3 fs3 where sk: "f_lseek fs2 fp ?t = (fr3, fp3, fs3)"
    by (cases "f_lseek fs2 fp ?t") auto
  obtain fr4 fp4 fs4 where sb: "save_blocks K s fs3 fp3 0 = (fr4, fp4, fs4)"
    by (cases "save_blocks K s fs3 fp3 0") auto
  obtain fr5 fs5 where cl: "f_close fs4 fp4 = (fr5, fs5)"
    by (cases "f_close fs4 fp4") auto
  from assms o st sk sb cl
  have ok: "fr1 = FR_OK" "fr2 = FR_OK" "fr3 = FR_OK" "fr4 = FR_OK" "fr5 = FR_OK" and e: "fs' = fs5"
    unfolding write_image_def Let_def dest_name_def
    by (auto split: if_splits)
  from f_open_ok[OF o[unfolded ok]]
  have fp: "fp = \<lparr>fname = ?d, fptr = 0, fmode = FA_WRITE\<rparr>" and ex: "files fs ?d \<noteq> None"
    and f1: "files fs1 = files fs" "room fs1 = room fs" "filler fs1 = filler fs" by auto
  from f_stat_ok[OF st[unfolded ok]]
  have sz: "fsize = length (content fs1 ?d)"
    and f2: "files fs2 = files fs1" "room fs2 = room fs1" "filler fs2 = filler fs1" by auto
  have c2: "content fs2 ?d = content fs ?d" "content fs1 ?d = content fs ?d"
    using f1 f2 by (simp_all add: content_def)
  have m: "fmode fp = FA_WRITE" "fname fp = ?d" by (simp_all add: fp)
  from f_lseek_write_ok[OF sk[unfolded ok] m(1)]
  have n3: "fname fp3 = ?d"
    and a3: "(fptr fp3, content fs3 ?d) = after_seek fs ?d (fds_side s)"
    and b3: "fptr fp3 \<le> length (content fs3 ?d)"
    by (simp_all add: m after_seek_def Let_def c2 sz f1 f2)
  from save_blocks_content[OF sb[unfolded ok]] b3 n3
  have "content fs4 ?d
           = take (fptr fp3) (content fs3 ?d) @ side_bytes K s 0
             @ drop (fptr fp3 + length (side_bytes K s 0)) (content fs3 ?d)" by simp
  moreover have "content fs' ?d = content fs4 ?d"
    using f_close_files[OF cl] e by (simp add: content_def)
  moreover have "fptr fp3 = fst (after_seek fs ?d (fds_side s))"
    "content fs3 ?d = snd (after_seek fs ?d (fds_side s))"
    using a3 by (metis fst_conv, metis snd_conv)
  ultimately show ?thesis using ex by simp
qed

lemma prepare_backup_in_place:
  "backup_original h = SAVES_IN_PLACE \<Longrightarrow> prepare_backup K h fs s = Some (FR_OK, fs, [])"
  by (simp add: prepare_backup_def)

text \<open>
  Claim C2, as amended. A successful save of a dirty image writes, for each block in
  order, exactly \<^verbatim>\<open>fds_get_block_size(i, 0, 0)\<close> bytes, the payload taken from the
  image buffer at \<^verbatim>\<open>fds_block_offsets[i]\<close> plus the gap, and no CRC: the destination
  file holds these bytes, one block after the other, from the file pointer that the seek
  to the side set, and its other bytes are those it had after the seek.
\<close>

theorem save_writes_payloads:
  assumes "fds_save K h fs s = Some (FR_OK, fs', s')" and "fds_changed s \<noteq> 0"
  shows "\<exists>fs1 alt.
           prepare_backup K h fs s = Some (FR_OK, fs1, alt) \<and>
           content fs' (dest_name h alt s)
             = take (fst (after_seek fs1 (dest_name h alt s) (fds_side s)))
                 (snd (after_seek fs1 (dest_name h alt s) (fds_side s)))
               @ side_bytes K s 0
               @ drop (fst (after_seek fs1 (dest_name h alt s) (fds_side s))
                       + length (side_bytes K s 0))
                   (snd (after_seek fs1 (dest_name h alt s) (fds_side s))) \<and>
           (\<forall>i. side_bytes K s i
                  = (if i < fds_block_count s then block_payload K s i @ side_bytes K s (i + 1)
                     else [])) \<and>
           (\<forall>i. block_payload K s i
                  = load_bytes (fds_raw_data s)
                      (fds_block_offsets s i + gap_length_of K i)
                      (fds_get_block_size K s i False False))"
proof -
  from assms obtain fs1 alt where p: "prepare_backup K h fs s = Some (FR_OK, fs1, alt)"
    and w: "write_image K h fs1 alt s = (FR_OK, fs', s')"
    unfolding fds_save_def
    by (auto split: if_splits option.splits bool.splits prod.splits)
  have a: "\<forall>i. side_bytes K s i
                  = (if i < fds_block_count s then block_payload K s i @ side_bytes K s (i + 1)
                     else [])"
    by (rule allI, subst side_bytes.simps) simp
  have b: "\<forall>i. block_payload K s i
                  = load_bytes (fds_raw_data s)
                      (fds_block_offsets s i + gap_length_of K i)
                      (fds_get_block_size K s i False False)"
    by (simp add: block_payload_def payload_addr_def gap_length_of_def first_gap_def next_gap_def)
  from write_image_content[OF w] p a b show ?thesis by blast
qed

text \<open>A drive with one block of zero bytes and its CRC, \<open>0xA7F9\<close>, behind it; a
  volume with the image file, 65500 bytes \<open>0xFF\<close>.\<close>

definition one_block_drive :: fds where
  "one_block_drive =
     sample_drive\<lparr>fds_raw_data := (\<lambda>a. 0)(3593 := 249, 3594 := 167),
                  fds_used_space := 3595, fds_block_count := 1, fds_changed := 1\<rparr>"

definition rom_volume :: storage where
  "rom_volume = sample_volume\<lparr>files := (\<lambda>name. None)(''game.fds'' \<mapsto> replicate 65500 255)\<rparr>"

lemma one_block_payload:
  "block_payload sample_consts one_block_drive 0 = replicate 56 0"
proof (rule nth_equalityI)
  show "length (block_payload sample_consts one_block_drive 0) = length (replicate 56 (0::u8))"
    by (simp add: block_payload_def fds_get_block_size_def)
next
  fix i assume "i < length (block_payload sample_consts one_block_drive 0)"
  then have i: "i < 56" by (simp add: block_payload_def fds_get_block_size_def)
  then show "block_payload sample_consts one_block_drive 0 ! i = replicate 56 0 ! i"
    by (simp add: block_payload_def fds_get_block_size_def load_bytes_def payload_addr_def
          one_block_drive_def sample_drive_def sample_consts_def)
qed

lemma one_block_crcs: "check_crcs sample_consts one_block_drive 0 = Some True"
proof -
  have n: "fds_block_count one_block_drive = 1" by (simp add: one_block_drive_def)
  have s: "stored_crc sample_consts one_block_drive 0 = 43001"
    by (simp add: stored_crc_def payload_addr_def fds_get_block_size_def one_block_drive_def
          sample_drive_def sample_consts_def le16_def)
  have c: "fds_crc (block_payload sample_consts one_block_drive 0) = Some 43001"
    by (simp add: one_block_payload fds_crc_spec spec_crc_blank)
  have "check_crcs sample_consts one_block_drive (0 + 1) = Some True"
    by (subst check_crcs_unfold) (simp add: n)
  then show ?thesis
    by (subst check_crcs_unfold) (simp add: n s c)
qed

lemma one_block_side_bytes: "side_bytes sample_consts one_block_drive 0 = replicate 56 0"
proof -
  have n: "fds_block_count one_block_drive = 1" by (simp add: one_block_drive_def)
  have "side_bytes sample_consts one_block_drive (0 + 1) = []"
    by (subst side_bytes.simps) (simp add: n)
  then show ?thesis
    by (subst side_bytes.simps) (simp add: n one_block_payload)
qed

lemma one_block_save_ok:
  "\<exists>fs' s'. fds_save sample_consts sample_host rom_volume one_block_drive = Some (FR_OK, fs', s')"
proof -
  have n: "fds_block_count one_block_drive = 1" by (simp add: one_block_drive_def)
  have b1: "save_blocks sample_consts one_block_drive fs fp 1 = (FR_OK, fp, fs)" for fs fp
    by (subst save_blocks.simps) (simp add: n)
  have b0: "save_blocks sample_consts one_block_drive fs fp 0 =
     (case f_write fs fp (replicate 56 0) of
        (fr, bw, fp1, fs1) \<Rightarrow>
          if fr \<noteq> FR_OK then (fr, fp1, fs1)
          else if int bw \<noteq> 56 then (FR_DISK_ERR, fp1, fs1)
          else (FR_OK, fp1, fs1))" for fs fp
    using one_block_payload
    by (subst save_blocks.simps)
       (simp add: n b1 block_payload_def fds_get_block_size_def split: prod.splits)
  have fn: "fds_filename one_block_drive = ''game.fds''" "fds_side one_block_drive = 0"
    by (simp_all add: one_block_drive_def sample_drive_def)
  have w: "fst (write_image sample_consts sample_host rom_volume [] one_block_drive) = FR_OK"
    by (simp add: write_image_def Let_def b0 fn f_open_def f_stat_def f_lseek_def f_write_def
          f_close_def next_fault_def content_def rom_volume_def sample_volume_def
          sample_host_def FDS_ROM_SIDE_SIZE_def)
  have "fds_save sample_consts sample_host rom_volume one_block_drive
        = Some (write_image sample_consts sample_host rom_volume [] one_block_drive)"
    by (simp add: fds_save_def one_block_crcs prepare_backup_in_place sample_host_def)
       (simp add: one_block_drive_def sample_drive_def)
  with w show ?thesis
    by (cases "write_image sample_consts sample_host rom_volume [] one_block_drive") auto
qed

lemma one_block_save_content:
  "\<exists>fs' s'. fds_save sample_consts sample_host rom_volume one_block_drive = Some (FR_OK, fs', s') \<and>
     content fs' ''game.fds'' = replicate 56 0 @ replicate 65444 255"
proof -
  from one_block_save_ok obtain fs' s' where
    ok: "fds_save sample_consts sample_host rom_volume one_block_drive = Some (FR_OK, fs', s')"
    by blast
  have "fds_save sample_consts sample_host rom_volume one_block_drive
        = Some (write_image sample_consts sample_host rom_volume [] one_block_drive)"
    by (simp add: fds_save_def one_block_crcs prepare_backup_in_place sample_host_def)
       (simp add: one_block_drive_def sample_drive_def)
  with ok have w: "write_image sample_consts sample_host rom_volume [] one_block_drive
                   = (FR_OK, fs', s')" by simp
  have d: "dest_name sample_host [] one_block_drive = ''game.fds''"
    by (simp add: dest_name_def sample_host_def one_block_drive_def sample_drive_def)
  have a: "after_seek rom_volume ''game.fds'' (fds_side one_block_drive)
           = (0, replicate 65500 255)"
    by (simp add: after_seek_def Let_def content_def rom_volume_def one_block_drive_def
          sample_drive_def FDS_ROM_SIDE_SIZE_def)
  from write_image_content[OF w]
  have "content fs' ''game.fds'' = replicate 56 0 @ replicate 65444 255"
    by (simp add: d a one_block_side_bytes)
  with ok show ?thesis by blast
qed

text \<open>
  Claim C2 as stated fails on this drive: the save succeeds, the block has a payload
  of 56 bytes and the CRC bytes \<open>0xF9\<close>, \<open>0xA7\<close> behind it in the buffer, and the file
  holds the 56 payload bytes followed by its old bytes \<open>0xFF\<close>, \<open>0xFF\<close>: 56 bytes were
  written, not 58, and the CRC was not.
\<close>

theorem save_writes_no_crc_counterexample:
  "\<exists>fs' s'. fds_save sample_consts sample_host rom_volume one_block_drive = Some (FR_OK, fs', s') \<and>
     fds_get_block_size sample_consts one_block_drive 0 False False = 56 \<and>
     fds_raw_data one_block_drive (payload_addr sample_consts one_block_drive 0 + 56) = 249 \<and>
     fds_raw_data one_block_drive (payload_addr sample_consts one_block_drive 0 + 57) = 167 \<and>
     take 58 (content fs' ''game.fds'') = replicate 56 0 @ replicate 2 255"
proof -
  from one_block_save_content obtain fs' s' where
    ok: "fds_save sample_consts sample_host rom_volume one_block_drive = Some (FR_OK, fs', s')"
    and c: "content fs' ''game.fds'' = replicate 56 0 @ replicate 65444 255"
    by blast
  have "take 58 (content fs' ''game.fds'') = replicate 56 0 @ replicate 2 255"
    by (simp add: c)
  moreover have "fds_get_block_size sample_consts one_block_drive 0 False False = 56"
    by (simp add: fds_get_block_size_def)
  moreover have
    "fds_raw_data one_block_drive (payload_addr sample_consts one_block_drive 0 + 56) = 249"
    "fds_raw_data one_block_drive (payload_addr sample_consts one_block_drive 0 + 57) = 167"
    by (simp_all add: payload_addr_def one_block_drive_def sample_drive_def sample_consts_def)
  ultimately show ?thesis using ok by blast
qed

section \<open>The turns of the block loop\<close>

text \<open>A gap that fits the buffer is written whole: the test inside the gap loop does
  not fire.\<close>

lemma gap_loop_fits:
  assumes "used + (gap_length - 1 - i) \<le> FDS_MAX_SIDE_SIZE K"
  shows "gap_loop K required gap_length i raw used =
           (False, (\<lambda>a. if used \<le> a \<and> a < used + (gap_length - 1 - i) then 0 else raw a),
            used + max 0 (gap_length - 1 - i))"
  using assms
proof (induction "nat (gap_length - 1 - i)" arbitrary: i raw used)
  case 0
  then have "\<not> i < gap_length - 1" by simp
  then show ?case by (subst gap_loop.simps) (auto simp: fun_eq_iff)
next
  case (Suc m)
  then have lt: "i < gap_length - 1" by linarith
  from Suc.hyps(2) have m: "m = nat (gap_length - 1 - (i + 1))" by linarith
  have fits: "used + 1 + (gap_length - 1 - (i + 1)) \<le> FDS_MAX_SIDE_SIZE K"
    using Suc.prems by simp
  have nofire: "\<not> used + 1 - 1 \<ge> FDS_MAX_SIDE_SIZE K" using Suc.prems lt by simp
  have "gap_loop K required gap_length i raw used
        = gap_loop K required gap_length (i + 1) (raw(used := 0)) (used + 1)"
    using lt nofire by (subst gap_loop.simps) (simp add: Let_def)
  also have "\<dots> = (False,
       (\<lambda>a. if used + 1 \<le> a \<and> a < used + 1 + (gap_length - 1 - (i + 1)) then 0
             else (raw(used := 0)) a),
       used + 1 + max 0 (gap_length - 1 - (i + 1)))"
    by (rule Suc.hyps(1)[OF m fits])
  also have "\<dots> = (False,
       (\<lambda>a. if used \<le> a \<and> a < used + (gap_length - 1 - i) then 0 else raw a),
       used + max 0 (gap_length - 1 - i))"
    using lt by (auto simp: fun_eq_iff)
  finally show ?case .
qed

text \<open>The start of a turn: \<^verbatim>\<open>min_blocks\<close> is computed when two blocks are loaded,
  and the offset of the new block is recorded.\<close>

definition block_head :: "fds_consts \<Rightarrow> loader \<Rightarrow> loader" where
  "block_head K L =
     L\<lparr>min_blocks :=
         (if fds_block_count (drive L) = 2
          then uint (fds_raw_data (drive L)
                       (fds_block_offsets (drive L) 1 + next_gap K + 1)) * 2 + 2
          else min_blocks L),
       drive := (drive L)\<lparr>fds_block_offsets :=
                  (fds_block_offsets (drive L))
                    (fds_block_count (drive L) := fds_used_space (drive L))\<rparr>\<rparr>"

text \<open>The guard of the five failure returns: \<^verbatim>\<open>fds_block_count + 1 < min_blocks\<close>.\<close>

definition block_required :: "loader \<Rightarrow> bool" where
  "block_required L \<longleftrightarrow> fds_block_count (drive L) + 1 < min_blocks L"

definition gap_overflows :: "fds_consts \<Rightarrow> loader \<Rightarrow> bool" where
  "gap_overflows K L \<longleftrightarrow>
     fds_used_space (drive L) + gap_length_of K (fds_block_count (drive L)) > FDS_MAX_SIDE_SIZE K"

text \<open>The loader with the gap of the new block written.\<close>

definition with_gap :: "fds_consts \<Rightarrow> loader \<Rightarrow> loader" where
  "with_gap K L =
     (let s = drive L; used = fds_used_space s; g = gap_length_of K (fds_block_count s)
      in L\<lparr>drive := s
           \<lparr>fds_raw_data :=
              (\<lambda>a. if used \<le> a \<and> a < used + (g - 1) then 0 else fds_raw_data s a)
                (used + max 0 (g - 1) := 0x80),
            fds_used_space := used + max 0 (g - 1) + 1\<rparr>\<rparr>)"

lemma load_block_unfold:
  "load_block K L =
     (if gap_overflows K (block_head K L) then
        Some (if block_required (block_head K L)
              then fail_load FDSR_ROM_TOO_LARGE (block_head K L) else Break (block_head K L))
      else read_block K (block_required (block_head K L))
             (gap_length_of K (fds_block_count (drive L))) (with_gap K (block_head K L)))"
proof (cases "gap_overflows K (block_head K L)")
  case True
  then show ?thesis
    by (simp add: load_block_def Let_def block_head_def gap_overflows_def gap_length_of_def
          block_required_def)
next
  case False
  let ?g = "gap_length_of K (fds_block_count (drive L))"
  from False have fits: "fds_used_space (drive L) + (?g - 1 - 0) \<le> FDS_MAX_SIDE_SIZE K"
    by (simp add: gap_overflows_def block_head_def)
  note gl = gap_loop_fits[OF fits]
  from False show ?thesis
    unfolding load_block_def Let_def
    by (simp add: gl[unfolded gap_length_of_def] block_head_def gap_overflows_def
          gap_length_of_def block_required_def with_gap_def Let_def cong: if_cong)
qed

text \<open>The loader when the payload of the new block is to be read, the size of that
  payload, the read of it, and the tag that the block must start with.\<close>

definition at_payload :: "fds_consts \<Rightarrow> loader \<Rightarrow> loader" where
  "at_payload K L = with_gap K (block_head K L)"

definition payload_size :: "fds_consts \<Rightarrow> loader \<Rightarrow> int" where
  "payload_size K L = fds_get_block_size K (drive L) (fds_block_count (drive L)) False False"

definition block_read :: "fds_consts \<Rightarrow> loader \<Rightarrow> FRESULT \<times> u8 list \<times> FIL \<times> storage" where
  "block_read K L = f_read (lfs L) (lfp L) (nat (payload_size K L))"

definition block_tag :: "int \<Rightarrow> u8" where
  "block_tag n = (if n = 0 then 1 else if n = 1 then 2 else if n mod 2 = 0 then 3 else 4)"

text \<open>Why a turn ends the loop: the gap, or the payload with its CRC, does not fit
  the buffer; the file ends before the payload does; the payload does not start with
  the tag of its kind.\<close>

definition overflow :: "fds_consts \<Rightarrow> loader \<Rightarrow> bool" where
  "overflow K L \<longleftrightarrow>
     gap_overflows K (block_head K L) \<or>
     fds_used_space (drive (at_payload K L)) + payload_size K (at_payload K L) + 2
       > FDS_MAX_SIDE_SIZE K"

definition premature_eof :: "fds_consts \<Rightarrow> loader \<Rightarrow> bool" where
  "premature_eof K L \<longleftrightarrow>
     \<not> overflow K L \<and>
     (case block_read K (at_payload K L) of
        (fr, bytes, fp1, fs1) \<Rightarrow>
          fr = FR_OK \<and> int (length bytes) \<noteq> payload_size K (at_payload K L))"

definition kind_mismatch :: "fds_consts \<Rightarrow> loader \<Rightarrow> bool" where
  "kind_mismatch K L \<longleftrightarrow>
     \<not> overflow K L \<and>
     (case block_read K (at_payload K L) of
        (fr, bytes, fp1, fs1) \<Rightarrow>
          fr = FR_OK \<and> int (length bytes) = payload_size K (at_payload K L) \<and>
          store_bytes (fds_raw_data (drive (at_payload K L)))
            (fds_used_space (drive (at_payload K L))) bytes
            (fds_used_space (drive (at_payload K L)))
          \<noteq> block_tag (fds_block_count (drive L)))"

lemma at_payload_count [simp]:
  "fds_block_count (drive (at_payload K L)) = fds_block_count (drive L)"
  by (simp add: at_payload_def with_gap_def block_head_def Let_def)

lemma load_loop_Return:
  "load_block K L = Some (Return r L') \<Longrightarrow> load_loop K L = Some (Failed r L')"
  by (subst load_loop.simps) simp

lemma load_loop_Break:
  "load_block K L = Some (Break L') \<Longrightarrow> load_loop K L = Some (Loaded L')"
  by (subst load_loop.simps) simp

lemma load_loop_Next:
  "load_block K L = Some (Next L') \<Longrightarrow> load_loop K L = load_loop K L'"
  by (subst load_loop.simps) simp

lemma load_from_Return:
  "load_block K L = Some (Return r L') \<Longrightarrow> load_from K h L = Some (r, lfs L', drive L')"
  by (simp add: load_from_def load_loop_Return finish_load_def)

lemma load_from_Break:
  "load_block K L = Some (Break L') \<Longrightarrow> \<exists>fs' s'. load_from K h L = Some (FR_OK, fs', s')"
  by (simp add: load_from_def load_loop_Break finish_load_def)

lemma load_block_at_payload:
  "\<not> gap_overflows K (block_head K L) \<Longrightarrow>
   load_block K L =
     read_block K (block_required (block_head K L))
       (gap_length_of K (fds_block_count (drive L))) (at_payload K L)"
  by (simp add: load_block_unfold at_payload_def)

lemma read_block_unfold:
  "read_block K required g P =
     (if fds_used_space (drive P) + payload_size K P + 2 > FDS_MAX_SIDE_SIZE K then
        Some (if required then fail_load FDSR_ROM_TOO_LARGE P
              else Break (P\<lparr>drive := rollback_gap g (drive P)\<rparr>))
      else
        (case block_read K P of (fr, bytes, fp1, fs1) \<Rightarrow>
         let s1 = (drive P)\<lparr>fds_raw_data :=
                     store_bytes (fds_raw_data (drive P)) (fds_used_space (drive P)) bytes\<rparr>;
             P1 = P\<lparr>lfs := fs1, lfp := fp1, drive := s1\<rparr>
         in if fr \<noteq> FR_OK then Some (fail_load fr P1)
            else if int (length bytes) \<noteq> payload_size K P then
              Some (if required then fail_load FDSR_INVALID_ROM P1
                    else Break (P1\<lparr>drive := rollback_gap g s1\<rparr>))
            else if fds_raw_data s1 (fds_used_space (drive P))
                    \<noteq> block_tag (fds_block_count (drive P)) then
              Some (if required then fail_load FDSR_INVALID_ROM P1
                    else Break (P1\<lparr>drive := rollback_gap g s1\<rparr>))
            else if fds_block_count (drive P) = 0 \<and>
                    load_bytes (fds_raw_data s1) (fds_used_space (drive P) + 1) 14 \<noteq> signature
            then Some (fail_load FDSR_INVALID_ROM P1)
            else
              (case fds_crc (load_bytes (fds_raw_data s1) (fds_used_space (drive P))
                               (payload_size K P)) of
                 None \<Rightarrow> None
               | Some crc \<Rightarrow>
                   Some (Next (P1\<lparr>drive := s1
                     \<lparr>fds_raw_data := (fds_raw_data s1)
                        (fds_used_space (drive P) + payload_size K P := ucast crc,
                         fds_used_space (drive P) + payload_size K P + 1
                           := ucast (drop_bit 8 crc)),
                      fds_used_space := fds_used_space (drive P) + payload_size K P + 2,
                      fds_block_count := fds_block_count (drive P) + 1\<rparr>\<rparr>)))))"
  unfolding read_block_def payload_size_def block_read_def block_tag_def Let_def
  by (rule refl)

lemma load_block_overflow:
  assumes "overflow K L"
  shows "\<exists>L'. load_block K L =
           Some (if block_required (block_head K L) then Return FDSR_ROM_TOO_LARGE L'
                 else Break L')"
proof (cases "gap_overflows K (block_head K L)")
  case True
  then show ?thesis by (auto simp: load_block_unfold fail_load_def)
next
  case False
  with assms have "fds_used_space (drive (at_payload K L)) + payload_size K (at_payload K L) + 2
       > FDS_MAX_SIDE_SIZE K" by (simp add: overflow_def)
  then show ?thesis
    by (auto simp: load_block_at_payload[OF False] read_block_unfold fail_load_def)
qed

lemma load_block_invalid:
  assumes "premature_eof K L \<or> kind_mismatch K L"
  shows "\<exists>L'. load_block K L =
           Some (if block_required (block_head K L) then Return FDSR_INVALID_ROM L'
                 else Break L')"
proof -
  from assms have no: "\<not> overflow K L" by (auto simp: premature_eof_def kind_mismatch_def)
  then have g: "\<not> gap_overflows K (block_head K L)"
    and p: "\<not> fds_used_space (drive (at_payload K L)) + payload_size K (at_payload K L) + 2
       > FDS_MAX_SIDE_SIZE K" by (auto simp: overflow_def)
  obtain fr bytes fp1 fs1 where r: "block_read K (at_payload K L) = (fr, bytes, fp1, fs1)"
    by (metis prod_cases4)
  from assms no r have ok: "fr = FR_OK"
    and bad: "int (length bytes) \<noteq> payload_size K (at_payload K L) \<or>
       store_bytes (fds_raw_data (drive (at_payload K L)))
            (fds_used_space (drive (at_payload K L))) bytes
            (fds_used_space (drive (at_payload K L)))
          \<noteq> block_tag (fds_block_count (drive L))"
    by (auto simp: premature_eof_def kind_mismatch_def)
  from bad show ?thesis
    unfolding load_block_at_payload[OF g] read_block_unfold
    using p r ok by (auto simp: Let_def fail_load_def)
qed

text \<open>
  An image file of one side: the disk info block, a file count block that announces one
  file, the header of that file, and zero bytes where its data block should be.
\<close>

definition sample_rom :: "u8 list" where
  "sample_rom = [1] @ signature @ replicate 41 0 @ [2, 1] @ [3] @ replicate 15 0
                @ replicate 65426 0"

lemma length_sample_rom: "length sample_rom = 65500"
  by (simp add: sample_rom_def signature_def)

section \<open>Load, save, load\<close>

text \<open>Two drives hold the same image when the image file name, the side, the block
  index and the buffer agree.\<close>

definition same_image :: "fds \<Rightarrow> fds \<Rightarrow> bool" where
  "same_image s t \<longleftrightarrow>
     fds_filename s = fds_filename t \<and> fds_side s = fds_side t \<and>
     fds_raw_data s = fds_raw_data t \<and> fds_block_offsets s = fds_block_offsets t \<and>
     fds_block_count s = fds_block_count t \<and> fds_used_space s = fds_used_space t"

lemma same_image_refl [simp]: "same_image s s"
  by (simp add: same_image_def)

lemma same_image_trans: "same_image s t \<Longrightarrow> same_image t u \<Longrightarrow> same_image s u"
  by (simp add: same_image_def)

lemma same_image_sym: "same_image s t \<Longrightarrow> same_image t s"
  by (simp add: same_image_def)

lemma same_image_block_size:
  "same_image s t \<Longrightarrow> fds_get_block_size K s i g c = fds_get_block_size K t i g c"
  by (simp add: same_image_def fds_get_block_size_def)

lemma same_image_payload:
  "same_image s t \<Longrightarrow> block_payload K s i = block_payload K t i"
  by (simp add: block_payload_def payload_addr_def same_image_block_size[of s t])
     (simp add: same_image_def)

lemma same_image_side_bytes:
  assumes "same_image s t"
  shows "side_bytes K s i = side_bytes K t i"
proof (induction "nat (fds_block_count s - i)" arbitrary: i)
  case 0
  then have "\<not> i < fds_block_count s" by simp
  moreover from this assms have "\<not> i < fds_block_count t" by (simp add: same_image_def)
  ultimately show ?case by (subst side_bytes.simps, subst (2) side_bytes.simps) simp
next
  case (Suc m)
  then have lt: "i < fds_block_count s" by linarith
  with assms have lt': "i < fds_block_count t" by (simp add: same_image_def)
  from Suc.hyps(2) have "m = nat (fds_block_count s - (i + 1))" by linarith
  from Suc.hyps(1)[OF this] lt lt' same_image_payload[OF assms, of K i] show ?case
    by (subst side_bytes.simps, subst (2) side_bytes.simps) simp
qed

text \<open>The read engine and the pin check leave the image alone as long as the console
  does not write.\<close>

lemma read_phase_fields [simp]:
  "fds_filename (read_phase K h pos s) = fds_filename s"
  "fds_side (read_phase K h pos s) = fds_side s"
  "fds_raw_data (read_phase K h pos s) = fds_raw_data s"
  "fds_block_offsets (read_phase K h pos s) = fds_block_offsets s"
  "fds_block_count (read_phase K h pos s) = fds_block_count s"
  "fds_used_space (read_phase K h pos s) = fds_used_space s"
  by (simp_all add: read_phase_def Let_def pause_before_ready_def fds_reset_reading_def)

lemma fill_slots_fields [simp]:
  "fds_filename (fill_slots K h pos n s) = fds_filename s"
  "fds_side (fill_slots K h pos n s) = fds_side s"
  "fds_raw_data (fill_slots K h pos n s) = fds_raw_data s"
  "fds_block_offsets (fill_slots K h pos n s) = fds_block_offsets s"
  "fds_block_count (fill_slots K h pos n s) = fds_block_count s"
  "fds_used_space (fill_slots K h pos n s) = fds_used_space s"
  by (induction n arbitrary: pos s) simp_all

lemma fds_dma_fill_read_buffer_fields [simp]:
  "fds_filename (fds_dma_fill_read_buffer K h pos n s) = fds_filename s"
  "fds_side (fds_dma_fill_read_buffer K h pos n s) = fds_side s"
  "fds_raw_data (fds_dma_fill_read_buffer K h pos n s) = fds_raw_data s"
  "fds_block_offsets (fds_dma_fill_read_buffer K h pos n s) = fds_block_offsets s"
  "fds_block_count (fds_dma_fill_read_buffer K h pos n s) = fds_block_count s"
  "fds_used_space (fds_dma_fill_read_buffer K h pos n s) = fds_used_space s"
  by (cases "fds_state s"; simp add: fds_dma_fill_read_buffer_def)+

lemma fds_start_reading_fields [simp]:
  "fds_filename (fds_start_reading K h s) = fds_filename s"
  "fds_side (fds_start_reading K h s) = fds_side s"
  "fds_raw_data (fds_start_reading K h s) = fds_raw_data s"
  "fds_block_offsets (fds_start_reading K h s) = fds_block_offsets s"
  "fds_block_count (fds_start_reading K h s) = fds_block_count s"
  "fds_used_space (fds_start_reading K h s) = fds_used_space s"
  by (simp_all add: fds_start_reading_def)

lemma fds_stop_fields [simp]:
  "fds_filename (fds_stop s) = fds_filename s"
  "fds_side (fds_stop s) = fds_side s"
  "fds_raw_data (fds_stop s) = fds_raw_data s"
  "fds_block_offsets (fds_stop s) = fds_block_offsets s"
  "fds_block_count (fds_stop s) = fds_block_count s"
  "fds_used_space (fds_stop s) = fds_used_space s"
  by (simp_all add: fds_stop_def fds_stop_reading_def fds_stop_writing_def)

lemma fds_reset_reading_fields [simp]:
  "fds_filename (fds_reset_reading h s) = fds_filename s"
  "fds_side (fds_reset_reading h s) = fds_side s"
  "fds_raw_data (fds_reset_reading h s) = fds_raw_data s"
  "fds_block_offsets (fds_reset_reading h s) = fds_block_offsets s"
  "fds_block_count (fds_reset_reading h s) = fds_block_count s"
  "fds_used_space (fds_reset_reading h s) = fds_used_space s"
  by (simp_all add: fds_reset_reading_def Let_def)

lemma motor_stopped_fields [simp]:
  "fds_filename (motor_stopped K h s) = fds_filename s"
  "fds_side (motor_stopped K h s) = fds_side s"
  "fds_raw_data (motor_stopped K h s) = fds_raw_data s"
  "fds_block_offsets (motor_stopped K h s) = fds_block_offsets s"
  "fds_block_count (motor_stopped K h s) = fds_block_count s"
  "fds_used_space (motor_stopped K h s) = fds_used_space s"
  by (cases "fds_state s"; simp add: motor_stopped_def Let_def)+

lemma host_reads_fields [simp]:
  "fds_filename (host_reads K h s) = fds_filename s"
  "fds_side (host_reads K h s) = fds_side s"
  "fds_raw_data (host_reads K h s) = fds_raw_data s"
  "fds_block_offsets (host_reads K h s) = fds_block_offsets s"
  "fds_block_count (host_reads K h s) = fds_block_count s"
  "fds_used_space (host_reads K h s) = fds_used_space s"
  by (cases "fds_state s"; simp add: host_reads_def fds_stop_writing_def)+

lemma fds_check_pins_image:
  assumes "FDS_SCAN_MEDIA_Pin h = GPIO_PIN_SET \<or> FDS_WRITE_Pin h = GPIO_PIN_SET"
  shows "same_image (fds_check_pins K h s) s"
  using assms by (auto simp: fds_check_pins_def Let_def same_image_def)

lemma close_drive_fields [simp]:
  "fds_filename (close_drive s) = fds_filename s"
  "fds_side (close_drive s) = fds_side s"
  "fds_raw_data (close_drive s) = fds_raw_data s"
  "fds_block_offsets (close_drive s) = fds_block_offsets s"
  "fds_block_count (close_drive s) = 0"
  "fds_used_space (close_drive s) = 0"
  by (simp_all add: close_drive_def)

text \<open>The anatomy of a turn that takes a block.\<close>

definition gaps_ok :: "fds_consts \<Rightarrow> bool" where
  "gaps_ok K \<longleftrightarrow> 1 \<le> first_gap K \<and> 1 \<le> next_gap K"

text \<open>The loader after the payload \<open>bytes\<close> was copied into the buffer, and after
  the block got its CRC.\<close>

definition copied :: "loader \<Rightarrow> u8 list \<Rightarrow> FIL \<Rightarrow> storage \<Rightarrow> loader" where
  "copied P bytes fp1 fs1 =
     P\<lparr>lfs := fs1, lfp := fp1,
       drive := (drive P)\<lparr>fds_raw_data :=
                  store_bytes (fds_raw_data (drive P)) (fds_used_space (drive P)) bytes\<rparr>\<rparr>"

definition taken :: "fds_consts \<Rightarrow> loader \<Rightarrow> u8 list \<Rightarrow> FIL \<Rightarrow> storage \<Rightarrow> u16 \<Rightarrow> loader" where
  "taken K P bytes fp1 fs1 crc =
     (copied P bytes fp1 fs1)\<lparr>drive := (drive (copied P bytes fp1 fs1))
        \<lparr>fds_raw_data := (fds_raw_data (drive (copied P bytes fp1 fs1)))
           (fds_used_space (drive P) + payload_size K P := ucast crc,
            fds_used_space (drive P) + payload_size K P + 1 := ucast (drop_bit 8 crc)),
         fds_used_space := fds_used_space (drive P) + payload_size K P + 2,
         fds_block_count := fds_block_count (drive P) + 1\<rparr>\<rparr>"

text \<open>The tests that a payload passes before it gets its CRC.\<close>

definition payload_ok :: "fds_consts \<Rightarrow> loader \<Rightarrow> u8 list \<Rightarrow> bool" where
  "payload_ok K P bytes \<longleftrightarrow>
     int (length bytes) = payload_size K P \<and>
     store_bytes (fds_raw_data (drive P)) (fds_used_space (drive P)) bytes
       (fds_used_space (drive P)) = block_tag (fds_block_count (drive P)) \<and>
     \<not> (fds_block_count (drive P) = 0 \<and>
        load_bytes (store_bytes (fds_raw_data (drive P)) (fds_used_space (drive P)) bytes)
          (fds_used_space (drive P) + 1) 14 \<noteq> signature)"

lemma read_block_Next_iff:
  "read_block K required g P = Some (Next L') \<longleftrightarrow>
     fds_used_space (drive P) + payload_size K P + 2 \<le> FDS_MAX_SIDE_SIZE K \<and>
     (\<exists>bytes fp1 fs1 crc.
        block_read K P = (FR_OK, bytes, fp1, fs1) \<and> payload_ok K P bytes \<and>
        fds_crc (load_bytes (store_bytes (fds_raw_data (drive P)) (fds_used_space (drive P)) bytes)
                   (fds_used_space (drive P)) (payload_size K P)) = Some crc \<and>
        L' = taken K P bytes fp1 fs1 crc)"
proof -
  obtain fr bytes fp1 fs1 where r: "block_read K P = (fr, bytes, fp1, fs1)"
    by (metis prod_cases4)
  show ?thesis
    unfolding read_block_unfold r payload_ok_def taken_def copied_def Let_def fail_load_def
    by (auto split: option.splits)
qed

lemma load_block_Next_iff:
  "load_block K L = Some (Next L') \<longleftrightarrow>
     \<not> gap_overflows K (block_head K L) \<and>
     fds_used_space (drive (at_payload K L)) + payload_size K (at_payload K L) + 2
       \<le> FDS_MAX_SIDE_SIZE K \<and>
     (\<exists>bytes fp1 fs1 crc.
        block_read K (at_payload K L) = (FR_OK, bytes, fp1, fs1) \<and>
        payload_ok K (at_payload K L) bytes \<and>
        fds_crc (load_bytes
                   (store_bytes (fds_raw_data (drive (at_payload K L)))
                      (fds_used_space (drive (at_payload K L))) bytes)
                   (fds_used_space (drive (at_payload K L)))
                   (payload_size K (at_payload K L))) = Some crc \<and>
        L' = taken K (at_payload K L) bytes fp1 fs1 crc)"
proof (cases "gap_overflows K (block_head K L)")
  case True
  then show ?thesis by (simp add: load_block_unfold fail_load_def)
next
  case False
  then show ?thesis
    by (simp only: load_block_at_payload[OF False] read_block_Next_iff) simp
qed

lemma at_payload_fields:
  "lfs (at_payload K L) = lfs L"
  "lfp (at_payload K L) = lfp L"
  "min_blocks (at_payload K L) = min_blocks (block_head K L)"
  "fds_filename (drive (at_payload K L)) = fds_filename (drive L)"
  "fds_side (drive (at_payload K L)) = fds_side (drive L)"
  "fds_block_offsets (drive (at_payload K L))
     = (fds_block_offsets (drive L))(fds_block_count (drive L) := fds_used_space (drive L))"
  by (simp_all add: at_payload_def with_gap_def block_head_def Let_def)

lemma at_payload_used:
  "gaps_ok K \<Longrightarrow>
   fds_used_space (drive (at_payload K L))
     = fds_used_space (drive L) + gap_length_of K (fds_block_count (drive L))"
  by (auto simp: at_payload_def with_gap_def block_head_def Let_def gaps_ok_def gap_length_of_def)

lemma at_payload_raw_below:
  "a < fds_used_space (drive L) \<Longrightarrow>
   fds_raw_data (drive (at_payload K L)) a = fds_raw_data (drive L) a"
  by (auto simp: at_payload_def with_gap_def block_head_def Let_def)

lemma at_payload_raw_above:
  "gaps_ok K \<Longrightarrow>
   fds_used_space (drive L) + gap_length_of K (fds_block_count (drive L)) \<le> a \<Longrightarrow>
   fds_raw_data (drive (at_payload K L)) a = fds_raw_data (drive L) a"
  by (auto simp: at_payload_def with_gap_def block_head_def Let_def gaps_ok_def gap_length_of_def)

lemma at_payload_raw_gap:
  "gaps_ok K \<Longrightarrow> fds_used_space (drive L) \<le> a \<Longrightarrow>
   a < fds_used_space (drive L) + gap_length_of K (fds_block_count (drive L)) \<Longrightarrow>
   fds_raw_data (drive (at_payload K L)) a
     = (if a = fds_used_space (drive L) + gap_length_of K (fds_block_count (drive L)) - 1
        then 0x80 else 0)"
  by (auto simp: at_payload_def with_gap_def block_head_def Let_def gaps_ok_def gap_length_of_def)

text \<open>Two arrays agree below \<open>m\<close>.\<close>

definition agree :: "int \<Rightarrow> (int \<Rightarrow> 'a) \<Rightarrow> (int \<Rightarrow> 'a) \<Rightarrow> bool" where
  "agree m f g \<longleftrightarrow> (\<forall>a. 0 \<le> a \<and> a < m \<longrightarrow> f a = g a)"

lemma agree_refl [simp]: "agree m f f"
  by (simp add: agree_def)

lemma agree_sym: "agree m f g \<Longrightarrow> agree m g f"
  by (simp add: agree_def)

lemma agree_trans: "agree m f g \<Longrightarrow> agree m g h \<Longrightarrow> agree m f h"
  by (simp add: agree_def)

lemma agree_less: "agree m f g \<Longrightarrow> n \<le> m \<Longrightarrow> agree n f g"
  by (simp add: agree_def)

lemma agreeD: "agree m f g \<Longrightarrow> 0 \<le> a \<Longrightarrow> a < m \<Longrightarrow> f a = g a"
  by (simp add: agree_def)

lemma agree_upd: "agree m f g \<Longrightarrow> agree m (f(a := v)) (g(a := v))"
  by (simp add: agree_def)

lemma agree_store_bytes: "agree m f g \<Longrightarrow> agree m (store_bytes f p bs) (store_bytes g p bs)"
  by (simp add: agree_def store_bytes_def)

lemma agree_load_bytes:
  assumes "agree m f g" and "0 \<le> p" and "p + n \<le> m"
  shows "load_bytes f p n = load_bytes g p n"
  unfolding load_bytes_def
proof (rule map_cong[OF refl])
  fix k assume "k \<in> set [0..<nat n]"
  then have "0 \<le> p + int k" "p + int k < m" using assms by auto
  with assms(1) show "f (p + int k) = g (p + int k)" by (rule agreeD)
qed

text \<open>The blocks of a drive lie below \<^verbatim>\<open>fds_used_space\<close>, inside the buffer.\<close>

definition blocks_below :: "fds_consts \<Rightarrow> fds \<Rightarrow> bool" where
  "blocks_below K s \<longleftrightarrow>
     0 \<le> fds_block_count s \<and> 0 \<le> fds_used_space s \<and>
     fds_used_space s \<le> FDS_MAX_SIDE_SIZE K \<and>
     (\<forall>i. 0 \<le> i \<and> i < fds_block_count s \<longrightarrow>
        0 \<le> fds_block_offsets s i \<and>
        payload_addr K s i + fds_get_block_size K s i False False + 2 \<le> fds_used_space s)"

lemma blocks_belowD:
  "blocks_below K s \<Longrightarrow> 0 \<le> i \<Longrightarrow> i < fds_block_count s \<Longrightarrow>
   0 \<le> fds_block_offsets s i \<and>
   payload_addr K s i + fds_get_block_size K s i False False + 2 \<le> fds_used_space s"
  by (simp add: blocks_below_def)

lemma payload_addr_gap: "payload_addr K s i = fds_block_offsets s i + gap_length_of K i"
  by (simp add: payload_addr_def gap_length_of_def first_gap_def next_gap_def)

lemma gap_length_of_pos: "gaps_ok K \<Longrightarrow> 1 \<le> gap_length_of K i"
  by (simp add: gaps_ok_def gap_length_of_def)

text \<open>The size of a block depends on the header before it only.\<close>

lemma block_size_agree:
  assumes b: "blocks_below K s" and g: "gaps_ok K"
    and r: "agree (fds_used_space s) (fds_raw_data t) (fds_raw_data s)"
    and o: "agree (fds_block_count s) (fds_block_offsets t) (fds_block_offsets s)"
    and i: "0 \<le> i" "i \<le> fds_block_count s"
  shows "fds_get_block_size K t i x y = fds_get_block_size K s i x y"
proof (cases "i = 0 \<or> i = 1 \<or> i mod 2 = 0")
  case True
  then show ?thesis by (auto simp: fds_get_block_size_def)
next
  case False
  with i have j: "0 \<le> i - 1" "i - 1 < fds_block_count s" "i - 1 \<noteq> 0" "i - 1 \<noteq> 1"
    "(i - 1) mod 2 = 0" by presburger+
  from blocks_belowD[OF b j(1,2)] j(3,4,5)
  have p: "0 \<le> fds_block_offsets s (i - 1)"
    "fds_block_offsets s (i - 1) + next_gap K + 18 \<le> fds_used_space s"
    by (simp_all add: payload_addr_gap gap_length_of_def fds_get_block_size_def)
  from g have n: "1 \<le> next_gap K" by (simp add: gaps_ok_def)
  have e: "fds_block_offsets t (i - 1) = fds_block_offsets s (i - 1)"
    by (rule agreeD[OF o j(1,2)])
  have "fds_raw_data t (fds_block_offsets s (i - 1) + next_gap K + 0x0D)
          = fds_raw_data s (fds_block_offsets s (i - 1) + next_gap K + 0x0D)"
    "fds_raw_data t (fds_block_offsets s (i - 1) + next_gap K + 0x0E)
          = fds_raw_data s (fds_block_offsets s (i - 1) + next_gap K + 0x0E)"
    using p n by (auto intro!: agreeD[OF r])
  with False e show ?thesis by (simp add: fds_get_block_size_def)
qed

lemma block_payload_agree:
  assumes b: "blocks_below K s" and g: "gaps_ok K"
    and r: "agree (fds_used_space s) (fds_raw_data t) (fds_raw_data s)"
    and o: "agree (fds_block_count s) (fds_block_offsets t) (fds_block_offsets s)"
    and i: "0 \<le> i" "i < fds_block_count s"
  shows "block_payload K t i = block_payload K s i"
    and "stored_crc K t i = stored_crc K s i"
proof -
  from i have i': "i \<le> fds_block_count s" by simp
  have sz: "fds_get_block_size K t i False False = fds_get_block_size K s i False False"
    by (rule block_size_agree[OF b g r o i(1) i'])
  have a: "payload_addr K t i = payload_addr K s i"
    using agreeD[OF o i] by (simp add: payload_addr_gap)
  from blocks_belowD[OF b i] gap_length_of_pos[OF g, of i]
  have p: "0 \<le> payload_addr K s i"
    "payload_addr K s i + fds_get_block_size K s i False False + 2 \<le> fds_used_space s"
    by (simp_all add: payload_addr_gap)
  have n: "0 \<le> fds_get_block_size K s i False False" by (rule fds_get_block_size_nonneg)
  show "block_payload K t i = block_payload K s i"
    unfolding block_payload_def sz a using p by (intro agree_load_bytes[OF r]) simp_all
  have "fds_raw_data t (payload_addr K s i + fds_get_block_size K s i False False)
          = fds_raw_data s (payload_addr K s i + fds_get_block_size K s i False False)"
    "fds_raw_data t (payload_addr K s i + fds_get_block_size K s i False False + 1)
          = fds_raw_data s (payload_addr K s i + fds_get_block_size K s i False False + 1)"
    using p n by (auto intro!: agreeD[OF r])
  then show "stored_crc K t i = stored_crc K s i"
    unfolding stored_crc_def sz a by simp
qed

text \<open>The bytes of the blocks of a drive that got one more block.\<close>

lemma side_bytes_extend:
  assumes c: "fds_block_count t = fds_block_count s + 1"
    and p: "\<And>i. 0 \<le> i \<Longrightarrow> i < fds_block_count s \<Longrightarrow> block_payload K t i = block_payload K s i"
    and i: "0 \<le> i" "i \<le> fds_block_count s"
  shows "side_bytes K t i = side_bytes K s i @ block_payload K t (fds_block_count s)"
  using i
proof (induction "nat (fds_block_count s - i)" arbitrary: i)
  case 0
  then have e: "i = fds_block_count s" by simp
  show ?case
    unfolding e
    by (simp add: side_bytes.simps[of K t "fds_block_count s"]
          side_bytes.simps[of K t "fds_block_count s + 1"]
          side_bytes.simps[of K s "fds_block_count s"] c)
next
  case (Suc n)
  then have l: "i < fds_block_count s" and n: "n = nat (fds_block_count s - (i + 1))"
    and b: "0 \<le> i + 1" "i + 1 \<le> fds_block_count s" by simp_all
  from Suc.hyps(1)[OF n b]
  have ih: "side_bytes K t (i + 1)
              = side_bytes K s (i + 1) @ block_payload K t (fds_block_count s)" .
  show ?case
    by (simp add: side_bytes.simps[of K t i] side_bytes.simps[of K s i]
          c l Suc.prems(2) ih p[OF Suc.prems(1) l])
qed

text \<open>What is left of the file behind the file pointer.\<close>

definition rest :: "loader \<Rightarrow> u8 list" where
  "rest L = drop (fptr (lfp L)) (content (lfs L) (fname (lfp L)))"

lemma f_read_ok:
  assumes "f_read fs fp n = (FR_OK, bytes, fp1, fs1)"
  shows "bytes = take n (drop (fptr fp) (content fs (fname fp)))"
    and "fname fp1 = fname fp" and "fptr fp1 = fptr fp + length bytes"
    and "content fs1 = content fs"
proof -
  obtain f fs0 where nf: "next_fault fs = (f, fs0)" by (cases "next_fault fs") auto
  note c = next_fault_content[OF nf]
  from assms nf have "\<not> f" by (auto simp: f_read_def Let_def split: if_splits)
  with assms nf have e: "bytes = take n (drop (fptr fp) (content fs0 (fname fp)))"
    "fp1 = fp\<lparr>fptr := fptr fp + length bytes\<rparr>" "fs1 = fs0"
    by (auto simp: f_read_def Let_def)
  show "bytes = take n (drop (fptr fp) (content fs (fname fp)))" using e(1) by (simp add: c)
  show "fname fp1 = fname fp" "fptr fp1 = fptr fp + length bytes" using e(2) by simp_all
  show "content fs1 = content fs" using e(3) c by simp
qed

lemma f_read_cases:
  "(\<exists>fp1 fs1. f_read fs fp n = (FR_DISK_ERR, [], fp1, fs1)) \<or>
   (\<exists>bytes fp1 fs1. f_read fs fp n = (FR_OK, bytes, fp1, fs1))"
  by (cases "next_fault fs") (auto simp: f_read_def Let_def)

lemma block_read_ok:
  assumes "block_read K P = (FR_OK, bytes, fp1, fs1)"
  shows "bytes = take (nat (payload_size K P)) (rest P)"
    and "drop (fptr fp1) (content fs1 (fname fp1)) = drop (length bytes) (rest P)"
    and "fname fp1 = fname (lfp P)" and "content fs1 = content (lfs P)"
  using f_read_ok[OF assms[unfolded block_read_def]]
  by (simp_all add: rest_def add.commute)

lemma copied_fields [simp]:
  "lfs (copied P bytes fp1 fs1) = fs1"
  "lfp (copied P bytes fp1 fs1) = fp1"
  "min_blocks (copied P bytes fp1 fs1) = min_blocks P"
  "fds_filename (drive (copied P bytes fp1 fs1)) = fds_filename (drive P)"
  "fds_side (drive (copied P bytes fp1 fs1)) = fds_side (drive P)"
  "fds_block_offsets (drive (copied P bytes fp1 fs1)) = fds_block_offsets (drive P)"
  "fds_block_count (drive (copied P bytes fp1 fs1)) = fds_block_count (drive P)"
  "fds_used_space (drive (copied P bytes fp1 fs1)) = fds_used_space (drive P)"
  "fds_raw_data (drive (copied P bytes fp1 fs1))
     = store_bytes (fds_raw_data (drive P)) (fds_used_space (drive P)) bytes"
  by (simp_all add: copied_def)

lemma taken_fields [simp]:
  "lfs (taken K P bytes fp1 fs1 crc) = fs1"
  "lfp (taken K P bytes fp1 fs1 crc) = fp1"
  "min_blocks (taken K P bytes fp1 fs1 crc) = min_blocks P"
  "fds_filename (drive (taken K P bytes fp1 fs1 crc)) = fds_filename (drive P)"
  "fds_side (drive (taken K P bytes fp1 fs1 crc)) = fds_side (drive P)"
  "fds_block_offsets (drive (taken K P bytes fp1 fs1 crc)) = fds_block_offsets (drive P)"
  "fds_block_count (drive (taken K P bytes fp1 fs1 crc)) = fds_block_count (drive P) + 1"
  "fds_used_space (drive (taken K P bytes fp1 fs1 crc))
     = fds_used_space (drive P) + payload_size K P + 2"
  "fds_raw_data (drive (taken K P bytes fp1 fs1 crc))
     = (store_bytes (fds_raw_data (drive P)) (fds_used_space (drive P)) bytes)
         (fds_used_space (drive P) + payload_size K P := ucast crc,
          fds_used_space (drive P) + payload_size K P + 1 := ucast (drop_bit 8 crc))"
  by (simp_all add: taken_def)

lemma rest_taken:
  "block_read K P = (FR_OK, bytes, fp1, fs1) \<Longrightarrow>
   rest (taken K P bytes fp1 fs1 crc) = drop (length bytes) (rest P)"
  using block_read_ok(2)[of K P bytes fp1 fs1] by (simp add: rest_def)

lemma rest_at_payload [simp]: "rest (at_payload K L) = rest L"
  by (simp add: rest_def at_payload_fields)

lemma payload_size_at_payload:
  assumes "gaps_ok K" and "blocks_below K (drive L)"
  shows "payload_size K (at_payload K L)
           = fds_get_block_size K (drive L) (fds_block_count (drive L)) False False"
proof -
  have r: "agree (fds_used_space (drive L)) (fds_raw_data (drive (at_payload K L)))
             (fds_raw_data (drive L))"
    by (simp add: agree_def at_payload_raw_below)
  have o: "agree (fds_block_count (drive L)) (fds_block_offsets (drive (at_payload K L)))
             (fds_block_offsets (drive L))"
    by (simp add: agree_def at_payload_fields)
  from assms(2) have c: "0 \<le> fds_block_count (drive L)" by (simp add: blocks_below_def)
  show ?thesis
    unfolding payload_size_def at_payload_count
    by (rule block_size_agree[OF assms(2,1) r o c]) simp
qed

lemma le16_ucast: "le16 (ucast c) (ucast (drop_bit 8 c)) = uint (c :: u16)"
  unfolding le16_def
  by (rule bit_eqI)
    (auto simp: bit_or_iff bit_push_bit_iff bit_uint_iff bit_ucast_iff bit_drop_bit_eq
       dest: bit_imp_le_length)

lemma load_bytes_store_bytes:
  assumes "int (length bs) = n"
  shows "load_bytes ((store_bytes raw p bs)(p + n := x, p + n + 1 := y)) p n = bs"
proof (rule nth_equalityI)
  show "length (load_bytes ((store_bytes raw p bs)(p + n := x, p + n + 1 := y)) p n) = length bs"
    using assms by auto
next
  fix k assume "k < length (load_bytes ((store_bytes raw p bs)(p + n := x, p + n + 1 := y)) p n)"
  then have k: "k < length bs" using assms by auto
  with assms show "load_bytes ((store_bytes raw p bs)(p + n := x, p + n + 1 := y)) p n ! k = bs ! k"
    by (auto simp: load_bytes_def store_bytes_def)
qed

text \<open>A turn that takes a block keeps the blocks below \<^verbatim>\<open>fds_used_space\<close>, leaves
  the blocks before it alone, and takes the payload of the new block from the file, at
  the file pointer.\<close>

lemma load_block_Next_inv:
  assumes g: "gaps_ok K" and b: "blocks_below K (drive L)"
    and n: "load_block K L = Some (Next L')"
  shows "blocks_below K (drive L')"
    and "side_bytes K (drive L') 0 @ rest L' = side_bytes K (drive L) 0 @ rest L"
    and "fds_filename (drive L') = fds_filename (drive L)"
    and "fds_side (drive L') = fds_side (drive L)"
    and "fds_block_count (drive L') = fds_block_count (drive L) + 1"
    and "agree (fds_used_space (drive L)) (fds_raw_data (drive L')) (fds_raw_data (drive L))"
    and "agree (fds_block_count (drive L)) (fds_block_offsets (drive L'))
           (fds_block_offsets (drive L))"
    and "\<exists>c. fds_crc (block_payload K (drive L') (fds_block_count (drive L))) = Some c \<and>
             stored_crc K (drive L') (fds_block_count (drive L)) = uint c"
proof -
  let ?P = "at_payload K L"
  let ?s = "drive L"
  let ?n = "fds_block_count ?s"
  let ?u = "fds_used_space ?s"
  let ?g = "gap_length_of K ?n"
  let ?z = "fds_get_block_size K ?s ?n False False"
  from n[unfolded load_block_Next_iff] obtain bytes fp1 fs1 crc
    where fit: "fds_used_space (drive ?P) + payload_size K ?P + 2 \<le> FDS_MAX_SIDE_SIZE K"
      and rd: "block_read K ?P = (FR_OK, bytes, fp1, fs1)"
      and ok: "payload_ok K ?P bytes"
      and cr: "fds_crc (load_bytes
                 (store_bytes (fds_raw_data (drive ?P)) (fds_used_space (drive ?P)) bytes)
                 (fds_used_space (drive ?P)) (payload_size K ?P)) = Some crc"
      and L': "L' = taken K ?P bytes fp1 fs1 crc"
    by blast
  have up: "fds_used_space (drive ?P) = ?u + ?g" by (rule at_payload_used[OF g])
  have sz: "payload_size K ?P = ?z" by (rule payload_size_at_payload[OF g b])
  have z0: "0 \<le> ?z" by (rule fds_get_block_size_nonneg)
  have g1: "1 \<le> ?g" by (rule gap_length_of_pos[OF g])
  from ok have len: "int (length bytes) = ?z" by (simp add: payload_ok_def sz)
  from b have n0: "0 \<le> ?n" and u0: "0 \<le> ?u" by (simp_all add: blocks_below_def)
  have raw': "fds_raw_data (drive L')
                = (store_bytes (fds_raw_data (drive ?P)) (?u + ?g) bytes)
                    (?u + ?g + ?z := ucast crc, ?u + ?g + ?z + 1 := ucast (drop_bit 8 crc))"
    by (simp add: L' up sz)
  have off': "fds_block_offsets (drive L') = (fds_block_offsets ?s)(?n := ?u)"
    by (simp add: L' at_payload_fields)
  have cnt': "fds_block_count (drive L') = ?n + 1" by (simp add: L')
  have used': "fds_used_space (drive L') = ?u + ?g + ?z + 2" by (simp add: L' up sz)
  have r: "agree ?u (fds_raw_data (drive L')) (fds_raw_data ?s)"
    unfolding agree_def raw' using g1 z0
    by (auto simp: store_bytes_def at_payload_raw_below)
  have o: "agree ?n (fds_block_offsets (drive L')) (fds_block_offsets ?s)"
    unfolding agree_def off' by simp
  have size': "fds_get_block_size K (drive L') i False False
                 = fds_get_block_size K ?s i False False" if "0 \<le> i" "i \<le> ?n" for i
    by (rule block_size_agree[OF b g r o that])
  have addr': "payload_addr K (drive L') i = payload_addr K ?s i" if "0 \<le> i" "i < ?n" for i
    using that by (simp add: payload_addr_gap off')
  have addr_n: "payload_addr K (drive L') ?n = ?u + ?g"
    by (simp add: payload_addr_gap off')
  show "blocks_below K (drive L')"
    unfolding blocks_below_def
  proof (intro conjI allI impI)
    show "0 \<le> fds_block_count (drive L')" using n0 by (simp add: cnt')
    show "0 \<le> fds_used_space (drive L')" using u0 g1 z0 by (simp add: used')
    show "fds_used_space (drive L') \<le> FDS_MAX_SIDE_SIZE K" using fit by (simp add: used' up sz)
  next
    fix i assume i: "0 \<le> i \<and> i < fds_block_count (drive L')"
    show "0 \<le> fds_block_offsets (drive L') i"
      using i blocks_belowD[OF b, of i] u0 by (cases "i = ?n") (simp_all add: off' cnt')
    show "payload_addr K (drive L') i + fds_get_block_size K (drive L') i False False + 2
            \<le> fds_used_space (drive L')"
    proof (cases "i = ?n")
      case True
      then show ?thesis using size'[of ?n] n0 by (simp add: addr_n used')
    next
      case False
      with i have l: "0 \<le> i" "i < ?n" by (simp_all add: cnt')
      from blocks_belowD[OF b l] size'[of i] addr'[OF l] l g1 z0 show ?thesis
        by (simp add: used')
    qed
  qed
  have old: "block_payload K (drive L') i = block_payload K ?s i" if "0 \<le> i" "i < ?n" for i
    by (rule block_payload_agree(1)[OF b g r o that])
  have new: "block_payload K (drive L') ?n = bytes"
    unfolding block_payload_def addr_n size'[OF n0 order_refl] raw'
    by (rule load_bytes_store_bytes[OF len])
  have "side_bytes K (drive L') 0 = side_bytes K ?s 0 @ block_payload K (drive L') ?n"
    by (rule side_bytes_extend[OF cnt' old order_refl n0])
  moreover have "rest L' = drop (length bytes) (rest L)"
    using rest_taken[OF rd] by (simp add: L')
  moreover have "bytes = take (length bytes) (rest L)"
    using block_read_ok(1)[OF rd] len by (simp add: sz)
  ultimately show "side_bytes K (drive L') 0 @ rest L' = side_bytes K (drive L) 0 @ rest L"
    by (simp add: new) (metis append_take_drop_id)
  show "fds_filename (drive L') = fds_filename (drive L)" "fds_side (drive L') = fds_side (drive L)"
    by (simp_all add: L' at_payload_fields)
  show "fds_block_count (drive L') = ?n + 1" by (rule cnt')
  show "agree ?u (fds_raw_data (drive L')) (fds_raw_data ?s)" by (rule r)
  show "agree ?n (fds_block_offsets (drive L')) (fds_block_offsets ?s)" by (rule o)
  have "load_bytes (store_bytes (fds_raw_data (drive ?P)) (?u + ?g) bytes) (?u + ?g) ?z = bytes"
    using len by (auto simp: load_bytes_def store_bytes_def intro!: nth_equalityI)
  with cr have "fds_crc bytes = Some crc" by (simp add: up sz)
  moreover have "stored_crc K (drive L') ?n = uint crc"
    unfolding stored_crc_def addr_n size'[OF n0 order_refl] raw'
    by (simp add: le16_ucast)
  ultimately show "\<exists>c. fds_crc (block_payload K (drive L') ?n) = Some c \<and>
                       stored_crc K (drive L') ?n = uint c"
    by (simp add: new)
qed

text \<open>A drive that agrees with another below its \<^verbatim>\<open>fds_used_space\<close> has the same
  blocks.\<close>

lemma blocks_below_agree:
  assumes b: "blocks_below K s" and g: "gaps_ok K"
    and c: "fds_block_count t = fds_block_count s" and u: "fds_used_space t = fds_used_space s"
    and r: "agree (fds_used_space s) (fds_raw_data t) (fds_raw_data s)"
    and o: "agree (fds_block_count s) (fds_block_offsets t) (fds_block_offsets s)"
  shows "blocks_below K t"
  unfolding blocks_below_def
proof (intro conjI allI impI)
  show "0 \<le> fds_block_count t" "0 \<le> fds_used_space t" "fds_used_space t \<le> FDS_MAX_SIDE_SIZE K"
    using b by (simp_all add: blocks_below_def c u)
next
  fix i assume "0 \<le> i \<and> i < fds_block_count t"
  then have i: "0 \<le> i" "i < fds_block_count s" "i \<le> fds_block_count s" by (simp_all add: c)
  note e = agreeD[OF o i(1,2)]
  from blocks_belowD[OF b i(1,2)] block_size_agree[OF b g r o i(1,3), of False False]
  show "0 \<le> fds_block_offsets t i"
    "payload_addr K t i + fds_get_block_size K t i False False + 2 \<le> fds_used_space t"
    by (simp_all add: e u payload_addr_gap)
qed

lemma side_bytes_agree:
  assumes b: "blocks_below K s" and g: "gaps_ok K"
    and c: "fds_block_count t = fds_block_count s"
    and r: "agree (fds_used_space s) (fds_raw_data t) (fds_raw_data s)"
    and o: "agree (fds_block_count s) (fds_block_offsets t) (fds_block_offsets s)"
    and i: "0 \<le> i"
  shows "side_bytes K t i = side_bytes K s i"
  using i
proof (induction "nat (fds_block_count s - i)" arbitrary: i)
  case 0
  then show ?case by (simp add: side_bytes.simps[of K t i] side_bytes.simps[of K s i] c)
next
  case (Suc n)
  then have l: "i < fds_block_count s" and n: "n = nat (fds_block_count s - (i + 1))"
    and p: "0 \<le> i + 1" by simp_all
  from Suc.hyps(1)[OF n p] block_payload_agree(1)[OF b g r o Suc.prems l]
  show ?case by (simp add: side_bytes.simps[of K t i] side_bytes.simps[of K s i] c l)
qed

text \<open>A turn that ends the image leaves the blocks alone.\<close>

lemma rollback_gap_fields [simp]:
  "fds_filename (rollback_gap g s) = fds_filename s"
  "fds_side (rollback_gap g s) = fds_side s"
  "fds_block_offsets (rollback_gap g s) = fds_block_offsets s"
  "fds_block_count (rollback_gap g s) = fds_block_count s"
  "fds_used_space (rollback_gap g s) = fds_used_space s - g"
  "fds_raw_data (rollback_gap g s) = (fds_raw_data s)(fds_used_space s - 1 := 0)"
  by (simp_all add: rollback_gap_def)

text \<open>The loader of a turn that stops at a payload that is short or of another
  kind.\<close>

definition refused :: "int \<Rightarrow> loader \<Rightarrow> u8 list \<Rightarrow> FIL \<Rightarrow> storage \<Rightarrow> loader" where
  "refused g P bytes fp1 fs1 =
     (copied P bytes fp1 fs1)\<lparr>drive := rollback_gap g (drive (copied P bytes fp1 fs1))\<rparr>"

definition framed :: "fds_consts \<Rightarrow> loader \<Rightarrow> u8 list \<Rightarrow> bool" where
  "framed K P bytes \<longleftrightarrow>
     int (length bytes) = payload_size K P \<and>
     store_bytes (fds_raw_data (drive P)) (fds_used_space (drive P)) bytes
       (fds_used_space (drive P)) = block_tag (fds_block_count (drive P))"

lemma read_block_Break_iff:
  "read_block K req g P = Some (Break L') \<longleftrightarrow>
     \<not> req \<and>
     (if fds_used_space (drive P) + payload_size K P + 2 > FDS_MAX_SIDE_SIZE K
      then L' = P\<lparr>drive := rollback_gap g (drive P)\<rparr>
      else (\<exists>bytes fp1 fs1.
              block_read K P = (FR_OK, bytes, fp1, fs1) \<and> \<not> framed K P bytes \<and>
              L' = refused g P bytes fp1 fs1))"
proof -
  obtain fr bytes fp1 fs1 where r: "block_read K P = (fr, bytes, fp1, fs1)"
    by (metis prod_cases4)
  show ?thesis
    unfolding read_block_unfold r framed_def refused_def copied_def Let_def fail_load_def
    by (auto split: option.splits)
qed

lemma load_block_Break_iff:
  "load_block K L = Some (Break L') \<longleftrightarrow>
     \<not> block_required (block_head K L) \<and>
     (if gap_overflows K (block_head K L) then L' = block_head K L
      else if fds_used_space (drive (at_payload K L)) + payload_size K (at_payload K L) + 2
                > FDS_MAX_SIDE_SIZE K
      then L' = (at_payload K L)
             \<lparr>drive := rollback_gap (gap_length_of K (fds_block_count (drive L)))
                         (drive (at_payload K L))\<rparr>
      else (\<exists>bytes fp1 fs1.
              block_read K (at_payload K L) = (FR_OK, bytes, fp1, fs1) \<and>
              \<not> framed K (at_payload K L) bytes \<and>
              L' = refused (gap_length_of K (fds_block_count (drive L))) (at_payload K L)
                     bytes fp1 fs1))"
proof (cases "gap_overflows K (block_head K L)")
  case True
  then show ?thesis by (auto simp: load_block_unfold fail_load_def)
next
  case False
  then show ?thesis
    by (simp only: load_block_at_payload[OF False] read_block_Break_iff) simp
qed

lemma refused_fields [simp]:
  "lfs (refused g P bytes fp1 fs1) = fs1"
  "lfp (refused g P bytes fp1 fs1) = fp1"
  "min_blocks (refused g P bytes fp1 fs1) = min_blocks P"
  "fds_filename (drive (refused g P bytes fp1 fs1)) = fds_filename (drive P)"
  "fds_side (drive (refused g P bytes fp1 fs1)) = fds_side (drive P)"
  "fds_block_offsets (drive (refused g P bytes fp1 fs1)) = fds_block_offsets (drive P)"
  "fds_block_count (drive (refused g P bytes fp1 fs1)) = fds_block_count (drive P)"
  "fds_used_space (drive (refused g P bytes fp1 fs1)) = fds_used_space (drive P) - g"
  "fds_raw_data (drive (refused g P bytes fp1 fs1))
     = (store_bytes (fds_raw_data (drive P)) (fds_used_space (drive P)) bytes)
         (fds_used_space (drive P) - 1 := 0)"
  by (simp_all add: refused_def)

lemma load_block_Break_inv:
  assumes g: "gaps_ok K" and n: "load_block K L = Some (Break L')"
  shows "fds_block_count (drive L') = fds_block_count (drive L)"
    and "fds_used_space (drive L') = fds_used_space (drive L)"
    and "agree (fds_used_space (drive L)) (fds_raw_data (drive L')) (fds_raw_data (drive L))"
    and "agree (fds_block_count (drive L)) (fds_block_offsets (drive L'))
           (fds_block_offsets (drive L))"
    and "fds_filename (drive L') = fds_filename (drive L)"
    and "fds_side (drive L') = fds_side (drive L)"
proof -
  let ?P = "at_payload K L"
  let ?g = "gap_length_of K (fds_block_count (drive L))"
  have g1: "1 \<le> ?g" by (rule gap_length_of_pos[OF g])
  have up: "fds_used_space (drive ?P) = fds_used_space (drive L) + ?g"
    by (rule at_payload_used[OF g])
  have c: "L' = block_head K L \<or> L' = ?P\<lparr>drive := rollback_gap ?g (drive ?P)\<rparr> \<or>
         (\<exists>bytes fp1 fs1. L' = refused ?g ?P bytes fp1 fs1)"
    using n[unfolded load_block_Break_iff] by (auto split: if_splits)
  have h: "fds_block_count (drive (block_head K L)) = fds_block_count (drive L)"
    "fds_used_space (drive (block_head K L)) = fds_used_space (drive L)"
    "fds_raw_data (drive (block_head K L)) = fds_raw_data (drive L)"
    "fds_block_offsets (drive (block_head K L))
       = (fds_block_offsets (drive L))(fds_block_count (drive L) := fds_used_space (drive L))"
    "fds_filename (drive (block_head K L)) = fds_filename (drive L)"
    "fds_side (drive (block_head K L)) = fds_side (drive L)"
    by (simp_all add: block_head_def)
  from c show "fds_block_count (drive L') = fds_block_count (drive L)"
    by (auto simp: h)
  from c show "fds_used_space (drive L') = fds_used_space (drive L)"
    by (auto simp: h up)
  from c g1 show "agree (fds_used_space (drive L)) (fds_raw_data (drive L')) (fds_raw_data (drive L))"
    by (auto simp: h up agree_def at_payload_raw_below store_bytes_def)
  from c show "agree (fds_block_count (drive L)) (fds_block_offsets (drive L'))
           (fds_block_offsets (drive L))"
    by (auto simp: h agree_def at_payload_fields)
  from c show "fds_filename (drive L') = fds_filename (drive L)"
    by (auto simp: h at_payload_fields)
  from c show "fds_side (drive L') = fds_side (drive L)"
    by (auto simp: h at_payload_fields)
qed

text \<open>An image that the loop accepts: its blocks lie in the buffer, and their
  payloads are the bytes of the file from the file pointer on, in order.\<close>

lemma load_loop_inv:
  assumes "gaps_ok K" and "blocks_below K (drive L)" and "load_loop K L = Some (Loaded L1)"
  shows "blocks_below K (drive L1) \<and>
         (\<exists>tail. side_bytes K (drive L1) 0 @ tail = side_bytes K (drive L) 0 @ rest L) \<and>
         fds_filename (drive L1) = fds_filename (drive L) \<and>
         fds_side (drive L1) = fds_side (drive L)"
  using assms
proof (induction K L rule: load_loop.induct)
  case (1 K L)
  show ?case
  proof (cases "load_block K L")
    case None
    with "1.prems"(3) show ?thesis by (simp add: load_loop.simps[of K L])
  next
    case (Some x)
    show ?thesis
    proof (cases x)
      case (Next L')
      with Some have n: "load_block K L = Some (Next L')" by simp
      note i = load_block_Next_inv[OF "1.prems"(1,2) n]
      from "1.prems"(3) have "load_loop K L' = Some (Loaded L1)"
        by (simp add: load_loop_Next[OF n])
      from "1.IH"[OF Some Next "1.prems"(1) i(1) this] show ?thesis
        by (simp add: i(2,3,4))
    next
      case (Break L')
      with Some have n: "load_block K L = Some (Break L')" by simp
      note i = load_block_Break_inv[OF "1.prems"(1) n]
      from "1.prems"(3) have e: "L1 = L'" by (simp add: load_loop_Break[OF n])
      have "blocks_below K (drive L')"
        by (rule blocks_below_agree[OF "1.prems"(2,1) i(1,2,3,4)])
      moreover have "side_bytes K (drive L') 0 = side_bytes K (drive L) 0"
        by (rule side_bytes_agree[OF "1.prems"(2,1) i(1,3,4)]) simp
      ultimately show ?thesis by (simp add: e i(5,6))
    next
      case (Return r L')
      with Some have "load_block K L = Some (Return r L')" by simp
      with "1.prems"(3) show ?thesis by (simp add: load_loop_Return)
    qed
  qed
qed

text \<open>Two loaders that the block loop cannot tell apart: the same bytes are left in
  their files, and their drives agree on the block index and on the buffer.\<close>

definition same_load :: "fds_consts \<Rightarrow> loader \<Rightarrow> loader \<Rightarrow> bool" where
  "same_load K L M \<longleftrightarrow>
     rest L = rest M \<and> min_blocks L = min_blocks M \<and>
     fds_used_space (drive L) = fds_used_space (drive M) \<and>
     fds_block_count (drive L) = fds_block_count (drive M) \<and>
     agree (FDS_MAX_SIDE_SIZE K) (fds_raw_data (drive L)) (fds_raw_data (drive M)) \<and>
     agree (fds_block_count (drive L)) (fds_block_offsets (drive L)) (fds_block_offsets (drive M))"

lemma same_loadD:
  assumes "same_load K L M"
  shows "rest L = rest M" and "min_blocks L = min_blocks M"
    and "fds_used_space (drive L) = fds_used_space (drive M)"
    and "fds_block_count (drive L) = fds_block_count (drive M)"
    and "agree (FDS_MAX_SIDE_SIZE K) (fds_raw_data (drive L)) (fds_raw_data (drive M))"
    and "agree (fds_block_count (drive L)) (fds_block_offsets (drive L))
           (fds_block_offsets (drive M))"
  using assms by (auto simp: same_load_def)

lemma block_head_fields:
  "lfs (block_head K L) = lfs L"
  "lfp (block_head K L) = lfp L"
  "fds_block_count (drive (block_head K L)) = fds_block_count (drive L)"
  "fds_used_space (drive (block_head K L)) = fds_used_space (drive L)"
  "fds_raw_data (drive (block_head K L)) = fds_raw_data (drive L)"
  "fds_block_offsets (drive (block_head K L))
     = (fds_block_offsets (drive L))(fds_block_count (drive L) := fds_used_space (drive L))"
  by (simp_all add: block_head_def)

lemma at_payload_raw:
  "fds_raw_data (drive (at_payload K L))
     = (\<lambda>a. if fds_used_space (drive L) \<le> a \<and>
               a < fds_used_space (drive L) + (gap_length_of K (fds_block_count (drive L)) - 1)
            then 0 else fds_raw_data (drive L) a)
       (fds_used_space (drive L) + max 0 (gap_length_of K (fds_block_count (drive L)) - 1)
          := 0x80)"
  by (simp add: at_payload_def with_gap_def block_head_def Let_def cong: if_cong)

text \<open>The start of a turn cannot tell them apart either.\<close>

lemma same_load_head:
  assumes s: "same_load K L M" and b: "blocks_below K (drive L)" and g: "gaps_ok K"
  shows "min_blocks (block_head K M) = min_blocks (block_head K L)"
    and "gap_overflows K (block_head K M) = gap_overflows K (block_head K L)"
    and "block_required (block_head K M) = block_required (block_head K L)"
    and "same_load K (block_head K L) (block_head K M)"
    and "same_load K (at_payload K L) (at_payload K M)"
    and "payload_size K (at_payload K M) = payload_size K (at_payload K L)"
    and "fds_block_offsets (drive (at_payload K L)) (fds_block_count (drive L))
           = fds_block_offsets (drive (at_payload K M)) (fds_block_count (drive L))"
proof -
  note d = same_loadD[OF s]
  show "fds_block_offsets (drive (at_payload K L)) (fds_block_count (drive L))
           = fds_block_offsets (drive (at_payload K M)) (fds_block_count (drive L))"
    using d(3,4) by (simp add: at_payload_fields)
  let ?n = "fds_block_count (drive L)"
  let ?u = "fds_used_space (drive L)"
  from b have um: "?u \<le> FDS_MAX_SIDE_SIZE K" and n0: "0 \<le> ?n" by (simp_all add: blocks_below_def)
  show m: "min_blocks (block_head K M) = min_blocks (block_head K L)"
  proof (cases "?n = 2")
    case False
    then show ?thesis using d(2,4) by (simp add: block_head_def)
  next
    case True
    then have i: "(0::int) \<le> 1" "1 < ?n" by simp_all
    from blocks_belowD[OF b i] g
    have "0 \<le> fds_block_offsets (drive L) 1 + next_gap K + 1"
      "fds_block_offsets (drive L) 1 + next_gap K + 1 < FDS_MAX_SIDE_SIZE K"
      using um by (simp_all add: payload_addr_gap gap_length_of_def fds_get_block_size_def gaps_ok_def)
    from agreeD[OF d(5) this] agreeD[OF d(6) i] True d(4) show ?thesis
      by (simp add: block_head_def)
  qed
  show "gap_overflows K (block_head K M) = gap_overflows K (block_head K L)"
    using d(3,4) by (simp add: gap_overflows_def block_head_fields)
  show "block_required (block_head K M) = block_required (block_head K L)"
    using d(4) m by (simp add: block_required_def block_head_fields)
  have r: "rest (block_head K L) = rest L" "rest (block_head K M) = rest M"
    by (simp_all add: rest_def block_head_fields)
  have o: "agree ?n ((fds_block_offsets (drive L))(?n := ?u)) ((fds_block_offsets (drive M))(?n := ?u))"
    by (rule agree_upd[OF d(6)])
  show "same_load K (block_head K L) (block_head K M)"
    unfolding same_load_def using d m o by (simp add: r block_head_fields)
  have "agree (FDS_MAX_SIDE_SIZE K) (fds_raw_data (drive (at_payload K L)))
          (fds_raw_data (drive (at_payload K M)))"
    using d(5) unfolding at_payload_raw d(3,4)[symmetric] by (simp add: agree_def)
  moreover have "fds_used_space (drive (at_payload K L)) = fds_used_space (drive (at_payload K M))"
    using d(3,4) by (simp add: at_payload_used[OF g])
  ultimately show "same_load K (at_payload K L) (at_payload K M)"
    unfolding same_load_def using d m o by (simp add: at_payload_fields)
  have rl: "agree ?u (fds_raw_data (drive (at_payload K M))) (fds_raw_data (drive L))"
    using d(3) agree_less[OF d(5) um]
    by (simp add: agree_def at_payload_raw_below)
  have ol: "agree ?n (fds_block_offsets (drive (at_payload K M))) (fds_block_offsets (drive L))"
    using d(4,6) by (simp add: agree_def at_payload_fields)
  have "payload_size K (at_payload K M)
          = fds_get_block_size K (drive L) ?n False False"
    unfolding payload_size_def at_payload_count d(4)[symmetric]
    by (rule block_size_agree[OF b g rl ol n0]) simp
  then show "payload_size K (at_payload K M) = payload_size K (at_payload K L)"
    by (simp add: payload_size_at_payload[OF g b])
qed


lemma agree_Suc: "agree n f g \<Longrightarrow> f n = g n \<Longrightarrow> agree (n + 1) f g"
  unfolding agree_def
proof (intro allI impI)
  fix a assume h: "\<forall>a. 0 \<le> a \<and> a < n \<longrightarrow> f a = g a" "f n = g n" "0 \<le> a \<and> a < n + 1"
  then show "f a = g a" by (cases "a = n") simp_all
qed

lemma read_block_fault:
  assumes "fds_used_space (drive P) + payload_size K P + 2 \<le> FDS_MAX_SIDE_SIZE K"
    and "block_read K P = (FR_DISK_ERR, bytes, fp1, fs1)"
  shows "\<exists>Q'. read_block K req g P = Some (Return FR_DISK_ERR Q')"
  using assms by (simp add: read_block_unfold fail_load_def Let_def)

lemma block_read_cases:
  "(\<exists>fp1 fs1. block_read K P = (FR_DISK_ERR, [], fp1, fs1)) \<or>
   (\<exists>bytes fp1 fs1. block_read K P = (FR_OK, bytes, fp1, fs1))"
  unfolding block_read_def by (rule f_read_cases)

lemma rest_refused:
  "block_read K P = (FR_OK, bytes, fp1, fs1) \<Longrightarrow>
   rest (refused g P bytes fp1 fs1) = drop (length bytes) (rest P)"
  using block_read_ok(2)[of K P bytes fp1 fs1] by (simp add: rest_def)

text \<open>The payload turn on two loaders that the loop cannot tell apart: the second
  does what the first does, unless its read fails.\<close>

lemma read_block_Next_follows:
  assumes s: "same_load K P Q" and z: "payload_size K Q = payload_size K P"
    and u0: "0 \<le> fds_used_space (drive P)"
    and on: "fds_block_offsets (drive P) (fds_block_count (drive P))
               = fds_block_offsets (drive Q) (fds_block_count (drive P))"
    and n: "read_block K req g P = Some (Next P')"
  shows "(\<exists>Q'. read_block K req g Q = Some (Next Q') \<and> same_load K P' Q') \<or>
         (\<exists>Q'. read_block K req g Q = Some (Return FR_DISK_ERR Q'))"
proof -
  note d = same_loadD[OF s]
  let ?u = "fds_used_space (drive P)"
  let ?z = "payload_size K P"
  from n[unfolded read_block_Next_iff] obtain bytes fp1 fs1 crc
    where fit: "?u + ?z + 2 \<le> FDS_MAX_SIDE_SIZE K"
      and rd: "block_read K P = (FR_OK, bytes, fp1, fs1)"
      and ok: "payload_ok K P bytes"
      and crc: "fds_crc (load_bytes (store_bytes (fds_raw_data (drive P)) ?u bytes) ?u ?z) = Some crc"
      and P': "P' = taken K P bytes fp1 fs1 crc"
    by blast
  have z0: "0 \<le> ?z" by (simp add: payload_size_def fds_get_block_size_nonneg)
  have fitq: "fds_used_space (drive Q) + payload_size K Q + 2 \<le> FDS_MAX_SIDE_SIZE K"
    using fit by (simp add: z d(3)[symmetric])
  from block_read_cases[of K Q] show ?thesis
  proof (elim disjE exE)
    fix fq fsq assume "block_read K Q = (FR_DISK_ERR, [], fq, fsq)"
    from read_block_fault[OF fitq this] show ?thesis by blast
  next
    fix bq fq fsq assume rq: "block_read K Q = (FR_OK, bq, fq, fsq)"
    have bq: "bq = bytes"
      using block_read_ok(1)[OF rq] block_read_ok(1)[OF rd] by (simp add: z d(1))
    note rq = rq[unfolded bq]
    let ?rp = "store_bytes (fds_raw_data (drive P)) ?u bytes"
    let ?rq = "store_bytes (fds_raw_data (drive Q)) ?u bytes"
    have a: "agree (FDS_MAX_SIDE_SIZE K) ?rp ?rq" by (rule agree_store_bytes[OF d(5)])
    have tag: "?rp ?u = ?rq ?u" using fit z0 u0 by (intro agreeD[OF a]) simp_all
    have sg: "load_bytes ?rp (?u + 1) 14 = load_bytes ?rq (?u + 1) 14"
      if "fds_block_count (drive P) = 0"
    proof -
      from that have "?z = 56" by (simp add: payload_size_def fds_get_block_size_def)
      with fit u0 show ?thesis by (intro agree_load_bytes[OF a]) simp_all
    qed
    have cr: "load_bytes ?rp ?u ?z = load_bytes ?rq ?u ?z"
      using fit u0 by (intro agree_load_bytes[OF a]) simp_all
    have okq: "payload_ok K Q bytes"
      using ok tag sg unfolding payload_ok_def z d(3,4)[symmetric] by auto
    have "read_block K req g Q = Some (Next (taken K Q bytes fq fsq crc))"
      unfolding read_block_Next_iff z d(3)[symmetric]
      using fit rq okq crc cr by simp
    moreover have "same_load K (taken K P bytes fp1 fs1 crc) (taken K Q bytes fq fsq crc)"
      unfolding same_load_def
    proof (intro conjI)
      show "rest (taken K P bytes fp1 fs1 crc) = rest (taken K Q bytes fq fsq crc)"
        by (simp add: rest_taken[OF rd] rest_taken[OF rq] d(1))
      show "agree (FDS_MAX_SIDE_SIZE K) (fds_raw_data (drive (taken K P bytes fp1 fs1 crc)))
              (fds_raw_data (drive (taken K Q bytes fq fsq crc)))"
        unfolding taken_fields z d(3)[symmetric] by (intro agree_upd a)
      show "agree (fds_block_count (drive (taken K P bytes fp1 fs1 crc)))
              (fds_block_offsets (drive (taken K P bytes fp1 fs1 crc)))
              (fds_block_offsets (drive (taken K Q bytes fq fsq crc)))"
        unfolding taken_fields by (rule agree_Suc[OF d(6) on])
    qed (simp_all add: d z d(6)[unfolded d(4)])
    ultimately show ?thesis unfolding P' by blast
  qed
qed

lemma read_block_Break_follows:
  assumes s: "same_load K P Q" and z: "payload_size K Q = payload_size K P"
    and u0: "0 \<le> fds_used_space (drive P)"
    and n: "read_block K req g P = Some (Break P')"
  shows "(\<exists>Q'. read_block K req g Q = Some (Break Q') \<and> same_load K P' Q') \<or>
         (\<exists>Q'. read_block K req g Q = Some (Return FR_DISK_ERR Q'))"
proof -
  note d = same_loadD[OF s]
  let ?u = "fds_used_space (drive P)"
  let ?z = "payload_size K P"
  from n have nr: "\<not> req" by (simp add: read_block_Break_iff)
  have z0: "0 \<le> ?z" by (simp add: payload_size_def fds_get_block_size_nonneg)
  show ?thesis
  proof (cases "?u + ?z + 2 > FDS_MAX_SIDE_SIZE K")
    case True
    with n have P': "P' = P\<lparr>drive := rollback_gap g (drive P)\<rparr>"
      by (simp add: read_block_Break_iff)
    have "read_block K req g Q = Some (Break (Q\<lparr>drive := rollback_gap g (drive Q)\<rparr>))"
      unfolding read_block_Break_iff z d(3)[symmetric] using True nr by simp
    moreover have "same_load K (P\<lparr>drive := rollback_gap g (drive P)\<rparr>)
                     (Q\<lparr>drive := rollback_gap g (drive Q)\<rparr>)"
      unfolding same_load_def using d agree_upd[OF d(5)] d(6)[unfolded d(4)]
      by (simp add: rest_def)
    ultimately show ?thesis unfolding P' by blast
  next
    case False
    then have fit: "?u + ?z + 2 \<le> FDS_MAX_SIDE_SIZE K" by simp
    from n False obtain bytes fp1 fs1
      where rd: "block_read K P = (FR_OK, bytes, fp1, fs1)"
        and nf: "\<not> framed K P bytes"
        and P': "P' = refused g P bytes fp1 fs1"
      by (auto simp: read_block_Break_iff)
    have fitq: "fds_used_space (drive Q) + payload_size K Q + 2 \<le> FDS_MAX_SIDE_SIZE K"
      using fit by (simp add: z d(3)[symmetric])
    from block_read_cases[of K Q] show ?thesis
    proof (elim disjE exE)
      fix fq fsq assume "block_read K Q = (FR_DISK_ERR, [], fq, fsq)"
      from read_block_fault[OF fitq this] show ?thesis by blast
    next
      fix bq fq fsq assume rq: "block_read K Q = (FR_OK, bq, fq, fsq)"
      have bq: "bq = bytes"
        using block_read_ok(1)[OF rq] block_read_ok(1)[OF rd] by (simp add: z d(1))
      note rq = rq[unfolded bq]
      let ?rp = "store_bytes (fds_raw_data (drive P)) ?u bytes"
      let ?rq = "store_bytes (fds_raw_data (drive Q)) ?u bytes"
      have a: "agree (FDS_MAX_SIDE_SIZE K) ?rp ?rq" by (rule agree_store_bytes[OF d(5)])
      have tag: "?rp ?u = ?rq ?u" using fit z0 u0 by (intro agreeD[OF a]) simp_all
      have nfq: "\<not> framed K Q bytes"
        using nf tag unfolding framed_def z d(3,4)[symmetric] by auto
      have "read_block K req g Q = Some (Break (refused g Q bytes fq fsq))"
        unfolding read_block_Break_iff z d(3)[symmetric]
        using fit rq nfq nr by simp
      moreover have "same_load K (refused g P bytes fp1 fs1) (refused g Q bytes fq fsq)"
        unfolding same_load_def
      proof (intro conjI)
        show "rest (refused g P bytes fp1 fs1) = rest (refused g Q bytes fq fsq)"
          by (simp add: rest_refused[OF rd] rest_refused[OF rq] d(1))
        show "agree (FDS_MAX_SIDE_SIZE K) (fds_raw_data (drive (refused g P bytes fp1 fs1)))
                (fds_raw_data (drive (refused g Q bytes fq fsq)))"
          unfolding refused_fields d(3)[symmetric] by (intro agree_upd a)
      qed (simp_all add: d z d(6)[unfolded d(4)])
      ultimately show ?thesis unfolding P' by blast
    qed
  qed
qed

text \<open>A whole turn on two such loaders.\<close>

lemma load_block_Next_follows:
  assumes s: "same_load K L M" and b: "blocks_below K (drive L)" and g: "gaps_ok K"
    and n: "load_block K L = Some (Next L')"
  shows "(\<exists>M'. load_block K M = Some (Next M') \<and> same_load K L' M') \<or>
         (\<exists>M'. load_block K M = Some (Return FR_DISK_ERR M'))"
proof -
  note h = same_load_head[OF s b g]
  note d = same_loadD[OF s]
  from n have no: "\<not> gap_overflows K (block_head K L)" by (simp add: load_block_Next_iff)
  then have nom: "\<not> gap_overflows K (block_head K M)" by (simp add: h(2))
  from b gap_length_of_pos[OF g, of "fds_block_count (drive L)"]
  have u0: "0 \<le> fds_used_space (drive (at_payload K L))"
    by (simp add: at_payload_used[OF g] blocks_below_def)
  have on: "fds_block_offsets (drive (at_payload K L)) (fds_block_count (drive (at_payload K L)))
              = fds_block_offsets (drive (at_payload K M)) (fds_block_count (drive (at_payload K L)))"
    using h(7) by simp
  from read_block_Next_follows[OF h(5,6) u0 on n[unfolded load_block_at_payload[OF no]]]
  show ?thesis
    unfolding load_block_at_payload[OF nom] h(3) d(4)[symmetric] .
qed

lemma load_block_Break_follows:
  assumes s: "same_load K L M" and b: "blocks_below K (drive L)" and g: "gaps_ok K"
    and n: "load_block K L = Some (Break L')"
  shows "(\<exists>M'. load_block K M = Some (Break M') \<and> same_load K L' M') \<or>
         (\<exists>M'. load_block K M = Some (Return FR_DISK_ERR M'))"
proof (cases "gap_overflows K (block_head K L)")
  case True
  note h = same_load_head[OF s b g]
  from n True have "L' = block_head K L" and "\<not> block_required (block_head K L)"
    by (simp_all add: load_block_Break_iff)
  moreover from this True have "load_block K M = Some (Break (block_head K M))"
    by (simp add: load_block_Break_iff h(2,3))
  ultimately show ?thesis using h(4) by blast
next
  case no: False
  note h = same_load_head[OF s b g]
  note d = same_loadD[OF s]
  from no have nom: "\<not> gap_overflows K (block_head K M)" by (simp add: h(2))
  from b gap_length_of_pos[OF g, of "fds_block_count (drive L)"]
  have u0: "0 \<le> fds_used_space (drive (at_payload K L))"
    by (simp add: at_payload_used[OF g] blocks_below_def)
  from read_block_Break_follows[OF h(5,6) u0 n[unfolded load_block_at_payload[OF no]]]
  show ?thesis
    unfolding load_block_at_payload[OF nom] h(3) d(4)[symmetric] .
qed

text \<open>The block loop on two such loaders: when both accept an image, it is the same
  image.\<close>

lemma load_loop_follows:
  assumes "gaps_ok K" and "blocks_below K (drive L)" and "same_load K L M"
    and "load_loop K L = Some (Loaded L1)" and "load_loop K M = Some (Loaded M1)"
  shows "same_load K L1 M1"
  using assms
proof (induction K L arbitrary: M rule: load_loop.induct)
  case (1 K L)
  show ?case
  proof (cases "load_block K L")
    case None
    with "1.prems"(4) show ?thesis by (simp add: load_loop.simps[of K L])
  next
    case (Some x)
    show ?thesis
    proof (cases x)
      case (Next L')
      with Some have n: "load_block K L = Some (Next L')" by simp
      note i = load_block_Next_inv[OF "1.prems"(1,2) n]
      from "1.prems"(4) have l: "load_loop K L' = Some (Loaded L1)"
        by (simp add: load_loop_Next[OF n])
      from load_block_Next_follows[OF "1.prems"(3,2,1) n] show ?thesis
      proof (elim disjE exE conjE)
        fix M' assume m: "load_block K M = Some (Next M')" and r: "same_load K L' M'"
        from "1.prems"(5) have "load_loop K M' = Some (Loaded M1)"
          by (simp add: load_loop_Next[OF m])
        from "1.IH"[OF Some Next "1.prems"(1) i(1) r l this] show ?thesis .
      next
        fix M' assume "load_block K M = Some (Return FR_DISK_ERR M')"
        with "1.prems"(5) show ?thesis by (simp add: load_loop_Return)
      qed
    next
      case (Break L')
      with Some have n: "load_block K L = Some (Break L')" by simp
      from "1.prems"(4) have e: "L1 = L'" by (simp add: load_loop_Break[OF n])
      from load_block_Break_follows[OF "1.prems"(3,2,1) n] show ?thesis
      proof (elim disjE exE conjE)
        fix M' assume m: "load_block K M = Some (Break M')" and r: "same_load K L' M'"
        from "1.prems"(5) have "M1 = M'" by (simp add: load_loop_Break[OF m])
        with r e show ?thesis by simp
      next
        fix M' assume "load_block K M = Some (Return FR_DISK_ERR M')"
        with "1.prems"(5) show ?thesis by (simp add: load_loop_Return)
      qed
    next
      case (Return r L')
      with Some have "load_block K L = Some (Return r L')" by simp
      with "1.prems"(4) show ?thesis by (simp add: load_loop_Return)
    qed
  qed
qed

text \<open>The block loop does not write to the volume, and fails with a code other than
  \<^verbatim>\<open>FR_OK\<close>.\<close>

lemma load_block_content:
  assumes "load_block K L = Some (Next L') \<or> load_block K L = Some (Break L')"
  shows "content (lfs L') = content (lfs L)"
  using assms
proof
  assume "load_block K L = Some (Next L')"
  then obtain bytes fp1 fs1 crc
    where "block_read K (at_payload K L) = (FR_OK, bytes, fp1, fs1)"
      and "L' = taken K (at_payload K L) bytes fp1 fs1 crc"
    unfolding load_block_Next_iff by blast
  then show ?thesis using block_read_ok(4)[of K "at_payload K L" bytes fp1 fs1]
    by (simp add: at_payload_fields)
next
  assume "load_block K L = Some (Break L')"
  then have "L' = block_head K L \<or>
      L' = (at_payload K L)\<lparr>drive := rollback_gap (gap_length_of K (fds_block_count (drive L)))
                                       (drive (at_payload K L))\<rparr> \<or>
      (\<exists>bytes fp1 fs1. block_read K (at_payload K L) = (FR_OK, bytes, fp1, fs1) \<and>
         L' = refused (gap_length_of K (fds_block_count (drive L))) (at_payload K L) bytes fp1 fs1)"
    unfolding load_block_Break_iff by (auto split: if_splits)
  then show ?thesis
    by (auto simp: block_head_fields at_payload_fields dest: block_read_ok(4))
qed

lemma read_block_Return:
  "read_block K req g P = Some (Return r L') \<Longrightarrow> r \<noteq> FR_OK"
proof -
  obtain fr bytes fp1 fs1 where b: "block_read K P = (fr, bytes, fp1, fs1)"
    by (metis prod_cases4)
  show "read_block K req g P = Some (Return r L') \<Longrightarrow> r \<noteq> FR_OK"
    unfolding read_block_unfold b Let_def fail_load_def
    by (auto split: if_splits option.splits)
qed

lemma load_block_Return:
  "load_block K L = Some (Return r L') \<Longrightarrow> r \<noteq> FR_OK"
  by (cases "gap_overflows K (block_head K L)")
    (auto simp: load_block_unfold fail_load_def at_payload_def[symmetric]
       split: if_splits dest: read_block_Return)

lemma load_loop_Loaded:
  assumes "load_loop K L = Some e" and "fst (finish_load K h e) = FR_OK"
  shows "\<exists>L1. e = Loaded L1 \<and> content (lfs L1) = content (lfs L)"
  using assms
proof (induction K L rule: load_loop.induct)
  case (1 K L)
  show ?case
  proof (cases "load_block K L")
    case None
    with "1.prems"(1) show ?thesis by (simp add: load_loop.simps[of K L])
  next
    case (Some x)
    show ?thesis
    proof (cases x)
      case (Next L')
      with Some have n: "load_block K L = Some (Next L')" by simp
      from "1.prems"(1) have "load_loop K L' = Some e" by (simp add: load_loop_Next[OF n])
      from "1.IH"[OF Some Next this "1.prems"(2)] load_block_content[of K L L'] n
      show ?thesis by simp
    next
      case (Break L')
      with Some have n: "load_block K L = Some (Break L')" by simp
      from "1.prems"(1) have "e = Loaded L'" by (simp add: load_loop_Break[OF n])
      with load_block_content[of K L L'] n show ?thesis by simp
    next
      case (Return r L')
      with Some have n: "load_block K L = Some (Return r L')" by simp
      from "1.prems"(1) have "e = Failed r L'" by (simp add: load_loop_Return[OF n])
      with "1.prems"(2) load_block_Return[OF n] show ?thesis by (simp add: finish_load_def)
    qed
  qed
qed

text \<open>A seek in a file opened for reading.\<close>

lemma f_lseek_read_ok:
  assumes "f_lseek fs fp ofs = (FR_OK, fp1, fs1)" and "fmode fp = FA_READ"
  shows "fname fp1 = fname fp" and "content fs1 = content fs"
    and "drop (fptr fp1) (content fs (fname fp)) = drop ofs (content fs (fname fp))"
proof -
  obtain f fs0 where nf: "next_fault fs = (f, fs0)" by (cases "next_fault fs") auto
  note c = next_fault_content[OF nf]
  from assms nf have "\<not> f" by (auto simp: f_lseek_def Let_def split: if_splits)
  with assms nf
  have e: "fp1 = fp\<lparr>fptr := min ofs (length (content fs (fname fp)))\<rparr>" "fs1 = fs0"
    by (auto simp: f_lseek_def Let_def c min_def split: if_splits)
  show "fname fp1 = fname fp" "content fs1 = content fs" using e c by simp_all
  show "drop (fptr fp1) (content fs (fname fp)) = drop ofs (content fs (fname fp))"
    using e(1) by (simp add: min_def)
qed

text \<open>The loader at the start of the block loop: an empty image over an erased
  buffer.\<close>

definition fresh :: "fds_consts \<Rightarrow> string \<Rightarrow> u8 \<Rightarrow> loader \<Rightarrow> bool" where
  "fresh K name side L \<longleftrightarrow>
     min_blocks L = 0 \<and> fds_used_space (drive L) = 0 \<and> fds_block_count (drive L) = 0 \<and>
     fds_filename (drive L) = strlcpy K name \<and> fds_side (drive L) = side \<and>
     (\<forall>a. 0 \<le> a \<and> a < FDS_MAX_SIDE_SIZE K \<longrightarrow> fds_raw_data (drive L) a = 0)"

text \<open>The state that \<^verbatim>\<open>fds_load_side\<close> returns after the loop accepted the image of
  loader \<open>L\<close>.\<close>

definition loaded_drive :: "fds_consts \<Rightarrow> host \<Rightarrow> loader \<Rightarrow> fds" where
  "loaded_drive K h L = snd (snd (finish_load K h (Loaded L)))"

text \<open>A load that succeeds, without Everdrive-style saves, read the file it was given
  from the offset of the side on.\<close>

lemma fds_load_side_ok:
  assumes ok: "fds_load_side K h fs name side ro s = Some (FR_OK, fs', s')"
    and ip: "backup_original h \<noteq> SAVES_EVERDRIVE"
  shows "\<exists>L0 L1.
           fresh K name side L0 \<and>
           rest L0 = drop (side_offset (length (content fs name)) side) (content fs name) \<and>
           (int (length (content fs name)) mod FDS_ROM_SIDE_SIZE = 0 \<or>
            int (length (content fs name)) mod FDS_ROM_SIDE_SIZE = 16) \<and>
           load_loop K L0 = Some (Loaded L1) \<and>
           content fs' = content fs \<and>
           s' = loaded_drive K h L1"
proof -
  let ?s2 = "(fds_reset_reading h (close_drive s))\<lparr>FDS_READY_Pin := GPIO_PIN_SET,
                 FDS_MEDIA_SET_Pin := GPIO_PIN_RESET,
                 fds_readonly := ro,
                 FDS_WRITABLE_MEDIA_Pin := (if ro \<noteq> 0 then GPIO_PIN_SET else GPIO_PIN_RESET),
                 fds_not_ready_time := HAL_GetTick h,
                 fds_filename := strlcpy K name,
                 fds_side := side\<rparr>"
  obtain fr fp fs1 where o: "f_open fs name FA_READ = (fr, fp, fs1)"
    by (cases "f_open fs name FA_READ") auto
  let ?n = "length (content fs1 (fname fp))"
  obtain fr2 fp2 fs2 where sk: "f_lseek fs1 fp (side_offset ?n side) = (fr2, fp2, fs2)"
    by (cases "f_lseek fs1 fp (side_offset ?n side)") auto
  let ?L0 = "\<lparr>lfs = fs2, lfp = fp2, min_blocks = 0,
              drive = ?s2\<lparr>fds_raw_data := erase_tail K 0 (fds_raw_data ?s2)\<rparr>\<rparr>"
  from ok ip o sk
  have r: "fr = FR_OK" "fr2 = FR_OK"
    and m: "int ?n mod FDS_ROM_SIDE_SIZE = 0 \<or> int ?n mod FDS_ROM_SIDE_SIZE = 16"
    and lf: "load_from K h ?L0 = Some (FR_OK, fs', s')"
    unfolding fds_load_side_def open_rom_def Let_def
    by (auto split: if_splits)
  from f_open_ok[OF o[unfolded r]]
  have fp: "fp = \<lparr>fname = name, fptr = 0, fmode = FA_READ\<rparr>" and f1: "files fs1 = files fs"
    by simp_all
  have c1: "content fs1 = content fs" by (rule ext) (simp add: content_def f1)
  have md: "fmode fp = FA_READ" and nm: "fname fp = name" by (simp_all add: fp)
  note q = f_lseek_read_ok[OF sk[unfolded r] md]
  from lf obtain e where l: "load_loop K ?L0 = Some e" and fe: "finish_load K h e = (FR_OK, fs', s')"
    by (auto simp: load_from_def)
  from fe have "fst (finish_load K h e) = FR_OK" by simp
  from load_loop_Loaded[OF l this] obtain L1
    where e: "e = Loaded L1" and cL: "content (lfs L1) = content (lfs ?L0)" by blast
  have "fresh K name side ?L0"
    by (simp add: fresh_def erase_tail_def)
  moreover have "rest ?L0 = drop (side_offset (length (content fs name)) side) (content fs name)"
    using q by (simp add: rest_def nm c1)
  moreover have "content fs' = content fs"
  proof -
    from fe have "fs' = snd (f_close (lfs L1) (lfp L1))" by (simp add: e finish_load_def)
    then have "files fs' = files (lfs L1)"
      using f_close_files[of "lfs L1" "lfp L1"] by (metis prod.collapse)
    then have "content fs' = content (lfs L1)" by (simp add: content_def fun_eq_iff)
    with cL q(2) c1 show ?thesis by simp
  qed
  moreover have "s' = loaded_drive K h L1" using fe by (simp add: loaded_drive_def e)
  ultimately show ?thesis using m l e by (auto simp: nm c1)
qed


lemma loaded_drive_image:
  assumes "FDS_SCAN_MEDIA_Pin h = GPIO_PIN_SET \<or> FDS_WRITE_Pin h = GPIO_PIN_SET"
  shows "same_image (loaded_drive K h L) (drive L)"
proof -
  let ?t = "(drive L)\<lparr>fds_state :=
                (if FDS_SCAN_MEDIA_Pin h = GPIO_PIN_RESET \<and> rewind_speed h = REWIND_SPEED_TURBO
                 then FDS_READ_WAIT_READY_TIMER else FDS_IDLE)\<rparr>"
  have "same_image (fds_check_pins K h ?t) ?t" by (rule fds_check_pins_image[OF assms])
  moreover have "same_image ?t (drive L)" by (simp add: same_image_def)
  ultimately show ?thesis
    unfolding loaded_drive_def finish_load_def by (simp add: same_image_def)
qed

text \<open>The offset of a side, as the save computes it, in a file that the load
  accepts.\<close>

lemma side_offset_save:
  assumes "int n mod FDS_ROM_SIDE_SIZE = 0 \<or> int n mod FDS_ROM_SIDE_SIZE = 16"
  shows "nat (int n mod FDS_ROM_SIDE_SIZE + uint side * FDS_ROM_SIDE_SIZE) = side_offset n side"
  using assms by (auto simp: side_offset_def FDS_ROM_HEADER_SIZE_def)

text \<open>A file that was grown up to the offset of a side, at most, ends before that
  side also when its new length is taken.\<close>

lemma side_offset_grown:
  assumes m: "int n mod FDS_ROM_SIDE_SIZE = 0 \<or> int n mod FDS_ROM_SIDE_SIZE = 16"
    and m': "int n' mod FDS_ROM_SIDE_SIZE = 0 \<or> int n' mod FDS_ROM_SIDE_SIZE = 16"
    and le: "n' \<le> side_offset n side"
  shows "n' \<le> side_offset n' side"
proof (cases "int n' \<le> uint side * FDS_ROM_SIDE_SIZE")
  case True
  have "0 \<le> uint side * FDS_ROM_SIDE_SIZE" by (simp add: FDS_ROM_SIDE_SIZE_def)
  with True show ?thesis by (auto simp: side_offset_def FDS_ROM_HEADER_SIZE_def le_nat_iff)
next
  case False
  let ?S = "uint side * FDS_ROM_SIDE_SIZE"
  have S0: "0 \<le> ?S" by (simp add: FDS_ROM_SIDE_SIZE_def)
  from le S0 have "int n' \<le> ?S + 16"
    by (auto simp: side_offset_def FDS_ROM_HEADER_SIZE_def le_nat_iff split: if_splits)
  with False have d: "0 < int n' - ?S" "int n' - ?S \<le> 16" by simp_all
  have "int n' mod FDS_ROM_SIDE_SIZE = (int n' - ?S) mod FDS_ROM_SIDE_SIZE"
    by (simp add: mod_diff_right_eq[symmetric])
  also have "\<dots> = int n' - ?S" using d by (simp add: FDS_ROM_SIDE_SIZE_def)
  finally have "int n' mod FDS_ROM_SIDE_SIZE = int n' - ?S" .
  with m' d have "int n' mod FDS_ROM_SIDE_SIZE = 16" "int n' = ?S + 16" by auto
  moreover have "0 \<le> ?S" by (simp add: FDS_ROM_SIDE_SIZE_def)
  ultimately show ?thesis by (simp add: side_offset_def FDS_ROM_HEADER_SIZE_def le_nat_iff)
qed

text \<open>A save in place of an image whose payloads are the bytes of its side in the
  file leaves to the next load the bytes that the last load had.\<close>

lemma save_keeps_side:
  assumes sv: "fds_save K h fs t = Some (FR_OK, fs', t')"
    and ch: "fds_changed t \<noteq> 0" and ip: "backup_original h = SAVES_IN_PLACE"
    and m: "int (length (content fs (fds_filename t))) mod FDS_ROM_SIDE_SIZE = 0 \<or>
            int (length (content fs (fds_filename t))) mod FDS_ROM_SIDE_SIZE = 16"
    and m': "int (length (content fs' (fds_filename t))) mod FDS_ROM_SIDE_SIZE = 0 \<or>
             int (length (content fs' (fds_filename t))) mod FDS_ROM_SIDE_SIZE = 16"
    and pre: "side_bytes K t 0 @ tail
                = drop (side_offset (length (content fs (fds_filename t))) (fds_side t))
                    (content fs (fds_filename t))"
  shows "drop (side_offset (length (content fs' (fds_filename t))) (fds_side t))
           (content fs' (fds_filename t))
         = drop (side_offset (length (content fs (fds_filename t))) (fds_side t))
             (content fs (fds_filename t))"
proof -
  let ?F = "fds_filename t"
  let ?c = "content fs ?F"
  let ?c' = "content fs' ?F"
  let ?sb = "side_bytes K t 0"
  let ?tt = "side_offset (length ?c) (fds_side t)"
  from sv ch ip have w: "write_image K h fs [] t = (FR_OK, fs', t')"
    unfolding fds_save_def by (auto simp: prepare_backup_in_place split: if_splits option.splits bool.splits)
  have dn: "dest_name h [] t = ?F" using ip by (simp add: dest_name_def)
  note wc = write_image_content[OF w, unfolded dn]
  have tg: "nat (int (length ?c) mod FDS_ROM_SIDE_SIZE + uint (fds_side t) * FDS_ROM_SIDE_SIZE) = ?tt"
    by (rule side_offset_save[OF m])
  show ?thesis
  proof (cases "?tt \<le> length ?c")
    case True
    then have a: "after_seek fs ?F (fds_side t) = (?tt, ?c)"
      by (simp add: after_seek_def Let_def tg)
    have "drop (?tt + length ?sb) ?c = drop (length ?sb) (drop ?tt ?c)"
      by (simp add: add.commute)
    also have "\<dots> = tail" unfolding pre[symmetric] by simp
    finally have "?c' = take ?tt ?c @ ?sb @ tail" using wc by (simp add: a)
    also have "\<dots> = ?c" unfolding pre by simp
    finally show ?thesis by simp
  next
    case False
    then have e: "drop ?tt ?c = []" by simp
    with pre have sb: "?sb = []" by simp
    let ?g = "min (?tt - length ?c) (room fs)"
    from False have a: "after_seek fs ?F (fds_side t)
                          = (length ?c + ?g, ?c @ replicate ?g (filler fs))"
      by (simp add: after_seek_def Let_def tg)
    from wc have c': "?c' = ?c @ replicate ?g (filler fs)" by (simp add: a sb)
    then have "length ?c' \<le> ?tt" using False by simp
    from side_offset_grown[OF m m' this] show ?thesis by (simp add: e)
  qed
qed

text \<open>The payload of a block with the two CRC bytes behind it.\<close>

definition block_with_crc :: "fds_consts \<Rightarrow> fds \<Rightarrow> int \<Rightarrow> u8 list" where
  "block_with_crc K s i =
     load_bytes (fds_raw_data s) (payload_addr K s i) (fds_get_block_size K s i False False + 2)"

text \<open>Two drives hold the same blocks: as many, at the same offsets, with the same
  payload and CRC bytes, in buffers that agree from 0 to \<^verbatim>\<open>FDS_MAX_SIDE_SIZE\<close>.\<close>

definition same_blocks :: "fds_consts \<Rightarrow> fds \<Rightarrow> fds \<Rightarrow> bool" where
  "same_blocks K s t \<longleftrightarrow>
     fds_block_count s = fds_block_count t \<and> fds_used_space s = fds_used_space t \<and>
     (\<forall>i. 0 \<le> i \<and> i < fds_block_count t \<longrightarrow>
        fds_block_offsets s i = fds_block_offsets t i \<and>
        fds_get_block_size K s i False False = fds_get_block_size K t i False False \<and>
        block_with_crc K s i = block_with_crc K t i) \<and>
     agree (FDS_MAX_SIDE_SIZE K) (fds_raw_data s) (fds_raw_data t)"

lemma same_load_blocks:
  assumes s: "same_load K L M" and b: "blocks_below K (drive L)" and g: "gaps_ok K"
  shows "same_blocks K (drive M) (drive L)"
proof -
  note d = same_loadD[OF s]
  from b have um: "fds_used_space (drive L) \<le> FDS_MAX_SIDE_SIZE K" by (simp add: blocks_below_def)
  have r: "agree (FDS_MAX_SIDE_SIZE K) (fds_raw_data (drive M)) (fds_raw_data (drive L))"
    by (rule agree_sym[OF d(5)])
  have o: "agree (fds_block_count (drive L)) (fds_block_offsets (drive M))
             (fds_block_offsets (drive L))"
    by (rule agree_sym[OF d(6)])
  have "fds_block_offsets (drive M) i = fds_block_offsets (drive L) i \<and>
        fds_get_block_size K (drive M) i False False = fds_get_block_size K (drive L) i False False \<and>
        block_with_crc K (drive M) i = block_with_crc K (drive L) i"
    if i: "0 \<le> i" "i < fds_block_count (drive L)" for i
  proof -
    from i have i': "i \<le> fds_block_count (drive L)" by simp
    have e: "fds_block_offsets (drive M) i = fds_block_offsets (drive L) i"
      by (rule agreeD[OF o i])
    have z: "fds_get_block_size K (drive M) i False False
               = fds_get_block_size K (drive L) i False False"
      by (rule block_size_agree[OF b g agree_less[OF r um] o i(1) i'])
    from blocks_belowD[OF b i] gap_length_of_pos[OF g, of i] um
    have p: "0 \<le> payload_addr K (drive L) i"
      "payload_addr K (drive L) i + (fds_get_block_size K (drive L) i False False + 2)
         \<le> FDS_MAX_SIDE_SIZE K"
      by (simp_all add: payload_addr_gap)
    have "block_with_crc K (drive M) i = block_with_crc K (drive L) i"
      unfolding block_with_crc_def z payload_addr_gap e
      by (rule agree_load_bytes[OF r p[unfolded payload_addr_gap]])
    with e z show ?thesis by simp
  qed
  then show ?thesis unfolding same_blocks_def using d(3,4) r by simp
qed

lemma same_blocks_image:
  assumes "same_image s s'" and "same_image t t'" and "same_blocks K s' t'"
  shows "same_blocks K s t"
proof -
  from assms(1) have s: "fds_block_count s = fds_block_count s'" "fds_used_space s = fds_used_space s'"
    "fds_block_offsets s = fds_block_offsets s'" "fds_raw_data s = fds_raw_data s'"
    by (simp_all add: same_image_def)
  from assms(2) have t: "fds_block_count t = fds_block_count t'" "fds_used_space t = fds_used_space t'"
    "fds_block_offsets t = fds_block_offsets t'" "fds_raw_data t = fds_raw_data t'"
    by (simp_all add: same_image_def)
  have z: "fds_get_block_size K s i x y = fds_get_block_size K s' i x y"
    "fds_get_block_size K t i x y = fds_get_block_size K t' i x y" for i x y
    by (simp_all add: fds_get_block_size_def s t)
  from assms(3) show ?thesis
    unfolding same_blocks_def block_with_crc_def payload_addr_def z s t .
qed

lemma fresh_blocks_below:
  "fresh K name side L \<Longrightarrow> 0 \<le> FDS_MAX_SIDE_SIZE K \<Longrightarrow> blocks_below K (drive L)"
  by (simp add: fresh_def blocks_below_def)

lemma fresh_side_bytes: "fresh K name side L \<Longrightarrow> side_bytes K (drive L) 0 = []"
  by (simp add: fresh_def side_bytes.simps[of K "drive L" 0])

lemma fresh_same_load:
  assumes "fresh K name side L" and "fresh K name side M" and "rest L = rest M"
  shows "same_load K L M"
  using assms by (simp add: fresh_def same_load_def agree_def)

text \<open>
  An image that is saved as it was loaded. The buffer is not empty and both gaps are at
  least one byte long; the name of the file fits \<^verbatim>\<open>fds_filename\<close>; the saves are in
  place; the host is not writing when a load ends. Then a load of side \<open>side\<close> of the
  file that succeeds, a save that succeeds of a drive \<open>t\<close> that holds the loaded image
  and is dirty, and a load of the same side of the same file that succeeds give a drive
  with the blocks of the first load, and a buffer that agrees with that of the first load
  from 0 to \<^verbatim>\<open>FDS_MAX_SIDE_SIZE\<close>.
\<close>

lemma reload_of_unchanged_image:
  assumes g: "gaps_ok K" and mx: "0 \<le> FDS_MAX_SIDE_SIZE K"
    and nm: "length name \<le> FF_MAX_LFN K"
    and ip: "backup_original h1 = SAVES_IN_PLACE" "backup_original h2 = SAVES_IN_PLACE"
      "backup_original h3 = SAVES_IN_PLACE"
    and q1: "FDS_SCAN_MEDIA_Pin h1 = GPIO_PIN_SET \<or> FDS_WRITE_Pin h1 = GPIO_PIN_SET"
    and q3: "FDS_SCAN_MEDIA_Pin h3 = GPIO_PIN_SET \<or> FDS_WRITE_Pin h3 = GPIO_PIN_SET"
    and l1: "fds_load_side K h1 fs name side ro s0 = Some (FR_OK, fs1, s1)"
    and im: "same_image t s1" and ch: "fds_changed t \<noteq> 0"
    and sv: "fds_save K h2 fs1 t = Some (FR_OK, fs2, t')"
    and l3: "fds_load_side K h3 fs2 name side ro' t' = Some (FR_OK, fs3, s3)"
  shows "same_blocks K s3 s1"
proof -
  have ne: "backup_original h1 \<noteq> SAVES_EVERDRIVE" "backup_original h3 \<noteq> SAVES_EVERDRIVE"
    by (simp_all add: ip)
  have sl: "strlcpy K name = name" using nm by (simp add: strlcpy_def)
  from fds_load_side_ok[OF l1 ne(1)] obtain L0 L1
    where f0: "fresh K name side L0"
      and r0: "rest L0 = drop (side_offset (length (content fs name)) side) (content fs name)"
      and m0: "int (length (content fs name)) mod FDS_ROM_SIDE_SIZE = 0 \<or>
               int (length (content fs name)) mod FDS_ROM_SIDE_SIZE = 16"
      and ll: "load_loop K L0 = Some (Loaded L1)"
      and c1: "content fs1 = content fs" and s1: "s1 = loaded_drive K h1 L1"
    by (elim exE conjE) (rule that)
  from fds_load_side_ok[OF l3 ne(2)] obtain M0 M1
    where f2: "fresh K name side M0"
      and r2: "rest M0 = drop (side_offset (length (content fs2 name)) side) (content fs2 name)"
      and m2: "int (length (content fs2 name)) mod FDS_ROM_SIDE_SIZE = 0 \<or>
               int (length (content fs2 name)) mod FDS_ROM_SIDE_SIZE = 16"
      and lm: "load_loop K M0 = Some (Loaded M1)"
      and s3: "s3 = loaded_drive K h3 M1"
    by (elim exE conjE) (rule that)
  note b0 = fresh_blocks_below[OF f0 mx]
  from load_loop_inv[OF g b0 ll] obtain tail
    where b1: "blocks_below K (drive L1)"
      and sb: "side_bytes K (drive L1) 0 @ tail = side_bytes K (drive L0) 0 @ rest L0"
      and fn: "fds_filename (drive L1) = fds_filename (drive L0)"
      and sd: "fds_side (drive L1) = fds_side (drive L0)"
    by blast
  have i1: "same_image s1 (drive L1)" unfolding s1 by (rule loaded_drive_image[OF q1])
  have i3: "same_image s3 (drive M1)" unfolding s3 by (rule loaded_drive_image[OF q3])
  have it: "same_image t (drive L1)" by (rule same_image_trans[OF im i1])
  have tn: "fds_filename t = name" "fds_side t = side"
    using it fn sd f0 by (simp_all add: same_image_def fresh_def sl)
  have ts: "side_bytes K t 0 = side_bytes K (drive L1) 0"
    by (rule same_image_side_bytes[OF it])
  have pre: "side_bytes K t 0 @ tail
               = drop (side_offset (length (content fs1 (fds_filename t))) (fds_side t))
                   (content fs1 (fds_filename t))"
    using sb by (simp add: ts tn c1 r0 fresh_side_bytes[OF f0])
  have "drop (side_offset (length (content fs2 (fds_filename t))) (fds_side t))
          (content fs2 (fds_filename t))
        = drop (side_offset (length (content fs1 (fds_filename t))) (fds_side t))
            (content fs1 (fds_filename t))"
    by (rule save_keeps_side[OF sv ch ip(2) _ _ pre]) (simp_all add: tn c1 m0 m2)
  then have "rest L0 = rest M0" by (simp add: tn c1 r0 r2)
  from load_loop_follows[OF g b0 fresh_same_load[OF f0 f2 this] ll lm]
  have "same_load K L1 M1" .
  from same_load_blocks[OF this b1 g] have "same_blocks K (drive M1) (drive L1)" .
  from same_blocks_image[OF i3 i1 this] show ?thesis .
qed


section \<open>A loaded image passes the CRC guard of the save\<close>

definition crcs_ok :: "fds_consts \<Rightarrow> fds \<Rightarrow> bool" where
  "crcs_ok K s \<longleftrightarrow>
     (\<forall>i. 0 \<le> i \<and> i < fds_block_count s \<longrightarrow>
        (\<exists>c. fds_crc (block_payload K s i) = Some c \<and> stored_crc K s i = uint c))"

lemma crcs_ok_agree:
  assumes k: "crcs_ok K s" and b: "blocks_below K s" and g: "gaps_ok K"
    and c: "fds_block_count t = fds_block_count s"
    and r: "agree (fds_used_space s) (fds_raw_data t) (fds_raw_data s)"
    and o: "agree (fds_block_count s) (fds_block_offsets t) (fds_block_offsets s)"
  shows "crcs_ok K t"
  unfolding crcs_ok_def
proof (intro allI impI)
  fix i assume "0 \<le> i \<and> i < fds_block_count t"
  then have i: "0 \<le> i" "i < fds_block_count s" by (simp_all add: c)
  from k i show "\<exists>c. fds_crc (block_payload K t i) = Some c \<and> stored_crc K t i = uint c"
    by (simp add: crcs_ok_def block_payload_agree[OF b g r o i])
qed

lemma load_block_Next_crcs:
  assumes g: "gaps_ok K" and b: "blocks_below K (drive L)" and k: "crcs_ok K (drive L)"
    and n: "load_block K L = Some (Next L')"
  shows "crcs_ok K (drive L')"
  unfolding crcs_ok_def
proof (intro allI impI)
  note v = load_block_Next_inv[OF g b n]
  fix i assume "0 \<le> i \<and> i < fds_block_count (drive L')"
  then have i: "0 \<le> i" "i \<le> fds_block_count (drive L)" by (simp_all add: v(5))
  show "\<exists>c. fds_crc (block_payload K (drive L') i) = Some c \<and> stored_crc K (drive L') i = uint c"
  proof (cases "i = fds_block_count (drive L)")
    case True
    then show ?thesis using v(8) by simp
  next
    case False
    with i have l: "i < fds_block_count (drive L)" by simp
    from k i(1) l show ?thesis
      by (simp add: crcs_ok_def block_payload_agree[OF b g v(6,7) i(1) l])
  qed
qed

lemma load_loop_crcs:
  assumes "gaps_ok K" and "blocks_below K (drive L)" and "crcs_ok K (drive L)"
    and "load_loop K L = Some (Loaded L1)"
  shows "crcs_ok K (drive L1)"
  using assms
proof (induction K L rule: load_loop.induct)
  case (1 K L)
  show ?case
  proof (cases "load_block K L")
    case None
    with "1.prems"(4) show ?thesis by (simp add: load_loop.simps[of K L])
  next
    case (Some x)
    show ?thesis
    proof (cases x)
      case (Next L')
      with Some have n: "load_block K L = Some (Next L')" by simp
      note i = load_block_Next_inv[OF "1.prems"(1,2) n]
      from "1.prems"(4) have "load_loop K L' = Some (Loaded L1)"
        by (simp add: load_loop_Next[OF n])
      from "1.IH"[OF Some Next "1.prems"(1) i(1) load_block_Next_crcs[OF "1.prems"(1,2,3) n] this]
      show ?thesis .
    next
      case (Break L')
      with Some have n: "load_block K L = Some (Break L')" by simp
      note i = load_block_Break_inv[OF "1.prems"(1) n]
      from "1.prems"(4) have e: "L1 = L'" by (simp add: load_loop_Break[OF n])
      show ?thesis unfolding e
        by (rule crcs_ok_agree[OF "1.prems"(3,2,1) i(1,3,4)])
    next
      case (Return r L')
      with Some have "load_block K L = Some (Return r L')" by simp
      with "1.prems"(4) show ?thesis by (simp add: load_loop_Return)
    qed
  qed
qed

lemma crcs_ok_check:
  assumes "crcs_ok K s" and "0 \<le> i"
  shows "check_crcs K s i = Some True"
  using assms(2)
proof (induction "nat (fds_block_count s - i)" arbitrary: i)
  case 0
  then show ?case by (simp add: check_crcs_unfold[of K s i])
next
  case (Suc n)
  then have l: "i < fds_block_count s" and n: "n = nat (fds_block_count s - (i + 1))"
    and p: "0 \<le> i + 1" by simp_all
  from assms(1) Suc.prems l obtain c
    where "fds_crc (block_payload K s i) = Some c" "stored_crc K s i = uint c"
    by (auto simp: crcs_ok_def)
  with Suc.hyps(1)[OF n p] show ?case by (simp add: check_crcs_unfold[of K s i] l)
qed

lemma crcs_ok_image:
  assumes "same_image t s" and "crcs_ok K s"
  shows "crcs_ok K t"
proof -
  from assms(1) have e: "fds_block_count t = fds_block_count s"
    "fds_block_offsets t = fds_block_offsets s" "fds_raw_data t = fds_raw_data s"
    by (simp_all add: same_image_def)
  have z: "fds_get_block_size K t i x y = fds_get_block_size K s i x y" for i x y
    by (simp add: fds_get_block_size_def e)
  from assms(2) show ?thesis
    unfolding crcs_ok_def block_payload_def stored_crc_def payload_addr_def z e .
qed

section \<open>A disk image with one block\<close>

text \<open>A volume without faults, and on it a file of one side that holds a disk-info
  block and zeros behind it.\<close>

definition header_block :: "u8 list" where
  "header_block = 1 # signature @ replicate 41 0"

definition disk_image :: "u8 list" where
  "disk_image = header_block @ replicate 65444 0"

definition disk_volume :: storage where
  "disk_volume = sample_volume\<lparr>files := (\<lambda>name. None)(''game.fds'' \<mapsto> disk_image)\<rparr>"

lemma length_header_block: "length header_block = 56"
  by (simp add: header_block_def signature_def)

lemma length_disk_image: "length disk_image = 65500"
  by (simp add: disk_image_def length_header_block)

lemma next_fault_none: "faults fs = [] \<Longrightarrow> next_fault fs = (False, fs)"
  by (simp add: next_fault_def)

lemma block_read_no_fault:
  assumes "faults (lfs P) = []"
  shows "block_read K P =
           (FR_OK, take (nat (payload_size K P)) (rest P),
            (lfp P)\<lparr>fptr := fptr (lfp P) + length (take (nat (payload_size K P)) (rest P))\<rparr>,
            lfs P)"
  by (simp add: block_read_def f_read_def next_fault_none[OF assms] Let_def rest_def)

lemma load_bytes_store_sub:
  assumes "k + n \<le> length bs"
  shows "load_bytes (store_bytes raw p bs) (p + int k) (int n) = take n (drop k bs)"
proof (rule nth_equalityI)
  show "length (load_bytes (store_bytes raw p bs) (p + int k) (int n)) = length (take n (drop k bs))"
    using assms by simp
next
  fix i assume "i < length (load_bytes (store_bytes raw p bs) (p + int k) (int n))"
  then have "i < n" by simp
  with assms show "load_bytes (store_bytes raw p bs) (p + int k) (int n) ! i = take n (drop k bs) ! i"
    by (simp add: load_bytes_def store_bytes_def add.commute nat_add_distrib)
qed

lemma sample_gaps:
  "gaps_ok sample_consts" "FDS_MAX_SIDE_SIZE sample_consts = 81920"
  "gap_length_of sample_consts 0 = 3537" "gap_length_of sample_consts 1 = 122"
  by (simp_all add: gaps_ok_def gap_length_of_def first_gap_def next_gap_def sample_consts_def)

text \<open>The block loop on that file: it takes the disk-info block and stops at the zeros,
  that are no file-amount block.\<close>

lemma header_loop:
  assumes f: "fresh sample_consts name side L" and nf: "faults (lfs L) = []"
    and r: "rest L = disk_image"
  shows "\<exists>L2. load_loop sample_consts L = Some (Loaded L2) \<and> lfs L2 = lfs L \<and>
              fds_block_count (drive L2) = 1 \<and>
              fds_readonly (drive L2) = fds_readonly (drive L)"
proof -
  let ?K = sample_consts
  note g = sample_gaps(1)
  from f have cnt: "fds_block_count (drive L) = 0" and usd: "fds_used_space (drive L) = 0"
    and mb: "min_blocks L = 0" by (simp_all add: fresh_def)
  define P where "P = at_payload ?K L"
  have cP: "fds_block_count (drive P) = 0" by (simp add: P_def cnt)
  have uP: "fds_used_space (drive P) = 3537"
    by (simp add: P_def at_payload_used[OF g] cnt usd sample_gaps)
  have zP: "payload_size ?K P = 56"
    by (simp add: payload_size_def cP fds_get_block_size_def)
  have fP: "lfs P = lfs L" "rest P = disk_image" "min_blocks P = 0"
    by (simp_all add: P_def r at_payload_fields block_head_def cnt mb)
  have oP: "fds_readonly (drive P) = fds_readonly (drive L)"
    by (simp add: P_def at_payload_def with_gap_def block_head_def Let_def)
  have nfP: "faults (lfs P) = []" by (simp add: fP nf)
  have tk: "take 56 disk_image = header_block"
    by (simp add: disk_image_def length_header_block)
  define fp1 where "fp1 = (lfp P)\<lparr>fptr := fptr (lfp P) + 56\<rparr>"
  have rdP: "block_read ?K P = (FR_OK, header_block, fp1, lfs L)"
    unfolding block_read_no_fault[OF nfP] zP fP fp1_def
    by (simp add: tk length_header_block)
  let ?raw = "store_bytes (fds_raw_data (drive P)) 3537 header_block"
  have tag: "?raw 3537 = 1"
    by (simp add: store_bytes_def length_header_block) (simp add: header_block_def)
  have "load_bytes ?raw (3537 + int 1) (int 14) = take 14 (drop 1 header_block)"
    by (rule load_bytes_store_sub) (simp add: length_header_block)
  then have sg: "load_bytes ?raw 3538 14 = signature"
    by (simp add: header_block_def signature_def)
  have "load_bytes ?raw (3537 + int 0) (int 56) = take 56 (drop 0 header_block)"
    by (rule load_bytes_store_sub) (simp add: length_header_block)
  then have whole: "load_bytes ?raw 3537 56 = header_block"
    by (simp add: length_header_block)
  have okP: "payload_ok ?K P header_block"
    by (simp add: payload_ok_def zP uP cP tag sg length_header_block block_tag_def)
  have crc: "fds_crc (load_bytes ?raw 3537 56) = Some (spec_crc header_block)"
    unfolding whole by (rule fds_crc_spec) (simp add: length_header_block)
  have no: "\<not> gap_overflows ?K (block_head ?K L)"
    by (simp add: gap_overflows_def block_head_fields cnt usd sample_gaps)
  define L1 where "L1 = taken ?K P header_block fp1 (lfs L) (spec_crc header_block)"
  have n1: "load_block ?K L = Some (Next L1)"
    unfolding load_block_Next_iff P_def[symmetric] L1_def using no rdP okP crc
    by (simp add: uP zP sample_gaps)
  have c1: "fds_block_count (drive L1) = 1" by (simp add: L1_def cP)
  have u1: "fds_used_space (drive L1) = 3595" by (simp add: L1_def uP zP)
  have f1: "lfs L1 = lfs L" "min_blocks L1 = 0" by (simp_all add: L1_def fP)
  have r1: "rest L1 = replicate 65444 0"
    unfolding L1_def rest_taken[OF rdP] fP by (simp add: disk_image_def length_header_block)
  have o1: "fds_readonly (drive L1) = fds_readonly (drive L)"
    by (simp add: L1_def taken_def copied_def oP)
  define Q where "Q = at_payload ?K L1"
  have cQ: "fds_block_count (drive Q) = 1" by (simp add: Q_def c1)
  have uQ: "fds_used_space (drive Q) = 3717"
    by (simp add: Q_def at_payload_used[OF g] c1 u1 sample_gaps)
  have zQ: "payload_size ?K Q = 2"
    by (simp add: payload_size_def cQ fds_get_block_size_def)
  have fQ: "lfs Q = lfs L" "rest Q = replicate 65444 0"
    by (simp_all add: Q_def r1 f1 at_payload_fields)
  have oQ: "fds_readonly (drive Q) = fds_readonly (drive L)"
    by (simp add: Q_def at_payload_def with_gap_def block_head_def Let_def o1)
  have nfQ: "faults (lfs Q) = []" by (simp add: fQ nf)
  define fp2 where "fp2 = (lfp Q)\<lparr>fptr := fptr (lfp Q) + 2\<rparr>"
  have rdQ: "block_read ?K Q = (FR_OK, replicate 2 0, fp2, lfs L)"
    unfolding block_read_no_fault[OF nfQ] zQ fQ fp2_def by simp
  have nfr: "\<not> framed ?K Q (replicate 2 0)"
    by (simp add: framed_def zQ uQ cQ store_bytes_def block_tag_def)
  have nrq: "\<not> block_required (block_head ?K L1)"
    by (simp add: block_required_def block_head_def c1 f1)
  have no1: "\<not> gap_overflows ?K (block_head ?K L1)"
    by (simp add: gap_overflows_def block_head_fields c1 u1 sample_gaps)
  define L2 where "L2 = refused 122 Q (replicate 2 0) fp2 (lfs L)"
  have n2: "load_block ?K L1 = Some (Break L2)"
    unfolding load_block_Break_iff Q_def[symmetric] L2_def c1 using nrq no1 rdQ nfr
    by (simp add: uQ zQ sample_gaps)
  have "load_loop ?K L = Some (Loaded L2)"
    by (simp add: load_loop_Next[OF n1] load_loop_Break[OF n2])
  moreover have "lfs L2 = lfs L" by (simp add: L2_def)
  moreover have "fds_block_count (drive L2) = 1" by (simp add: L2_def cQ)
  moreover have "fds_readonly (drive L2) = fds_readonly (drive L)"
    by (simp add: L2_def refused_def copied_def rollback_gap_def oQ)
  ultimately show ?thesis by blast
qed

text \<open>A load from a volume without faults reaches the block loop.\<close>

lemma fds_load_side_no_fault:
  assumes ne: "backup_original h \<noteq> SAVES_EVERDRIVE" and nf: "faults fs = []"
    and f: "files fs name = Some c"
    and m: "int (length c) mod FDS_ROM_SIDE_SIZE = 0 \<or> int (length c) mod FDS_ROM_SIDE_SIZE = 16"
  shows "\<exists>L0. fds_load_side K h fs name side ro s = load_from K h L0 \<and>
              fresh K name side L0 \<and> lfs L0 = fs \<and>
              rest L0 = drop (side_offset (length c) side) c \<and>
              fds_readonly (drive L0) = ro"
proof -
  let ?s2 = "(fds_reset_reading h (close_drive s))\<lparr>FDS_READY_Pin := GPIO_PIN_SET,
                 FDS_MEDIA_SET_Pin := GPIO_PIN_RESET,
                 fds_readonly := ro,
                 FDS_WRITABLE_MEDIA_Pin := (if ro \<noteq> 0 then GPIO_PIN_SET else GPIO_PIN_RESET),
                 fds_not_ready_time := HAL_GetTick h,
                 fds_filename := strlcpy K name,
                 fds_side := side\<rparr>"
  let ?fp = "\<lparr>fname = name, fptr = 0, fmode = FA_READ\<rparr>"
  let ?n = "side_offset (length c) side"
  let ?L0 = "\<lparr>lfs = fs, lfp = ?fp\<lparr>fptr := min ?n (length c)\<rparr>, min_blocks = 0,
              drive = ?s2\<lparr>fds_raw_data := erase_tail K 0 (fds_raw_data ?s2)\<rparr>\<rparr>"
  have ct: "content fs name = c" by (simp add: content_def f)
  have o: "f_open fs name FA_READ = (FR_OK, ?fp, fs)"
    by (simp add: f_open_def next_fault_none[OF nf] f)
  have sk: "f_lseek fs ?fp ?n = (FR_OK, ?fp\<lparr>fptr := min ?n (length c)\<rparr>, fs)"
    by (simp add: f_lseek_def next_fault_none[OF nf] ct Let_def min_def)
  have "fds_load_side K h fs name side ro s = load_from K h ?L0"
    unfolding fds_load_side_def open_rom_def Let_def using ne m
    by (auto simp: o ct sk)
  moreover have "fresh K name side ?L0" by (simp add: fresh_def erase_tail_def)
  moreover have "rest ?L0 = drop ?n c" by (simp add: rest_def ct min_def)
  ultimately show ?thesis by (intro exI[of _ ?L0]) simp
qed

lemma loaded_drive_readonly:
  "fds_readonly (loaded_drive K sample_host L) = fds_readonly (drive L)"
  by (simp add: loaded_drive_def finish_load_def fds_check_pins_def motor_stopped_def
        sample_host_def)

lemma sample_host_idle:
  "FDS_SCAN_MEDIA_Pin sample_host = GPIO_PIN_SET \<or> FDS_WRITE_Pin sample_host = GPIO_PIN_SET"
  "backup_original sample_host = SAVES_IN_PLACE"
  by (simp_all add: sample_host_def)

text \<open>A load of that file: one block, whose payload is the disk-info block, with a
  CRC that the save accepts.\<close>

lemma header_load:
  assumes nf: "faults fs = []" and f: "files fs ''game.fds'' = Some disk_image"
  shows "\<exists>s1. fds_load_side sample_consts sample_host fs ''game.fds'' 0 0 s = Some (FR_OK, fs, s1) \<and>
              fds_filename s1 = ''game.fds'' \<and> fds_side s1 = 0 \<and> fds_block_count s1 = 1 \<and>
              fds_readonly s1 = 0 \<and> crcs_ok sample_consts s1 \<and>
              block_payload sample_consts s1 0 = header_block"
proof -
  let ?K = sample_consts
  let ?h = sample_host
  note g = sample_gaps(1)
  have ne: "backup_original ?h \<noteq> SAVES_EVERDRIVE" by (simp add: sample_host_def)
  have m: "int (length disk_image) mod FDS_ROM_SIDE_SIZE = 0 \<or>
           int (length disk_image) mod FDS_ROM_SIDE_SIZE = 16"
    by (simp add: length_disk_image FDS_ROM_SIDE_SIZE_def)
  from fds_load_side_no_fault[OF ne nf f m, of ?K 0 0 s] obtain L0
    where l: "fds_load_side ?K ?h fs ''game.fds'' 0 0 s = load_from ?K ?h L0"
      and f0: "fresh ?K ''game.fds'' 0 L0" and fs0: "lfs L0 = fs"
      and r0: "rest L0 = drop (side_offset (length disk_image) 0) disk_image"
      and o0: "fds_readonly (drive L0) = 0"
    by blast
  have r0': "rest L0 = disk_image"
    by (simp add: r0 side_offset_def length_disk_image FDS_ROM_SIDE_SIZE_def
          FDS_ROM_HEADER_SIZE_def)
  have nf0: "faults (lfs L0) = []" by (simp add: fs0 nf)
  from header_loop[OF f0 nf0 r0'] obtain L2
    where ll: "load_loop ?K L0 = Some (Loaded L2)" and fs2: "lfs L2 = fs"
      and c2: "fds_block_count (drive L2) = 1" and o2: "fds_readonly (drive L2) = 0"
    by (auto simp: fs0 o0)
  have mx: "0 \<le> FDS_MAX_SIDE_SIZE ?K" by (simp add: sample_gaps)
  note b0 = fresh_blocks_below[OF f0 mx]
  from load_loop_inv[OF g b0 ll] obtain tail
    where b2: "blocks_below ?K (drive L2)"
      and sb: "side_bytes ?K (drive L2) 0 @ tail = side_bytes ?K (drive L0) 0 @ rest L0"
      and fn: "fds_filename (drive L2) = fds_filename (drive L0)"
      and sd: "fds_side (drive L2) = fds_side (drive L0)"
    by blast
  have k0: "crcs_ok ?K (drive L0)" using f0 by (auto simp: crcs_ok_def fresh_def)
  note k2 = load_loop_crcs[OF g b0 k0 ll]
  let ?s1 = "loaded_drive ?K ?h L2"
  have i1: "same_image ?s1 (drive L2)" by (rule loaded_drive_image[OF sample_host_idle(1)])
  have "side_bytes ?K (drive L2) 0 = block_payload ?K (drive L2) 0"
    by (simp add: side_bytes.simps[of ?K "drive L2" 0] side_bytes.simps[of ?K "drive L2" 1] c2)
  with sb have "block_payload ?K (drive L2) 0 @ tail = disk_image"
    by (simp add: fresh_side_bytes[OF f0] r0')
  then have "take 56 (block_payload ?K (drive L2) 0 @ tail) = take 56 disk_image" by simp
  moreover have "length (block_payload ?K (drive L2) 0) = 56"
    by (simp add: block_payload_def fds_get_block_size_def)
  ultimately have p2: "block_payload ?K (drive L2) 0 = header_block"
    by (simp add: disk_image_def length_header_block)
  have "fds_load_side ?K ?h fs ''game.fds'' 0 0 s = Some (FR_OK, fs, ?s1)"
    by (simp add: l load_from_def ll finish_load_def loaded_drive_def fs2 f_close_def
          next_fault_none[OF nf])
  moreover have "fds_filename ?s1 = ''game.fds''" "fds_side ?s1 = 0"
    using i1 fn sd f0 by (simp_all add: same_image_def fresh_def strlcpy_def sample_consts_def)
  moreover have "fds_block_count ?s1 = 1" using i1 c2 by (simp add: same_image_def)
  moreover have "fds_readonly ?s1 = 0" by (simp add: loaded_drive_readonly o2)
  moreover have "crcs_ok ?K ?s1" by (rule crcs_ok_image[OF i1 k2])
  moreover have "block_payload ?K ?s1 0 = header_block"
    using same_image_payload[OF i1] p2 by simp
  ultimately show ?thesis by blast
qed

section \<open>A file whose last required block is missing\<close>

text \<open>A volume without faults that holds \<open>sample_rom\<close>: a disk-info block, a file-amount
  block that announces one file, the header of that file, and zeros where its data
  block should be.\<close>

definition truncated_volume :: storage where
  "truncated_volume = sample_volume\<lparr>files := (\<lambda>name. None)(''game.fds'' \<mapsto> sample_rom)\<rparr>"

lemma sample_rom_blocks:
  "sample_rom = header_block @ [2, 1] @ (3 # replicate 15 0) @ replicate 65426 0"
  by (simp add: sample_rom_def header_block_def)

lemma sample_next_gap: "next_gap sample_consts = 122"
  by (simp add: next_gap_def sample_consts_def)

text \<open>The block loop on that file takes three blocks, computes \<^verbatim>\<open>min_blocks = 4\<close>, and
  in its fourth turn accepts the zeros as the end of the image.\<close>

lemma truncated_loop:
  assumes f: "fresh sample_consts name side L" and nf: "faults (lfs L) = []"
    and r: "rest L = sample_rom"
  shows "\<exists>L4. load_loop sample_consts L = Some (Loaded L4) \<and> lfs L4 = lfs L \<and>
              fds_block_count (drive L4) = 3 \<and> fds_used_space (drive L4) = 3861 \<and>
              fds_block_offsets (drive L4) 1 = 3595 \<and> fds_raw_data (drive L4) 3718 = 1"
proof -
  let ?K = sample_consts
  note g = sample_gaps(1)
  from f have cnt: "fds_block_count (drive L) = 0" and usd: "fds_used_space (drive L) = 0"
    and mb: "min_blocks L = 0" by (simp_all add: fresh_def)
  txt \<open>first turn: the disk-info block\<close>
  define P where "P = at_payload ?K L"
  have cP: "fds_block_count (drive P) = 0" by (simp add: P_def cnt)
  have uP: "fds_used_space (drive P) = 3537"
    by (simp add: P_def at_payload_used[OF g] cnt usd sample_gaps)
  have zP: "payload_size ?K P = 56"
    by (simp add: payload_size_def cP fds_get_block_size_def)
  have fP: "lfs P = lfs L" "rest P = sample_rom" "min_blocks P = 0"
    by (simp_all add: P_def r at_payload_fields block_head_def cnt mb)
  have nfP: "faults (lfs P) = []" by (simp add: fP nf)
  have tk: "take 56 sample_rom = header_block"
    by (simp add: sample_rom_blocks length_header_block)
  define fp1 where "fp1 = (lfp P)\<lparr>fptr := fptr (lfp P) + 56\<rparr>"
  have rdP: "block_read ?K P = (FR_OK, header_block, fp1, lfs L)"
    unfolding block_read_no_fault[OF nfP] zP fP fp1_def
    by (simp add: tk length_header_block)
  let ?raw = "store_bytes (fds_raw_data (drive P)) 3537 header_block"
  have tag: "?raw 3537 = 1"
    by (simp add: store_bytes_def length_header_block) (simp add: header_block_def)
  have "load_bytes ?raw (3537 + int 1) (int 14) = take 14 (drop 1 header_block)"
    by (rule load_bytes_store_sub) (simp add: length_header_block)
  then have sg: "load_bytes ?raw 3538 14 = signature"
    by (simp add: header_block_def signature_def)
  have okP: "payload_ok ?K P header_block"
    by (simp add: payload_ok_def zP uP cP tag sg length_header_block block_tag_def)
  define c1 where "c1 = spec_crc (load_bytes ?raw 3537 56)"
  have crc: "fds_crc (load_bytes ?raw 3537 56) = Some c1"
    unfolding c1_def by (rule fds_crc_spec) simp
  have no: "\<not> gap_overflows ?K (block_head ?K L)"
    by (simp add: gap_overflows_def block_head_fields cnt usd sample_gaps)
  define L1 where "L1 = taken ?K P header_block fp1 (lfs L) c1"
  have n1: "load_block ?K L = Some (Next L1)"
    unfolding load_block_Next_iff P_def[symmetric] L1_def using no rdP okP crc
    by (simp add: uP zP sample_gaps)
  have k1: "fds_block_count (drive L1) = 1" by (simp add: L1_def cP)
  have u1: "fds_used_space (drive L1) = 3595" by (simp add: L1_def uP zP)
  have f1: "lfs L1 = lfs L" "min_blocks L1 = 0" by (simp_all add: L1_def fP)
  have r1: "rest L1 = [2, 1] @ (3 # replicate 15 0) @ replicate 65426 0"
    unfolding L1_def rest_taken[OF rdP] fP by (simp add: sample_rom_blocks length_header_block)
  txt \<open>second turn: the file-amount block\<close>
  define Q where "Q = at_payload ?K L1"
  have cQ: "fds_block_count (drive Q) = 1" by (simp add: Q_def k1)
  have uQ: "fds_used_space (drive Q) = 3717"
    by (simp add: Q_def at_payload_used[OF g] k1 u1 sample_gaps)
  have zQ: "payload_size ?K Q = 2"
    by (simp add: payload_size_def cQ fds_get_block_size_def)
  have fQ: "lfs Q = lfs L" "rest Q = [2, 1] @ (3 # replicate 15 0) @ replicate 65426 0"
    "min_blocks Q = 0"
    by (simp_all add: Q_def r1 f1 at_payload_fields block_head_def k1)
  have oQ: "fds_block_offsets (drive Q) 1 = 3595"
    by (simp add: Q_def at_payload_fields k1 u1)
  have nfQ: "faults (lfs Q) = []" by (simp add: fQ nf)
  define fp2 where "fp2 = (lfp Q)\<lparr>fptr := fptr (lfp Q) + 2\<rparr>"
  have rdQ: "block_read ?K Q = (FR_OK, [2, 1], fp2, lfs L)"
    unfolding block_read_no_fault[OF nfQ] zQ fQ fp2_def by simp
  let ?raw2 = "store_bytes (fds_raw_data (drive Q)) 3717 [2, 1]"
  have okQ: "payload_ok ?K Q [2, 1]"
    by (simp add: payload_ok_def zQ uQ cQ store_bytes_def block_tag_def)
  define c2 where "c2 = spec_crc (load_bytes ?raw2 3717 2)"
  have crc2: "fds_crc (load_bytes ?raw2 3717 2) = Some c2"
    unfolding c2_def by (rule fds_crc_spec) simp
  have no1: "\<not> gap_overflows ?K (block_head ?K L1)"
    by (simp add: gap_overflows_def block_head_fields k1 u1 sample_gaps)
  define L2 where "L2 = taken ?K Q [2, 1] fp2 (lfs L) c2"
  have n2: "load_block ?K L1 = Some (Next L2)"
    unfolding load_block_Next_iff Q_def[symmetric] L2_def using no1 rdQ okQ crc2
    by (simp add: uQ zQ sample_gaps)
  have k2: "fds_block_count (drive L2) = 2" by (simp add: L2_def cQ)
  have u2: "fds_used_space (drive L2) = 3721" by (simp add: L2_def uQ zQ)
  have f2: "lfs L2 = lfs L" by (simp add: L2_def)
  have o2: "fds_block_offsets (drive L2) 1 = 3595" by (simp add: L2_def oQ)
  have w2: "fds_raw_data (drive L2) 3718 = 1"
    by (simp add: L2_def uQ zQ store_bytes_def)
  have r2: "rest L2 = (3 # replicate 15 0) @ replicate 65426 0"
    unfolding L2_def rest_taken[OF rdQ] fQ by simp
  txt \<open>third turn: \<^verbatim>\<open>min_blocks\<close> and the file header\<close>
  have m3: "min_blocks (block_head ?K L2) = 4"
    by (simp add: block_head_def k2 o2 sample_next_gap w2)
  define R where "R = at_payload ?K L2"
  have cR: "fds_block_count (drive R) = 2" by (simp add: R_def k2)
  have uR: "fds_used_space (drive R) = 3843"
    by (simp add: R_def at_payload_used[OF g] k2 u2 gap_length_of_def sample_next_gap)
  have zR: "payload_size ?K R = 16"
    by (simp add: payload_size_def cR fds_get_block_size_def)
  have fR: "lfs R = lfs L" "rest R = (3 # replicate 15 0) @ replicate 65426 0"
    "min_blocks R = 4"
    by (simp_all add: R_def r2 f2 at_payload_fields m3)
  have oR: "fds_block_offsets (drive R) 1 = 3595" "fds_block_offsets (drive R) 2 = 3721"
    by (simp_all add: R_def at_payload_fields k2 u2 o2)
  have wR: "fds_raw_data (drive R) 3718 = 1"
    unfolding R_def by (simp add: at_payload_raw_below u2 w2)
  have nfR: "faults (lfs R) = []" by (simp add: fR nf)
  define fp3 where "fp3 = (lfp R)\<lparr>fptr := fptr (lfp R) + 16\<rparr>"
  have rdR: "block_read ?K R = (FR_OK, 3 # replicate 15 0, fp3, lfs L)"
    unfolding block_read_no_fault[OF nfR] zR fR fp3_def by simp
  let ?raw3 = "store_bytes (fds_raw_data (drive R)) 3843 (3 # replicate 15 0)"
  have okR: "payload_ok ?K R (3 # replicate 15 0)"
    by (simp add: payload_ok_def zR uR cR store_bytes_def block_tag_def)
  define c3 where "c3 = spec_crc (load_bytes ?raw3 3843 16)"
  have crc3: "fds_crc (load_bytes ?raw3 3843 16) = Some c3"
    unfolding c3_def by (rule fds_crc_spec) simp
  have no2: "\<not> gap_overflows ?K (block_head ?K L2)"
    by (simp add: gap_overflows_def block_head_fields k2 u2 gap_length_of_def sample_next_gap
          sample_gaps)
  define L3 where "L3 = taken ?K R (3 # replicate 15 0) fp3 (lfs L) c3"
  have n3: "load_block ?K L2 = Some (Next L3)"
    unfolding load_block_Next_iff R_def[symmetric] L3_def using no2 rdR okR crc3
    by (simp add: uR zR sample_gaps)
  have k3: "fds_block_count (drive L3) = 3" by (simp add: L3_def cR)
  have u3: "fds_used_space (drive L3) = 3861" by (simp add: L3_def uR zR)
  have f3: "lfs L3 = lfs L" "min_blocks L3 = 4" by (simp_all add: L3_def fR)
  have o3: "fds_block_offsets (drive L3) 1 = 3595" "fds_block_offsets (drive L3) 2 = 3721"
    by (simp_all add: L3_def oR)
  have w3: "fds_raw_data (drive L3) 3718 = 1" "fds_raw_data (drive L3) 3856 = 0"
    "fds_raw_data (drive L3) 3857 = 0"
    by (simp_all add: L3_def uR zR store_bytes_def wR)
  have r3: "rest L3 = replicate 65426 0"
    unfolding L3_def rest_taken[OF rdR] fR by simp
  txt \<open>fourth turn: zeros in the place of the data block\<close>
  define S where "S = at_payload ?K L3"
  have cS: "fds_block_count (drive S) = 3" by (simp add: S_def k3)
  have uS: "fds_used_space (drive S) = 3983"
    by (simp add: S_def at_payload_used[OF g] k3 u3 gap_length_of_def sample_next_gap)
  have oS: "fds_block_offsets (drive S) 1 = 3595" "fds_block_offsets (drive S) 2 = 3721"
    by (simp_all add: S_def at_payload_fields k3 u3 o3)
  have wS: "fds_raw_data (drive S) 3718 = 1" "fds_raw_data (drive S) 3856 = 0"
    "fds_raw_data (drive S) 3857 = 0"
    unfolding S_def by (simp_all add: at_payload_raw_below u3 w3)
  have zS: "payload_size ?K S = 1"
    by (simp add: payload_size_def cS fds_get_block_size_def oS sample_next_gap wS le16_def)
  have fS: "lfs S = lfs L" "rest S = replicate 65426 0"
    by (simp_all add: S_def r3 f3 at_payload_fields)
  have nfS: "faults (lfs S) = []" by (simp add: fS nf)
  define fp4 where "fp4 = (lfp S)\<lparr>fptr := fptr (lfp S) + 1\<rparr>"
  have rdS: "block_read ?K S = (FR_OK, replicate 1 0, fp4, lfs L)"
    unfolding block_read_no_fault[OF nfS] zS fS fp4_def by simp
  have nfr: "\<not> framed ?K S (replicate 1 0)"
    by (simp add: framed_def zS uS cS store_bytes_def block_tag_def)
  have nrq: "\<not> block_required (block_head ?K L3)"
    by (simp add: block_required_def block_head_def k3 f3)
  have no3: "\<not> gap_overflows ?K (block_head ?K L3)"
    by (simp add: gap_overflows_def block_head_fields k3 u3 gap_length_of_def sample_next_gap
          sample_gaps)
  define L4 where "L4 = refused 122 S (replicate 1 0) fp4 (lfs L)"
  have n4: "load_block ?K L3 = Some (Break L4)"
    unfolding load_block_Break_iff S_def[symmetric] L4_def k3 using nrq no3 rdS nfr
    by (simp add: uS zS sample_gaps gap_length_of_def sample_next_gap)
  have "load_loop ?K L = Some (Loaded L4)"
    by (simp add: load_loop_Next[OF n1] load_loop_Next[OF n2] load_loop_Next[OF n3]
          load_loop_Break[OF n4])
  moreover have "lfs L4 = lfs L" by (simp add: L4_def)
  moreover have "fds_block_count (drive L4) = 3" by (simp add: L4_def cS)
  moreover have "fds_used_space (drive L4) = 3861" by (simp add: L4_def uS)
  moreover have "fds_block_offsets (drive L4) 1 = 3595" by (simp add: L4_def oS)
  moreover have "fds_raw_data (drive L4) 3718 = 1"
    by (simp add: L4_def uS store_bytes_def wS)
  ultimately show ?thesis by blast
qed


text \<open>
  Claim C6 as stated fails on this file. \<^verbatim>\<open>fds_load_side\<close> returns \<^verbatim>\<open>FR_OK\<close> with three
  blocks loaded, while the file-amount block at \<^verbatim>\<open>fds_block_offsets[1]\<close> gives
  \<^verbatim>\<open>min_blocks = 1 * 2 + 2 = 4\<close>: \<^verbatim>\<open>block_count < min_blocks\<close>. The loop did not end on an
  overflow (the next gap, a payload of one byte and its CRC fit the buffer) but on the
  byte 0 that the file has where the tag 4 of the data block should be.
\<close>

theorem load_side_accepts_missing_block_counterexample:
  "\<exists>fs' s'.
     fds_load_side sample_consts sample_host truncated_volume ''game.fds'' 0 0 sample_drive
       = Some (FR_OK, fs', s') \<and>
     fds_block_count s' = 3 \<and>
     uint (fds_raw_data s' (fds_block_offsets s' 1 + next_gap sample_consts + 1)) * 2 + 2 = 4 \<and>
     fds_used_space s' + next_gap sample_consts + 1 + 2 \<le> FDS_MAX_SIDE_SIZE sample_consts \<and>
     take 1 (drop 74 sample_rom) = [0]"
proof -
  let ?K = sample_consts
  let ?h = sample_host
  have nf: "faults truncated_volume = []"
    and f: "files truncated_volume ''game.fds'' = Some sample_rom"
    by (simp_all add: truncated_volume_def sample_volume_def)
  have ne: "backup_original ?h \<noteq> SAVES_EVERDRIVE" by (simp add: sample_host_def)
  have m: "int (length sample_rom) mod FDS_ROM_SIDE_SIZE = 0 \<or>
           int (length sample_rom) mod FDS_ROM_SIDE_SIZE = 16"
    by (simp add: length_sample_rom FDS_ROM_SIDE_SIZE_def)
  from fds_load_side_no_fault[OF ne nf f m, of ?K 0 0 sample_drive] obtain L0
    where l: "fds_load_side ?K ?h truncated_volume ''game.fds'' 0 0 sample_drive
                = load_from ?K ?h L0"
      and f0: "fresh ?K ''game.fds'' 0 L0" and fs0: "lfs L0 = truncated_volume"
      and r0: "rest L0 = drop (side_offset (length sample_rom) 0) sample_rom"
    by blast
  have r0': "rest L0 = sample_rom"
    by (simp add: r0 side_offset_def length_sample_rom FDS_ROM_SIDE_SIZE_def
          FDS_ROM_HEADER_SIZE_def)
  have nf0: "faults (lfs L0) = []" by (simp add: fs0 nf)
  from truncated_loop[OF f0 nf0 r0'] obtain L4
    where ll: "load_loop ?K L0 = Some (Loaded L4)" and fs4: "lfs L4 = truncated_volume"
      and d: "fds_block_count (drive L4) = 3" "fds_used_space (drive L4) = 3861"
        "fds_block_offsets (drive L4) 1 = 3595" "fds_raw_data (drive L4) 3718 = 1"
    by (auto simp: fs0)
  let ?s = "loaded_drive ?K ?h L4"
  have i: "same_image ?s (drive L4)" by (rule loaded_drive_image[OF sample_host_idle(1)])
  then have e: "fds_block_count ?s = 3" "fds_used_space ?s = 3861"
    "fds_block_offsets ?s 1 = 3595" "fds_raw_data ?s 3718 = 1"
    by (simp_all add: same_image_def d)
  have "fds_load_side ?K ?h truncated_volume ''game.fds'' 0 0 sample_drive
          = Some (FR_OK, truncated_volume, ?s)"
    by (simp add: l load_from_def ll finish_load_def loaded_drive_def fs4 f_close_def
          next_fault_none[OF nf])
  moreover have "uint (fds_raw_data ?s (fds_block_offsets ?s 1 + next_gap ?K + 1)) * 2 + 2 = 4"
    by (simp add: e sample_next_gap)
  moreover have "fds_used_space ?s + next_gap ?K + 1 + 2 \<le> FDS_MAX_SIDE_SIZE ?K"
    by (simp add: e sample_next_gap sample_gaps)
  moreover have "take 1 (drop 74 sample_rom) = [0]"
    by (simp add: sample_rom_blocks length_header_block)
  ultimately show ?thesis using e(1) by blast
qed

section \<open>A written image of three blocks\<close>

text \<open>
  The bytes of an image buffer from address 3537 on, with the sample constants: the
  disk-info block and its CRC \<open>0x85C3\<close>, a gap of 121 zero bytes and the terminator
  \<open>0x80\<close>, the file-amount block (one file) and its CRC \<open>0x2ED5\<close>, a gap, the header of a
  file of \<open>0xFFFD\<close> bytes followed by the two bytes \<open>crc2\<close> (its CRC is \<open>0x51A2\<close>), a gap
  and the tag of the data block, whose other bytes are zero.
\<close>

definition file_header :: "u8 list" where
  "file_header = 3 # replicate 12 0 @ [0xFD, 0xFF, 0]"

definition written_bytes :: "u8 list \<Rightarrow> u8 list" where
  "written_bytes crc2 =
     header_block @ [195, 133] @ replicate 121 0 @ [128]
     @ [2, 1] @ [213, 46] @ replicate 121 0 @ [128]
     @ file_header @ crc2 @ replicate 121 0 @ [128, 4]"

text \<open>A dirty drive with the first \<open>n\<close> blocks of that buffer; the block index is the
  one that \<^verbatim>\<open>fds_reset_writing\<close> computes, with \<^verbatim>\<open>fds_get_block_size(3, 1, 1)\<close> wrapped to
  122.\<close>

definition written_drive :: "u8 list \<Rightarrow> int \<Rightarrow> int \<Rightarrow> fds" where
  "written_drive crc2 n used =
     sample_drive
       \<lparr>fds_raw_data := store_bytes (\<lambda>a. 0) 3537 (written_bytes crc2),
        fds_used_space := used, fds_block_count := n,
        fds_block_offsets := (\<lambda>i. 0)(1 := 3595, 2 := 3721, 3 := 3861, 4 := 3983),
        fds_changed := 1\<rparr>"

lemma spec_crc_header_block: "spec_crc header_block = 34243"
  by (simp add: spec_crc_def spec_crc_byte_def spec_crc_bit_def bit_0 replicate_numeral
        header_block_def signature_def)

lemma spec_crc_file_amount: "spec_crc [2, 1] = 11989"
  by (simp add: spec_crc_def spec_crc_byte_def spec_crc_bit_def bit_0)

lemma spec_crc_file_header: "spec_crc file_header = 20898"
  by (simp add: spec_crc_def spec_crc_byte_def spec_crc_bit_def bit_0 replicate_numeral
        file_header_def)

lemma spec_crc_zeros_16: "spec_crc (replicate 16 0) = 18184"
  by (simp add: spec_crc_def spec_crc_byte_def spec_crc_bit_def bit_0 replicate_numeral)

lemma length_file_header: "length file_header = 16"
  by (simp add: file_header_def)

lemma length_written_bytes: "length c = 2 \<Longrightarrow> length (written_bytes c) = 447"
  by (simp add: written_bytes_def length_header_block length_file_header)

lemma store_bytes_nth: "k < length bs \<Longrightarrow> store_bytes raw p bs (p + int k) = bs ! k"
  by (simp add: store_bytes_def)

lemma load_bytes_store_beyond:
  "p + int (length bs) \<le> q \<Longrightarrow> load_bytes (store_bytes raw p bs) q n = load_bytes raw q n"
  by (simp add: load_bytes_def store_bytes_def)

lemma written_drive_fields:
  "fds_block_count (written_drive c n u) = n"
  "fds_changed (written_drive c n u) = 1"
  "fds_readonly (written_drive c n u) = 0"
  "fds_filename (written_drive c n u) = ''game.fds''"
  "fds_side (written_drive c n u) = 0"
  by (simp_all add: written_drive_def sample_drive_def)

lemma written_drive_addr:
  "payload_addr sample_consts (written_drive c n u) 0 = 3537"
  "payload_addr sample_consts (written_drive c n u) 1 = 3717"
  "payload_addr sample_consts (written_drive c n u) 2 = 3843"
  "payload_addr sample_consts (written_drive c n u) 3 = 3983"
  "payload_addr sample_consts (written_drive c n u) 4 = 4105"
  by (simp_all add: payload_addr_def written_drive_def sample_consts_def)

lemma written_drive_raw:
  assumes "length c = 2" and "k < 447"
  shows "fds_raw_data (written_drive c n u) (3537 + int k) = written_bytes c ! k"
  using assms by (simp add: written_drive_def store_bytes_nth length_written_bytes)

lemma written_drive_slice:
  assumes "length c = 2" and "k + m \<le> 447"
  shows "load_bytes (fds_raw_data (written_drive c n u)) (3537 + int k) (int m)
           = take m (drop k (written_bytes c))"
  using assms by (simp add: written_drive_def load_bytes_store_sub length_written_bytes)

lemma written_drive_size:
  "fds_get_block_size sample_consts (written_drive c n u) 0 False False = 56"
  "fds_get_block_size sample_consts (written_drive c n u) 1 False False = 2"
  "fds_get_block_size sample_consts (written_drive c n u) 2 False False = 16"
  "fds_get_block_size sample_consts (written_drive c n u) 4 False False = 16"
  by (simp_all add: fds_get_block_size_def)

lemma written_drive_size_3:
  assumes "length c = 2"
  shows "fds_get_block_size sample_consts (written_drive c n u) 3 False False = 65534"
proof -
  have o: "fds_block_offsets (written_drive c n u) 2 = 3721"
    by (simp add: written_drive_def)
  have "fds_raw_data (written_drive c n u) (3537 + int 319) = written_bytes c ! 319"
    "fds_raw_data (written_drive c n u) (3537 + int 320) = written_bytes c ! 320"
    by (rule written_drive_raw[OF assms], simp)+
  then have r: "fds_raw_data (written_drive c n u) 3856 = 0xFD"
    "fds_raw_data (written_drive c n u) 3857 = 0xFF"
    by (simp_all add: written_bytes_def nth_append length_header_block file_header_def)
  show ?thesis
    by (simp add: fds_get_block_size_def o sample_next_gap r le16_def)
qed

lemma written_drive_payload:
  assumes "length c = 2"
  shows "block_payload sample_consts (written_drive c n u) 0 = header_block"
    and "block_payload sample_consts (written_drive c n u) 1 = [2, 1]"
    and "block_payload sample_consts (written_drive c n u) 2 = file_header"
proof -
  have "load_bytes (fds_raw_data (written_drive c n u)) (3537 + int 0) (int 56)
          = take 56 (drop 0 (written_bytes c))"
    by (rule written_drive_slice[OF assms]) simp
  then show "block_payload sample_consts (written_drive c n u) 0 = header_block"
    by (simp add: block_payload_def written_drive_addr written_drive_size written_bytes_def
          length_header_block)
  have "load_bytes (fds_raw_data (written_drive c n u)) (3537 + int 180) (int 2)
          = take 2 (drop 180 (written_bytes c))"
    by (rule written_drive_slice[OF assms]) simp
  then show "block_payload sample_consts (written_drive c n u) 1 = [2, 1]"
    by (simp add: block_payload_def written_drive_addr written_drive_size written_bytes_def
          length_header_block)
  have "load_bytes (fds_raw_data (written_drive c n u)) (3537 + int 306) (int 16)
          = take 16 (drop 306 (written_bytes c))"
    by (rule written_drive_slice[OF assms]) simp
  then show "block_payload sample_consts (written_drive c n u) 2 = file_header"
    by (simp add: block_payload_def written_drive_addr written_drive_size written_bytes_def
          length_header_block length_file_header)
qed

lemma written_drive_stored:
  assumes "length c = 2"
  shows "stored_crc sample_consts (written_drive c n u) 0 = 34243"
    and "stored_crc sample_consts (written_drive c n u) 1 = 11989"
    and "stored_crc sample_consts (written_drive c n u) 2 = le16 (c ! 0) (c ! 1)"
proof -
  have "fds_raw_data (written_drive c n u) (3537 + int 56) = written_bytes c ! 56"
    "fds_raw_data (written_drive c n u) (3537 + int 57) = written_bytes c ! 57"
    "fds_raw_data (written_drive c n u) (3537 + int 182) = written_bytes c ! 182"
    "fds_raw_data (written_drive c n u) (3537 + int 183) = written_bytes c ! 183"
    "fds_raw_data (written_drive c n u) (3537 + int 322) = written_bytes c ! 322"
    "fds_raw_data (written_drive c n u) (3537 + int 323) = written_bytes c ! 323"
    by (rule written_drive_raw[OF assms], simp)+
  then have r: "fds_raw_data (written_drive c n u) 3593 = 195"
    "fds_raw_data (written_drive c n u) 3594 = 133"
    "fds_raw_data (written_drive c n u) 3719 = 213"
    "fds_raw_data (written_drive c n u) 3720 = 46"
    "fds_raw_data (written_drive c n u) 3859 = c ! 0"
    "fds_raw_data (written_drive c n u) 3860 = c ! 1"
    using assms
    by (simp_all add: written_bytes_def nth_append length_header_block length_file_header)
  show "stored_crc sample_consts (written_drive c n u) 0 = 34243"
    "stored_crc sample_consts (written_drive c n u) 1 = 11989"
    "stored_crc sample_consts (written_drive c n u) 2 = le16 (c ! 0) (c ! 1)"
    by (simp_all add: stored_crc_def written_drive_addr written_drive_size r le16_def)
qed

lemma written_drive_crc:
  "fds_crc header_block = Some 34243" "fds_crc [2, 1] = Some 11989"
  "fds_crc file_header = Some 20898" "fds_crc (replicate 16 0) = Some 18184"
  by (simp_all add: fds_crc_spec length_header_block length_file_header spec_crc_header_block
        spec_crc_file_amount spec_crc_file_header spec_crc_zeros_16)

text \<open>The first two blocks pass the CRC check of the save.\<close>

lemma written_drive_two_pass:
  assumes "length c = 2" and "0 \<le> j" and "j < 2"
  shows "\<exists>v. fds_crc (block_payload sample_consts (written_drive c n u) j) = Some v \<and>
             uint v = stored_crc sample_consts (written_drive c n u) j"
proof -
  from assms(2,3) have "j = 0 \<or> j = 1" by auto
  then show ?thesis
    by (auto simp: written_drive_payload[OF assms(1)] written_drive_stored[OF assms(1)]
          written_drive_crc)
qed

lemma written_drive_three_pass:
  assumes "0 \<le> j" and "j < 3"
  shows "\<exists>v. fds_crc (block_payload sample_consts (written_drive [162, 81] n u) j) = Some v \<and>
             uint v = stored_crc sample_consts (written_drive [162, 81] n u) j"
proof (cases "j = 2")
  case True
  then show ?thesis
    by (simp add: written_drive_payload written_drive_stored written_drive_crc le16_def)
next
  case False
  with assms have "j < 2" by simp
  from written_drive_two_pass[OF _ assms(1) this] show ?thesis by simp
qed

text \<open>The data block has 65534 bytes; the block that the index puts behind it holds zero
  bytes and a zero CRC.\<close>

lemma written_drive_block_3:
  assumes "length c = 2"
  shows "fds_crc (block_payload sample_consts (written_drive c n u) 3) = None"
proof (rule fds_crc_hangs)
  have "int (length (block_payload sample_consts (written_drive c n u) 3)) = 65534"
    by (simp add: length_block_payload written_drive_size_3[OF assms])
  then show "65534 \<le> length (block_payload sample_consts (written_drive c n u) 3)"
    "length (block_payload sample_consts (written_drive c n u) 3) + 2 < 2 ^ 32"
    by simp_all
qed

lemma written_drive_block_4:
  assumes "length c = 2"
  shows "fds_crc (block_payload sample_consts (written_drive c n u) 4) = Some 18184"
    and "stored_crc sample_consts (written_drive c n u) 4 = 0"
proof -
  have r: "fds_raw_data (written_drive c n u) = store_bytes (\<lambda>a. 0) 3537 (written_bytes c)"
    by (simp add: written_drive_def)
  have "block_payload sample_consts (written_drive c n u) 4 = replicate 16 0"
    by (simp add: block_payload_def written_drive_addr written_drive_size r
          load_bytes_store_beyond length_written_bytes[OF assms] load_bytes_const)
  then show "fds_crc (block_payload sample_consts (written_drive c n u) 4) = Some 18184"
    by (simp add: written_drive_crc)
  show "stored_crc sample_consts (written_drive c n u) 4 = 0"
    by (simp add: stored_crc_def written_drive_addr written_drive_size r
          store_bytes_def length_written_bytes[OF assms] le16_def)
qed

theorem save_crc_guard_or_hang_witness:
  "fds_changed (written_drive [0, 0] 3 3861) \<noteq> 0 \<and>
   fds_readonly (written_drive [0, 0] 3 3861) = 0 \<and>
   2 < fds_block_count (written_drive [0, 0] 3 3861) \<and>
   fds_crc (block_payload sample_consts (written_drive [0, 0] 3 3861) 0) = Some 34243 \<and>
   fds_crc (block_payload sample_consts (written_drive [0, 0] 3 3861) 1) = Some 11989 \<and>
   fds_crc (block_payload sample_consts (written_drive [0, 0] 3 3861) 2) = Some 20898 \<and>
   uint (20898 :: u16) \<noteq> stored_crc sample_consts (written_drive [0, 0] 3 3861) 2 \<and>
   fds_save sample_consts sample_host sample_volume (written_drive [0, 0] 3 3861)
     = Some (FDSR_WRONG_CRC, sample_volume, written_drive [0, 0] 3 3861) \<and>
   fds_changed (written_drive [162, 81] 5 4123) \<noteq> 0 \<and>
   fds_readonly (written_drive [162, 81] 5 4123) = 0 \<and>
   3 < fds_block_count (written_drive [162, 81] 5 4123) \<and>
   fds_crc (block_payload sample_consts (written_drive [162, 81] 5 4123) 0) = Some 34243 \<and>
   uint (34243 :: u16) = stored_crc sample_consts (written_drive [162, 81] 5 4123) 0 \<and>
   fds_crc (block_payload sample_consts (written_drive [162, 81] 5 4123) 1) = Some 11989 \<and>
   uint (11989 :: u16) = stored_crc sample_consts (written_drive [162, 81] 5 4123) 1 \<and>
   fds_crc (block_payload sample_consts (written_drive [162, 81] 5 4123) 2) = Some 20898 \<and>
   uint (20898 :: u16) = stored_crc sample_consts (written_drive [162, 81] 5 4123) 2 \<and>
   fds_crc (block_payload sample_consts (written_drive [162, 81] 5 4123) 3) = None \<and>
   fds_crc (block_payload sample_consts (written_drive [162, 81] 5 4123) 4) = Some 18184 \<and>
   uint (18184 :: u16) \<noteq> stored_crc sample_consts (written_drive [162, 81] 5 4123) 4 \<and>
   fds_save sample_consts sample_host sample_volume (written_drive [162, 81] 5 4123) = None"
proof -
  let ?K = sample_consts
  let ?G = "written_drive [0, 0] 3 3861"
  let ?H = "written_drive [162, 81] 5 4123"
  have l: "length [0, 0 :: u8] = 2" "length [162, 81 :: u8] = 2" by simp_all
  have g1: "fds_changed ?G \<noteq> 0" and g2: "fds_readonly ?G = 0"
    and g3: "2 < fds_block_count ?G"
    by (simp_all add: written_drive_fields)
  have g4: "\<forall>j. 0 \<le> j \<and> j < 2 \<longrightarrow> fds_crc (block_payload ?K ?G j) \<noteq> None"
    using written_drive_two_pass[OF l(1), of _ 3 3861] by fastforce
  have g5: "fds_crc (block_payload ?K ?G 0) = Some 34243"
    "fds_crc (block_payload ?K ?G 1) = Some 11989"
    "fds_crc (block_payload ?K ?G 2) = Some 20898"
    by (simp_all add: written_drive_payload written_drive_crc)
  have g6: "uint (20898 :: u16) \<noteq> stored_crc ?K ?G 2"
    by (simp add: written_drive_stored le16_def)
  from save_crc_guard_or_hang[OF g1 g2, of 2 ?K 20898 sample_host sample_volume] g3 g4 g5 g6
  have g7: "fds_save ?K sample_host sample_volume ?G = Some (FDSR_WRONG_CRC, sample_volume, ?G)"
    by simp
  have h1: "fds_changed ?H \<noteq> 0" and h2: "fds_readonly ?H = 0"
    and h3: "3 < fds_block_count ?H"
    by (simp_all add: written_drive_fields)
  have h4: "\<forall>j. 0 \<le> j \<and> j < 3 \<longrightarrow>
      (\<exists>c. fds_crc (block_payload ?K ?H j) = Some c \<and> uint c = stored_crc ?K ?H j)"
    using written_drive_three_pass[of _ 5 4123] by blast
  have h5: "fds_crc (block_payload ?K ?H 3) = None"
    by (rule written_drive_block_3[OF l(2)])
  have h6: "fds_crc (block_payload ?K ?H 4) = Some 18184"
    "uint (18184 :: u16) \<noteq> stored_crc ?K ?H 4"
    by (simp_all add: written_drive_block_4)
  have h8: "fds_crc (block_payload ?K ?H 0) = Some 34243"
    "uint (34243 :: u16) = stored_crc ?K ?H 0"
    "fds_crc (block_payload ?K ?H 1) = Some 11989"
    "uint (11989 :: u16) = stored_crc ?K ?H 1"
    "fds_crc (block_payload ?K ?H 2) = Some 20898"
    "uint (20898 :: u16) = stored_crc ?K ?H 2"
    by (simp_all add: written_drive_payload written_drive_stored written_drive_crc le16_def)
  from save_crc_guard_or_hang[OF h1 h2, of _ ?K _ sample_host sample_volume 3] h3 h4 h5
  have h7: "fds_save ?K sample_host sample_volume ?H = None" by simp
  from g1 g2 g3 g5 g6 g7 h1 h2 h3 h8 h5 h6 h7 show ?thesis by blast
qed

section \<open>A save to a volume without faults\<close>

lemma f_write_inside:
  assumes "faults fs = []" and "fptr fp + length bytes \<le> length (content fs (fname fp))"
  shows "f_write fs fp bytes =
           (FR_OK, length bytes, fp\<lparr>fptr := fptr fp + length bytes\<rparr>,
            fs\<lparr>files := (files fs)(fname fp \<mapsto>
                   take (fptr fp) (content fs (fname fp)) @ bytes
                   @ drop (fptr fp + length bytes) (content fs (fname fp))),
               room := room fs\<rparr>)"
proof -
  let ?c = "content fs (fname fp)"
  from assms(2) have "min (length bytes) (length ?c - fptr fp + room fs) = length bytes"
    "length bytes - (length ?c - fptr fp) = 0" by simp_all
  then show ?thesis
    by (simp add: f_write_def next_fault_none[OF assms(1)] Let_def)
qed

lemma save_blocks_inside:
  assumes "faults fs = []" and "0 \<le> i"
    and "fptr fp + length (side_bytes K s i) \<le> length (content fs (fname fp))"
  shows "\<exists>fp' fs'. save_blocks K s fs fp i = (FR_OK, fp', fs') \<and> faults fs' = []"
  using assms
proof (induction "nat (fds_block_count s - i)" arbitrary: i fs fp)
  case 0
  then show ?case by (simp add: save_blocks.simps[of K s fs fp i])
next
  case (Suc n)
  then have l: "i < fds_block_count s" and n: "n = nat (fds_block_count s - (i + 1))"
    and p: "0 \<le> i + 1" by simp_all
  let ?b = "block_payload K s i"
  let ?c = "content fs (fname fp)"
  let ?fp1 = "fp\<lparr>fptr := fptr fp + length ?b\<rparr>"
  let ?fs1 = "fs\<lparr>files := (files fs)(fname fp \<mapsto>
                   take (fptr fp) ?c @ ?b @ drop (fptr fp + length ?b) ?c),
               room := room fs\<rparr>"
  have sb: "side_bytes K s i = ?b @ side_bytes K s (i + 1)"
    by (simp add: side_bytes.simps[of K s i] l)
  with Suc.prems(3) have fit: "fptr fp + length ?b \<le> length ?c"
    and fit': "fptr fp + length ?b + length (side_bytes K s (i + 1)) \<le> length ?c"
    by simp_all
  have w: "f_write fs fp ?b = (FR_OK, length ?b, ?fp1, ?fs1)"
    by (rule f_write_inside[OF Suc.prems(1) fit])
  have nf1: "faults ?fs1 = []" by (simp add: Suc.prems(1))
  have "length (content ?fs1 (fname ?fp1)) = length ?c"
    using fit by (simp add: content_def)
  with fit' have f1: "fptr ?fp1 + length (side_bytes K s (i + 1))
                        \<le> length (content ?fs1 (fname ?fp1))" by simp
  from Suc.hyps(1)[OF n nf1 p f1] obtain fp' fs'
    where r: "save_blocks K s ?fs1 ?fp1 (i + 1) = (FR_OK, fp', fs')" and "faults fs' = []"
    by blast
  moreover have "save_blocks K s fs fp i = save_blocks K s ?fs1 ?fp1 (i + 1)"
    using w l length_block_payload[of K s i]
    by (subst save_blocks.simps) (simp add: block_payload_def)
  ultimately show ?case by simp
qed

text \<open>A dirty image that passes the CRC check, whose payloads end inside the file, is
  saved in place to a volume without faults.\<close>

lemma fds_save_inside:
  assumes nf: "faults fs = []" and f: "files fs (fds_filename t) = Some c"
    and ip: "backup_original h = SAVES_IN_PLACE"
    and ch: "fds_changed t \<noteq> 0" and ro: "fds_readonly t = 0" and k: "crcs_ok K t"
    and fit: "nat (int (length c) mod FDS_ROM_SIDE_SIZE + uint (fds_side t) * FDS_ROM_SIDE_SIZE)
                + length (side_bytes K t 0) \<le> length c"
  shows "\<exists>fs2 t'. fds_save K h fs t = Some (FR_OK, fs2, t') \<and> faults fs2 = []"
proof -
  let ?F = "fds_filename t"
  let ?fp = "\<lparr>fname = ?F, fptr = 0, fmode = FA_WRITE\<rparr>"
  let ?tg = "nat (int (length c) mod FDS_ROM_SIDE_SIZE + uint (fds_side t) * FDS_ROM_SIDE_SIZE)"
  have ct: "content fs ?F = c" by (simp add: content_def f)
  have o: "f_open fs ?F FA_WRITE = (FR_OK, ?fp, fs)"
    by (simp add: f_open_def next_fault_none[OF nf] f)
  have st: "f_stat fs ?F = (FR_OK, length c, fs)"
    by (simp add: f_stat_def next_fault_none[OF nf] f ct)
  from fit have le: "?tg \<le> length c" by simp
  let ?fp3 = "\<lparr>fname = ?F, fptr = ?tg, fmode = FA_WRITE\<rparr>"
  have sk: "f_lseek fs ?fp ?tg = (FR_OK, ?fp3, fs)"
    using le by (simp add: f_lseek_def next_fault_none[OF nf] ct Let_def)
  have "fptr ?fp3 + length (side_bytes K t 0) \<le> length (content fs (fname ?fp3))"
    using fit by (simp add: ct)
  from save_blocks_inside[OF nf _ this] obtain fp4 fs4
    where sb: "save_blocks K t fs ?fp3 0 = (FR_OK, fp4, fs4)"
      and nf4: "faults fs4 = []" by auto
  have cl: "f_close fs4 fp4 = (FR_OK, fs4)"
    by (simp add: f_close_def next_fault_none[OF nf4])
  have "write_image K h fs [] t = (FR_OK, fs4, fds_check_pins K h (t\<lparr>fds_changed := 0\<rparr>))"
    using ip by (simp add: write_image_def Let_def o st sk sb cl)
  then have "fds_save K h fs t = Some (FR_OK, fs4, fds_check_pins K h (t\<lparr>fds_changed := 0\<rparr>))"
    using ch ro ip by (simp add: fds_save_def crcs_ok_check[OF k] prepare_backup_in_place)
  with nf4 show ?thesis by blast
qed

text \<open>The three blocks of the written image, dirty, and what the save of it writes to
  the image file of \<open>rom_volume\<close>.\<close>

lemma written_drive_crcs_ok: "crcs_ok sample_consts (written_drive [162, 81] 3 u)"
  unfolding crcs_ok_def
  using written_drive_three_pass[of _ 3 u] by (fastforce simp: written_drive_fields)

lemma written_drive_side_bytes:
  "length c = 2 \<Longrightarrow>
   side_bytes sample_consts (written_drive c 3 u) 0 = header_block @ [2, 1] @ file_header"
  by (simp add: side_bytes.simps[of sample_consts "written_drive c 3 u" 0]
        side_bytes.simps[of sample_consts "written_drive c 3 u" 1]
        side_bytes.simps[of sample_consts "written_drive c 3 u" 2]
        side_bytes.simps[of sample_consts "written_drive c 3 u" 3]
        written_drive_fields written_drive_payload)

theorem save_writes_payloads_witness:
  "\<exists>fs' s'.
     fds_save sample_consts sample_host rom_volume (written_drive [162, 81] 3 3861)
       = Some (FR_OK, fs', s') \<and>
     fds_changed (written_drive [162, 81] 3 3861) \<noteq> 0 \<and>
     fds_block_count (written_drive [162, 81] 3 3861) = 3 \<and>
     content fs' ''game.fds'' = header_block @ [2, 1] @ file_header @ replicate 65426 255"
proof -
  let ?K = sample_consts
  let ?T = "written_drive [162, 81] 3 3861"
  have nf: "faults rom_volume = []"
    and f: "files rom_volume (fds_filename ?T) = Some (replicate 65500 255)"
    by (simp_all add: rom_volume_def sample_volume_def written_drive_fields)
  have ch: "fds_changed ?T \<noteq> 0" and ro: "fds_readonly ?T = 0"
    and n: "fds_block_count ?T = 3"
    by (simp_all add: written_drive_fields)
  have sb: "side_bytes ?K ?T 0 = header_block @ [2, 1] @ file_header"
    by (rule written_drive_side_bytes) simp
  have fit: "nat (int (length (replicate 65500 (255 :: u8))) mod FDS_ROM_SIDE_SIZE
                  + uint (fds_side ?T) * FDS_ROM_SIDE_SIZE)
               + length (side_bytes ?K ?T 0) \<le> length (replicate 65500 (255 :: u8))"
    by (simp add: sb written_drive_fields FDS_ROM_SIDE_SIZE_def length_header_block
          length_file_header)
  from fds_save_inside[OF nf f sample_host_idle(2) ch ro written_drive_crcs_ok fit]
  obtain fs' s' where ok: "fds_save ?K sample_host rom_volume ?T = Some (FR_OK, fs', s')"
    by blast
  have p: "prepare_backup ?K sample_host rom_volume ?T = Some (FR_OK, rom_volume, [])"
    by (simp add: prepare_backup_in_place sample_host_def)
  have d: "dest_name sample_host alt ?T = ''game.fds''" for alt
    by (simp add: dest_name_def sample_host_def written_drive_fields)
  have a: "after_seek rom_volume ''game.fds'' (fds_side ?T) = (0, replicate 65500 255)"
    by (simp add: after_seek_def Let_def content_def rom_volume_def written_drive_fields
          FDS_ROM_SIDE_SIZE_def)
  from save_writes_payloads[OF ok ch] p
  have "content fs' ''game.fds'' = header_block @ [2, 1] @ file_header @ replicate 65426 255"
    by (simp add: d a sb length_header_block length_file_header)
  with ok ch n show ?thesis by blast
qed

section \<open>The failure taxonomy of a load\<close>

text \<open>
  \<^verbatim>\<open>fds_load_side\<close> up to its block loop: the loader with which the loop starts, or
  \<open>None\<close> when the load returns before the loop (the file does not open, its size is
  not that of an image, the seek to the side fails) or does not return.
\<close>

definition side_loader ::
  "fds_consts \<Rightarrow> host \<Rightarrow> storage \<Rightarrow> string \<Rightarrow> u8 \<Rightarrow> u8 \<Rightarrow> fds \<Rightarrow> loader option" where
  "side_loader K h fs filename side ro s =
     (let s1 = fds_reset_reading h (close_drive s);
          s2 = s1\<lparr>FDS_READY_Pin := GPIO_PIN_SET,
                 FDS_MEDIA_SET_Pin := GPIO_PIN_RESET,
                 fds_readonly := ro,
                 FDS_WRITABLE_MEDIA_Pin := (if ro \<noteq> 0 then GPIO_PIN_SET else GPIO_PIN_RESET),
                 fds_not_ready_time := HAL_GetTick h,
                 fds_filename := strlcpy K filename,
                 fds_side := side\<rparr>
      in case open_rom K h fs filename (fds_filename s2) of
           None \<Rightarrow> None
         | Some (fr, fp, fs1) \<Rightarrow>
             if fr \<noteq> FR_OK then None
             else if int (length (content fs1 (fname fp))) mod FDS_ROM_SIDE_SIZE \<noteq> 0 \<and>
                     int (length (content fs1 (fname fp))) mod FDS_ROM_SIDE_SIZE \<noteq> 16
             then None
             else
               (case f_lseek fs1 fp (side_offset (length (content fs1 (fname fp))) side) of
                  (fr2, fp2, fs2) \<Rightarrow>
                    if fr2 \<noteq> FR_OK then None
                    else Some \<lparr>lfs = fs2, lfp = fp2, min_blocks = 0,
                               drive = s2\<lparr>fds_raw_data := erase_tail K 0 (fds_raw_data s2)\<rparr>\<rparr>))"

lemma fds_load_side_loop:
  assumes "side_loader K h fs filename side ro s = Some L0"
  shows "fds_load_side K h fs filename side ro s = load_from K h L0"
  using assms unfolding side_loader_def fds_load_side_def Let_def
  by (auto split: option.splits prod.splits if_splits)

lemma side_loader_fresh:
  assumes "side_loader K h fs filename side ro s = Some L0"
  shows "fresh K filename side L0"
  using assms unfolding side_loader_def Let_def
  by (auto simp: fresh_def erase_tail_def split: option.splits prod.splits if_splits)

text \<open>The loader states in which the turns of the block loop begin.\<close>

inductive reaches :: "fds_consts \<Rightarrow> loader \<Rightarrow> loader \<Rightarrow> bool" for K :: fds_consts and L0 :: loader
  where
    start: "reaches K L0 L0"
  | turn: "reaches K L0 L \<Longrightarrow> load_block K L = Some (Next L') \<Longrightarrow> reaches K L0 L'"

lemma reaches_load_loop: "reaches K L0 L \<Longrightarrow> load_loop K L0 = load_loop K L"
  by (induction rule: reaches.induct) (simp_all add: load_loop_Next)

lemma reaches_load_from: "reaches K L0 L \<Longrightarrow> load_from K h L0 = load_from K h L"
  by (simp add: load_from_def reaches_load_loop)

lemma reaches_trans:
  assumes "reaches K L M" and "reaches K L0 L"
  shows "reaches K L0 M"
  using assms by (induction rule: reaches.induct) (auto intro: reaches.intros)

text \<open>\<^verbatim>\<open>min_blocks\<close> in a turn of the loop: 0 until two blocks are loaded, then twice the
  file amount of block 1, plus 2.\<close>

definition announced :: "fds_consts \<Rightarrow> fds \<Rightarrow> int" where
  "announced K s =
     uint (fds_raw_data s (fds_block_offsets s 1 + next_gap K + 1)) * 2 + 2"

definition turn_ok :: "fds_consts \<Rightarrow> loader \<Rightarrow> bool" where
  "turn_ok K L \<longleftrightarrow>
     blocks_below K (drive L) \<and>
     min_blocks L = (if fds_block_count (drive L) \<le> 2 then 0 else announced K (drive L))"

lemma turn_ok_head:
  "turn_ok K L \<Longrightarrow>
   min_blocks (block_head K L)
     = (if fds_block_count (drive L) < 2 then 0 else announced K (drive L))"
  by (auto simp: turn_ok_def block_head_def announced_def)

lemma turn_ok_Next:
  assumes g: "gaps_ok K" and t: "turn_ok K L" and n: "load_block K L = Some (Next L')"
  shows "turn_ok K L'"
proof -
  from t have b: "blocks_below K (drive L)" by (simp add: turn_ok_def)
  note v = load_block_Next_inv[OF g b n]
  from n obtain bytes fp1 fs1 crc where L': "L' = taken K (at_payload K L) bytes fp1 fs1 crc"
    unfolding load_block_Next_iff by blast
  have m: "min_blocks L' = min_blocks (block_head K L)"
    by (simp add: L' at_payload_fields)
  have a: "announced K (drive L') = announced K (drive L)" if c: "2 \<le> fds_block_count (drive L)"
  proof -
    from c have i: "(0::int) \<le> 1" "1 < fds_block_count (drive L)" by simp_all
    have o: "fds_block_offsets (drive L') 1 = fds_block_offsets (drive L) 1"
      by (rule agreeD[OF v(7) i])
    from blocks_belowD[OF b i] g
    have "0 \<le> fds_block_offsets (drive L) 1 + next_gap K + 1"
      "fds_block_offsets (drive L) 1 + next_gap K + 1 < fds_used_space (drive L)"
      by (simp_all add: payload_addr_gap gap_length_of_def fds_get_block_size_def gaps_ok_def)
    from agreeD[OF v(6) this] show ?thesis by (simp add: announced_def o)
  qed
  show ?thesis
    unfolding turn_ok_def
    using v(1) a turn_ok_head[OF t] by (auto simp: m v(5))
qed

lemma reaches_turn_ok:
  assumes "gaps_ok K" and "turn_ok K L0" and "reaches K L0 L"
  shows "turn_ok K L"
  using assms(3,1,2) by (induction rule: reaches.induct) (auto intro: turn_ok_Next)

lemma fresh_turn_ok: "fresh K name side L \<Longrightarrow> 0 \<le> FDS_MAX_SIDE_SIZE K \<Longrightarrow> turn_ok K L"
  by (simp add: turn_ok_def fresh_blocks_below) (simp add: fresh_def)

text \<open>
  Claim C6, as amended. \<^verbatim>\<open>fds_load_side\<close> has opened the file and reached its block loop,
  and \<open>L\<close> is the state in which a turn of the loop begins. \<^verbatim>\<open>min_blocks\<close> is then 0 when
  fewer than two blocks are loaded and twice the file amount of block 1, plus 2,
  otherwise. If that turn ends the loop while \<^verbatim>\<open>fds_block_count + 1 < min_blocks\<close>, the load
  returns \<^verbatim>\<open>FDSR_ROM_TOO_LARGE\<close> when the gap or the payload with its CRC does not fit the
  buffer, and \<^verbatim>\<open>FDSR_INVALID_ROM\<close> when the file ends before the payload or the payload
  has the wrong tag. Otherwise, in particular when \<^verbatim>\<open>fds_block_count \<ge> min_blocks\<close>, the
  truncation is accepted and the load returns \<^verbatim>\<open>FR_OK\<close>.
\<close>

theorem load_failure_taxonomy:
  assumes "gaps_ok K" and "0 \<le> FDS_MAX_SIDE_SIZE K"
    and "side_loader K h fs name side ro s = Some L0" and "reaches K L0 L"
  shows "min_blocks (block_head K L)
           = (if fds_block_count (drive L) < 2 then 0 else announced K (drive L)) \<and>
         (overflow K L \<and> block_required (block_head K L) \<longrightarrow>
            (\<exists>fs' s'. fds_load_side K h fs name side ro s = Some (FDSR_ROM_TOO_LARGE, fs', s'))) \<and>
         ((premature_eof K L \<or> kind_mismatch K L) \<and> block_required (block_head K L) \<longrightarrow>
            (\<exists>fs' s'. fds_load_side K h fs name side ro s = Some (FDSR_INVALID_ROM, fs', s'))) \<and>
         ((overflow K L \<or> premature_eof K L \<or> kind_mismatch K L) \<and>
          \<not> block_required (block_head K L) \<longrightarrow>
            (\<exists>fs' s'. fds_load_side K h fs name side ro s = Some (FR_OK, fs', s')))"
proof -
  have e: "fds_load_side K h fs name side ro s = load_from K h L"
    using fds_load_side_loop[OF assms(3)] reaches_load_from[OF assms(4)] by simp
  have t: "turn_ok K L"
    by (rule reaches_turn_ok[OF assms(1) fresh_turn_ok[OF side_loader_fresh[OF assms(3)] assms(2)]
          assms(4)])
  show ?thesis
    unfolding e
  proof (intro conjI impI)
    show "min_blocks (block_head K L)
           = (if fds_block_count (drive L) < 2 then 0 else announced K (drive L))"
      by (rule turn_ok_head[OF t])
  next
    assume a: "overflow K L \<and> block_required (block_head K L)"
    with load_block_overflow[of K L] obtain L' where
      "load_block K L = Some (Return FDSR_ROM_TOO_LARGE L')" by auto
    from load_from_Return[OF this]
    show "\<exists>fs' s'. load_from K h L = Some (FDSR_ROM_TOO_LARGE, fs', s')" by blast
  next
    assume a: "(premature_eof K L \<or> kind_mismatch K L) \<and> block_required (block_head K L)"
    with load_block_invalid[of K L] obtain L' where
      "load_block K L = Some (Return FDSR_INVALID_ROM L')" by auto
    from load_from_Return[OF this]
    show "\<exists>fs' s'. load_from K h L = Some (FDSR_INVALID_ROM, fs', s')" by blast
  next
    assume a: "(overflow K L \<or> premature_eof K L \<or> kind_mismatch K L) \<and>
               \<not> block_required (block_head K L)"
    with load_block_overflow[of K L] load_block_invalid[of K L] obtain L' where
      "load_block K L = Some (Break L')" by auto
    from load_from_Break[OF this]
    show "\<exists>fs' s'. load_from K h L = Some (FR_OK, fs', s')" .
  qed
qed


section \<open>Three image files that end too early\<close>

text \<open>A volume without faults that holds the image file \<open>c\<close>.\<close>

definition volume_of :: "u8 list \<Rightarrow> storage" where
  "volume_of c = sample_volume\<lparr>files := (\<lambda>name. None)(''game.fds'' \<mapsto> c)\<rparr>"

text \<open>A load from a volume without faults reaches the block loop, at the offset of the
  side in the file.\<close>

lemma side_loader_no_fault:
  assumes ne: "backup_original h \<noteq> SAVES_EVERDRIVE" and nf: "faults fs = []"
    and f: "files fs name = Some c"
    and m: "int (length c) mod FDS_ROM_SIDE_SIZE = 0 \<or> int (length c) mod FDS_ROM_SIDE_SIZE = 16"
  shows "\<exists>L0. side_loader K h fs name side ro s = Some L0 \<and> lfs L0 = fs \<and>
              rest L0 = drop (side_offset (length c) side) c \<and>
              fds_readonly (drive L0) = ro"
proof -
  let ?s2 = "(fds_reset_reading h (close_drive s))\<lparr>FDS_READY_Pin := GPIO_PIN_SET,
                 FDS_MEDIA_SET_Pin := GPIO_PIN_RESET,
                 fds_readonly := ro,
                 FDS_WRITABLE_MEDIA_Pin := (if ro \<noteq> 0 then GPIO_PIN_SET else GPIO_PIN_RESET),
                 fds_not_ready_time := HAL_GetTick h,
                 fds_filename := strlcpy K name,
                 fds_side := side\<rparr>"
  let ?fp = "\<lparr>fname = name, fptr = 0, fmode = FA_READ\<rparr>"
  let ?n = "side_offset (length c) side"
  let ?L0 = "\<lparr>lfs = fs, lfp = ?fp\<lparr>fptr := min ?n (length c)\<rparr>, min_blocks = 0,
              drive = ?s2\<lparr>fds_raw_data := erase_tail K 0 (fds_raw_data ?s2)\<rparr>\<rparr>"
  have ct: "content fs name = c" by (simp add: content_def f)
  have o: "f_open fs name FA_READ = (FR_OK, ?fp, fs)"
    by (simp add: f_open_def next_fault_none[OF nf] f)
  have sk: "f_lseek fs ?fp ?n = (FR_OK, ?fp\<lparr>fptr := min ?n (length c)\<rparr>, fs)"
    by (simp add: f_lseek_def next_fault_none[OF nf] ct Let_def min_def)
  have "side_loader K h fs name side ro s = Some ?L0"
    unfolding side_loader_def open_rom_def Let_def using ne m
    by (auto simp: o ct sk)
  moreover have "rest ?L0 = drop ?n c" by (simp add: rest_def ct min_def)
  ultimately show ?thesis by (intro exI[of _ ?L0]) simp
qed

lemma volume_of_load:
  assumes "length c = 65500"
  shows "\<exists>L0. side_loader sample_consts sample_host (volume_of c) ''game.fds'' 0 0 sample_drive
                = Some L0 \<and>
              faults (lfs L0) = [] \<and> rest L0 = c"
proof -
  have ne: "backup_original sample_host \<noteq> SAVES_EVERDRIVE" by (simp add: sample_host_def)
  have nf: "faults (volume_of c) = []" and f: "files (volume_of c) ''game.fds'' = Some c"
    by (simp_all add: volume_of_def sample_volume_def)
  have m: "int (length c) mod FDS_ROM_SIDE_SIZE = 0 \<or> int (length c) mod FDS_ROM_SIDE_SIZE = 16"
    by (simp add: assms FDS_ROM_SIDE_SIZE_def)
  from side_loader_no_fault[OF ne nf f m, of sample_consts 0 0 sample_drive] obtain L0
    where "side_loader sample_consts sample_host (volume_of c) ''game.fds'' 0 0 sample_drive
             = Some L0"
      and "lfs L0 = volume_of c" and "rest L0 = drop (side_offset (length c) 0) c"
    by blast
  then show ?thesis
    using nf by (auto simp: side_offset_def assms FDS_ROM_SIDE_SIZE_def FDS_ROM_HEADER_SIZE_def)
qed

text \<open>The first three turns of the block loop on a file that starts with the disk-info
  block, a file-amount block that announces \<open>m\<close> files, and a block \<open>fh\<close> with the tag of a
  file header.\<close>

lemma three_turns:
  assumes f: "fresh sample_consts name side L" and nf: "faults (lfs L) = []"
    and r: "rest L = header_block @ [2, m] @ fh @ behind"
    and lf: "length fh = 16" and t: "fh ! 0 = 3"
  shows "\<exists>L3. reaches sample_consts L L3 \<and> lfs L3 = lfs L \<and>
              fds_block_count (drive L3) = 3 \<and> fds_used_space (drive L3) = 3861 \<and>
              min_blocks L3 = uint m * 2 + 2 \<and> rest L3 = behind \<and>
              fds_block_offsets (drive L3) 1 = 3595 \<and> fds_block_offsets (drive L3) 2 = 3721 \<and>
              fds_raw_data (drive L3) 3718 = m \<and>
              fds_raw_data (drive L3) 3856 = fh ! 13 \<and> fds_raw_data (drive L3) 3857 = fh ! 14"
proof -
  let ?K = sample_consts
  note g = sample_gaps(1)
  from f have cnt: "fds_block_count (drive L) = 0" and usd: "fds_used_space (drive L) = 0"
    and mb: "min_blocks L = 0" by (simp_all add: fresh_def)
  txt \<open>first turn: the disk-info block\<close>
  define P where "P = at_payload ?K L"
  have cP: "fds_block_count (drive P) = 0" by (simp add: P_def cnt)
  have uP: "fds_used_space (drive P) = 3537"
    by (simp add: P_def at_payload_used[OF g] cnt usd sample_gaps)
  have zP: "payload_size ?K P = 56"
    by (simp add: payload_size_def cP fds_get_block_size_def)
  have fP: "lfs P = lfs L" "rest P = header_block @ [2, m] @ fh @ behind" "min_blocks P = 0"
    by (simp_all add: P_def r at_payload_fields block_head_def cnt mb)
  have nfP: "faults (lfs P) = []" by (simp add: fP nf)
  define fp1 where "fp1 = (lfp P)\<lparr>fptr := fptr (lfp P) + 56\<rparr>"
  have rdP: "block_read ?K P = (FR_OK, header_block, fp1, lfs L)"
    unfolding block_read_no_fault[OF nfP] zP fP fp1_def
    by (simp add: length_header_block)
  let ?raw = "store_bytes (fds_raw_data (drive P)) 3537 header_block"
  have tag: "?raw 3537 = 1"
    by (simp add: store_bytes_def length_header_block) (simp add: header_block_def)
  have "load_bytes ?raw (3537 + int 1) (int 14) = take 14 (drop 1 header_block)"
    by (rule load_bytes_store_sub) (simp add: length_header_block)
  then have sg: "load_bytes ?raw 3538 14 = signature"
    by (simp add: header_block_def signature_def)
  have okP: "payload_ok ?K P header_block"
    by (simp add: payload_ok_def zP uP cP tag sg length_header_block block_tag_def)
  define c1 where "c1 = spec_crc (load_bytes ?raw 3537 56)"
  have crc: "fds_crc (load_bytes ?raw 3537 56) = Some c1"
    unfolding c1_def by (rule fds_crc_spec) simp
  have no: "\<not> gap_overflows ?K (block_head ?K L)"
    by (simp add: gap_overflows_def block_head_fields cnt usd sample_gaps)
  define L1 where "L1 = taken ?K P header_block fp1 (lfs L) c1"
  have n1: "load_block ?K L = Some (Next L1)"
    unfolding load_block_Next_iff P_def[symmetric] L1_def using no rdP okP crc
    by (simp add: uP zP sample_gaps)
  have k1: "fds_block_count (drive L1) = 1" by (simp add: L1_def cP)
  have u1: "fds_used_space (drive L1) = 3595" by (simp add: L1_def uP zP)
  have f1: "lfs L1 = lfs L" "min_blocks L1 = 0" by (simp_all add: L1_def fP)
  have r1: "rest L1 = [2, m] @ fh @ behind"
    unfolding L1_def rest_taken[OF rdP] fP by (simp add: length_header_block)
  txt \<open>second turn: the file-amount block\<close>
  define Q where "Q = at_payload ?K L1"
  have cQ: "fds_block_count (drive Q) = 1" by (simp add: Q_def k1)
  have uQ: "fds_used_space (drive Q) = 3717"
    by (simp add: Q_def at_payload_used[OF g] k1 u1 sample_gaps)
  have zQ: "payload_size ?K Q = 2"
    by (simp add: payload_size_def cQ fds_get_block_size_def)
  have fQ: "lfs Q = lfs L" "rest Q = [2, m] @ fh @ behind" "min_blocks Q = 0"
    by (simp_all add: Q_def r1 f1 at_payload_fields block_head_def k1)
  have oQ: "fds_block_offsets (drive Q) 1 = 3595"
    by (simp add: Q_def at_payload_fields k1 u1)
  have nfQ: "faults (lfs Q) = []" by (simp add: fQ nf)
  define fp2 where "fp2 = (lfp Q)\<lparr>fptr := fptr (lfp Q) + 2\<rparr>"
  have rdQ: "block_read ?K Q = (FR_OK, [2, m], fp2, lfs L)"
    unfolding block_read_no_fault[OF nfQ] zQ fQ fp2_def by simp
  let ?raw2 = "store_bytes (fds_raw_data (drive Q)) 3717 [2, m]"
  have okQ: "payload_ok ?K Q [2, m]"
    by (simp add: payload_ok_def zQ uQ cQ store_bytes_def block_tag_def)
  define c2 where "c2 = spec_crc (load_bytes ?raw2 3717 2)"
  have crc2: "fds_crc (load_bytes ?raw2 3717 2) = Some c2"
    unfolding c2_def by (rule fds_crc_spec) simp
  have no1: "\<not> gap_overflows ?K (block_head ?K L1)"
    by (simp add: gap_overflows_def block_head_fields k1 u1 sample_gaps)
  define L2 where "L2 = taken ?K Q [2, m] fp2 (lfs L) c2"
  have n2: "load_block ?K L1 = Some (Next L2)"
    unfolding load_block_Next_iff Q_def[symmetric] L2_def using no1 rdQ okQ crc2
    by (simp add: uQ zQ sample_gaps)
  have k2: "fds_block_count (drive L2) = 2" by (simp add: L2_def cQ)
  have u2: "fds_used_space (drive L2) = 3721" by (simp add: L2_def uQ zQ)
  have f2: "lfs L2 = lfs L" by (simp add: L2_def)
  have o2: "fds_block_offsets (drive L2) 1 = 3595" by (simp add: L2_def oQ)
  have w2: "fds_raw_data (drive L2) 3718 = m"
    by (simp add: L2_def uQ zQ store_bytes_def)
  have r2: "rest L2 = fh @ behind"
    unfolding L2_def rest_taken[OF rdQ] fQ by simp
  txt \<open>third turn: \<^verbatim>\<open>min_blocks\<close> and the file header\<close>
  have m3: "min_blocks (block_head ?K L2) = uint m * 2 + 2"
    by (simp add: block_head_def k2 o2 sample_next_gap w2)
  define R where "R = at_payload ?K L2"
  have cR: "fds_block_count (drive R) = 2" by (simp add: R_def k2)
  have uR: "fds_used_space (drive R) = 3843"
    by (simp add: R_def at_payload_used[OF g] k2 u2 gap_length_of_def sample_next_gap)
  have zR: "payload_size ?K R = 16"
    by (simp add: payload_size_def cR fds_get_block_size_def)
  have fR: "lfs R = lfs L" "rest R = fh @ behind" "min_blocks R = uint m * 2 + 2"
    by (simp_all add: R_def r2 f2 at_payload_fields m3)
  have oR: "fds_block_offsets (drive R) 1 = 3595" "fds_block_offsets (drive R) 2 = 3721"
    by (simp_all add: R_def at_payload_fields k2 u2 o2)
  have wR: "fds_raw_data (drive R) 3718 = m"
    unfolding R_def by (simp add: at_payload_raw_below u2 w2)
  have nfR: "faults (lfs R) = []" by (simp add: fR nf)
  define fp3 where "fp3 = (lfp R)\<lparr>fptr := fptr (lfp R) + 16\<rparr>"
  have rdR: "block_read ?K R = (FR_OK, fh, fp3, lfs L)"
    unfolding block_read_no_fault[OF nfR] zR fR fp3_def by (simp add: lf)
  let ?raw3 = "store_bytes (fds_raw_data (drive R)) 3843 fh"
  have okR: "payload_ok ?K R fh"
    by (simp add: payload_ok_def zR uR cR store_bytes_def block_tag_def lf t)
  define c3 where "c3 = spec_crc (load_bytes ?raw3 3843 16)"
  have crc3: "fds_crc (load_bytes ?raw3 3843 16) = Some c3"
    unfolding c3_def by (rule fds_crc_spec) simp
  have no2: "\<not> gap_overflows ?K (block_head ?K L2)"
    by (simp add: gap_overflows_def block_head_fields k2 u2 gap_length_of_def sample_next_gap
          sample_gaps)
  define L3 where "L3 = taken ?K R fh fp3 (lfs L) c3"
  have n3: "load_block ?K L2 = Some (Next L3)"
    unfolding load_block_Next_iff R_def[symmetric] L3_def using no2 rdR okR crc3
    by (simp add: uR zR sample_gaps)
  have "reaches ?K L L3"
    by (rule reaches.turn[OF reaches.turn[OF reaches.turn[OF reaches.start n1] n2] n3])
  moreover have "lfs L3 = lfs L" "min_blocks L3 = uint m * 2 + 2" by (simp_all add: L3_def fR)
  moreover have "fds_block_count (drive L3) = 3" by (simp add: L3_def cR)
  moreover have "fds_used_space (drive L3) = 3861" by (simp add: L3_def uR zR)
  moreover have "fds_block_offsets (drive L3) 1 = 3595" "fds_block_offsets (drive L3) 2 = 3721"
    by (simp_all add: L3_def oR)
  moreover have "fds_raw_data (drive L3) 3718 = m" "fds_raw_data (drive L3) 3856 = fh ! 13"
    "fds_raw_data (drive L3) 3857 = fh ! 14"
    by (simp_all add: L3_def uR zR store_bytes_def wR lf)
  moreover have "rest L3 = behind"
    unfolding L3_def rest_taken[OF rdR] fR by (simp add: lf)
  ultimately show ?thesis by blast
qed

text \<open>
  Image files of one side. \<open>short_rom m fh\<close> holds the disk-info block, a file-amount block
  that announces \<open>m\<close> files, the file header \<open>fh\<close> and zeros. \<open>long_header\<close> announces a file
  of \<open>0xFFDC\<close> bytes, more than the file has left. \<open>big_rom\<close> announces three files and
  holds two file headers of \<open>0x9C40\<close> bytes each, with the data block of the first: the
  data block of the second does not fit the buffer.
\<close>

definition short_rom :: "u8 \<Rightarrow> u8 list \<Rightarrow> u8 list" where
  "short_rom m fh = header_block @ [2, m] @ fh @ replicate 65426 0"

definition long_header :: "u8 list" where
  "long_header = 3 # replicate 12 0 @ [0xDC, 0xFF, 0]"

definition big_header :: "u8 list" where
  "big_header = 3 # replicate 12 0 @ [0x40, 0x9C, 0]"

definition big_rom :: "u8 list" where
  "big_rom = header_block @ [2, 3] @ big_header
             @ ((4 # replicate 40000 0) @ big_header @ replicate 25409 0)"

lemma short_rom_turns:
  assumes lf: "length fh = 16" and t: "fh ! 0 = 3"
  shows "\<exists>L0 L3.
           side_loader sample_consts sample_host (volume_of (short_rom m fh)) ''game.fds'' 0 0
             sample_drive = Some L0 \<and>
           reaches sample_consts L0 L3 \<and> faults (lfs L3) = [] \<and>
           fds_block_count (drive L3) = 3 \<and> fds_used_space (drive L3) = 3861 \<and>
           min_blocks L3 = uint m * 2 + 2 \<and> rest L3 = replicate 65426 0 \<and>
           fds_block_offsets (drive L3) 2 = 3721 \<and>
           fds_raw_data (drive L3) 3856 = fh ! 13 \<and> fds_raw_data (drive L3) 3857 = fh ! 14"
proof -
  let ?K = sample_consts
  have "length (short_rom m fh) = 65500"
    by (simp add: short_rom_def length_header_block lf)
  from volume_of_load[OF this] obtain L0
    where s: "side_loader ?K sample_host (volume_of (short_rom m fh)) ''game.fds'' 0 0
                sample_drive = Some L0"
      and nf: "faults (lfs L0) = []" and r: "rest L0 = short_rom m fh"
    by blast
  from three_turns[OF side_loader_fresh[OF s] nf r[unfolded short_rom_def] lf t] nf s
  show ?thesis by auto
qed

text \<open>The fourth turn, on zeros: a payload of one byte that is not the tag of a data
  block, or a payload that the file does not hold.\<close>

lemma fourth_turn_mismatch:
  assumes nf: "faults (lfs L) = []"
    and c: "fds_block_count (drive L) = 3" and u: "fds_used_space (drive L) = 3861"
    and r: "rest L = replicate 65426 0" and o: "fds_block_offsets (drive L) 2 = 3721"
    and w: "fds_raw_data (drive L) 3856 = 0" "fds_raw_data (drive L) 3857 = 0"
  shows "kind_mismatch sample_consts L"
proof -
  let ?K = sample_consts
  note g = sample_gaps(1)
  define S where "S = at_payload ?K L"
  have cS: "fds_block_count (drive S) = 3" by (simp add: S_def c)
  have uS: "fds_used_space (drive S) = 3983"
    by (simp add: S_def at_payload_used[OF g] c u gap_length_of_def sample_next_gap)
  have oS: "fds_block_offsets (drive S) 2 = 3721"
    by (simp add: S_def at_payload_fields c o)
  have wS: "fds_raw_data (drive S) 3856 = 0" "fds_raw_data (drive S) 3857 = 0"
    unfolding S_def by (simp_all add: at_payload_raw_below u w)
  have zS: "payload_size ?K S = 1"
    by (simp add: payload_size_def cS fds_get_block_size_def oS sample_next_gap wS le16_def)
  have fS: "lfs S = lfs L" "rest S = replicate 65426 0"
    by (simp_all add: S_def r at_payload_fields)
  have nfS: "faults (lfs S) = []" by (simp add: fS nf)
  define fp4 where "fp4 = (lfp S)\<lparr>fptr := fptr (lfp S) + 1\<rparr>"
  have rdS: "block_read ?K S = (FR_OK, replicate 1 0, fp4, lfs L)"
    unfolding block_read_no_fault[OF nfS] zS fS fp4_def by simp
  have no: "\<not> gap_overflows ?K (block_head ?K L)"
    by (simp add: gap_overflows_def block_head_fields c u gap_length_of_def sample_next_gap
          sample_gaps)
  show ?thesis
    unfolding kind_mismatch_def overflow_def S_def[symmetric]
    using no by (simp add: rdS zS uS c store_bytes_def block_tag_def sample_gaps)
qed

lemma fourth_turn_eof:
  assumes nf: "faults (lfs L) = []"
    and c: "fds_block_count (drive L) = 3" and u: "fds_used_space (drive L) = 3861"
    and r: "rest L = replicate 65426 0" and o: "fds_block_offsets (drive L) 2 = 3721"
    and w: "fds_raw_data (drive L) 3856 = 0xDC" "fds_raw_data (drive L) 3857 = 0xFF"
  shows "premature_eof sample_consts L"
proof -
  let ?K = sample_consts
  note g = sample_gaps(1)
  define S where "S = at_payload ?K L"
  have cS: "fds_block_count (drive S) = 3" by (simp add: S_def c)
  have uS: "fds_used_space (drive S) = 3983"
    by (simp add: S_def at_payload_used[OF g] c u gap_length_of_def sample_next_gap)
  have oS: "fds_block_offsets (drive S) 2 = 3721"
    by (simp add: S_def at_payload_fields c o)
  have wS: "fds_raw_data (drive S) 3856 = 0xDC" "fds_raw_data (drive S) 3857 = 0xFF"
    unfolding S_def by (simp_all add: at_payload_raw_below u w)
  have zS: "payload_size ?K S = 65501"
    by (simp add: payload_size_def cS fds_get_block_size_def oS sample_next_gap wS le16_def)
  have fS: "lfs S = lfs L" "rest S = replicate 65426 0"
    by (simp_all add: S_def r at_payload_fields)
  have nfS: "faults (lfs S) = []" by (simp add: fS nf)
  define fp4 where "fp4 = (lfp S)\<lparr>fptr := fptr (lfp S) + 65426\<rparr>"
  have rdS: "block_read ?K S = (FR_OK, replicate 65426 0, fp4, lfs L)"
    unfolding block_read_no_fault[OF nfS] zS fS fp4_def by simp
  have no: "\<not> gap_overflows ?K (block_head ?K L)"
    by (simp add: gap_overflows_def block_head_fields c u gap_length_of_def sample_next_gap
          sample_gaps)
  show ?thesis
    unfolding premature_eof_def overflow_def S_def[symmetric]
    using no by (simp add: rdS zS uS sample_gaps)
qed

lemma fourth_turn_required:
  assumes "fds_block_count (drive L) = 3"
  shows "block_required (block_head sample_consts L) \<longleftrightarrow> 4 < min_blocks L"
  by (simp add: block_required_def block_head_def assms)

lemma length_big_header: "length big_header = 16"
  by (simp add: big_header_def)

lemma header_size_fields:
  "big_header ! 13 = 0x40" "big_header ! 14 = 0x9C"
  "long_header ! 13 = 0xDC" "long_header ! 14 = 0xFF"
  by (simp_all add: big_header_def long_header_def nth_append nth_Cons')

text \<open>The loop on \<open>big_rom\<close>: five blocks are loaded; in the sixth turn the payload of
  40001 bytes does not fit the buffer any more.\<close>

lemma big_rom_turns:
  "\<exists>L0 L5.
     side_loader sample_consts sample_host (volume_of big_rom) ''game.fds'' 0 0 sample_drive
       = Some L0 \<and>
     reaches sample_consts L0 L5 \<and> fds_block_count (drive L5) = 5 \<and>
     min_blocks (block_head sample_consts L5) = 8 \<and>
     overflow sample_consts L5 \<and> block_required (block_head sample_consts L5)"
proof -
  let ?K = sample_consts
  note g = sample_gaps(1)
  have "length big_rom = 65500"
    by (simp add: big_rom_def length_header_block length_big_header)
  from volume_of_load[OF this] obtain L0
    where s: "side_loader ?K sample_host (volume_of big_rom) ''game.fds'' 0 0 sample_drive
                = Some L0"
      and nf: "faults (lfs L0) = []" and r: "rest L0 = big_rom"
    by blast
  have t: "big_header ! 0 = 3" by (simp add: big_header_def)
  from three_turns[OF side_loader_fresh[OF s] nf r[unfolded big_rom_def] length_big_header t]
  obtain L3 where r3: "reaches ?K L0 L3" and f3: "lfs L3 = lfs L0"
    and k3: "fds_block_count (drive L3) = 3" and u3: "fds_used_space (drive L3) = 3861"
    and m3: "min_blocks L3 = uint (3 :: u8) * 2 + 2"
    and t3: "rest L3 = (4 # replicate 40000 0) @ big_header @ replicate 25409 0"
    and o3: "fds_block_offsets (drive L3) 2 = 3721"
    and w3: "fds_raw_data (drive L3) 3856 = big_header ! 13"
      "fds_raw_data (drive L3) 3857 = big_header ! 14"
    by blast
  txt \<open>fourth turn: the data block of the first file\<close>
  define S where "S = at_payload ?K L3"
  have cS: "fds_block_count (drive S) = 3" by (simp add: S_def k3)
  have uS: "fds_used_space (drive S) = 3983"
    by (simp add: S_def at_payload_used[OF g] k3 u3 gap_length_of_def sample_next_gap)
  have oS: "fds_block_offsets (drive S) 2 = 3721"
    by (simp add: S_def at_payload_fields k3 o3)
  have wS: "fds_raw_data (drive S) 3856 = 0x40" "fds_raw_data (drive S) 3857 = 0x9C"
    unfolding S_def by (simp_all add: at_payload_raw_below u3 w3 header_size_fields)
  have zS: "payload_size ?K S = 40001"
    by (simp add: payload_size_def cS fds_get_block_size_def oS sample_next_gap wS le16_def)
  have fS: "lfs S = lfs L0" "rest S = (4 # replicate 40000 0) @ big_header @ replicate 25409 0"
    "min_blocks S = 8"
    by (simp_all add: S_def t3 f3 at_payload_fields block_head_def k3 m3)
  have nfS: "faults (lfs S) = []" by (simp add: fS nf)
  define fp4 where "fp4 = (lfp S)\<lparr>fptr := fptr (lfp S) + 40001\<rparr>"
  have rdS: "block_read ?K S = (FR_OK, 4 # replicate 40000 0, fp4, lfs L0)"
    unfolding block_read_no_fault[OF nfS] zS fS fp4_def by simp
  let ?raw4 = "store_bytes (fds_raw_data (drive S)) 3983 (4 # replicate 40000 0)"
  have okS: "payload_ok ?K S (4 # replicate 40000 0)"
    by (simp add: payload_ok_def zS uS cS store_bytes_def block_tag_def)
  define c4 where "c4 = spec_crc (load_bytes ?raw4 3983 40001)"
  have crc4: "fds_crc (load_bytes ?raw4 3983 40001) = Some c4"
    unfolding c4_def by (rule fds_crc_spec) simp
  have no3: "\<not> gap_overflows ?K (block_head ?K L3)"
    by (simp add: gap_overflows_def block_head_fields k3 u3 gap_length_of_def sample_next_gap
          sample_gaps)
  define L4 where "L4 = taken ?K S (4 # replicate 40000 0) fp4 (lfs L0) c4"
  have n4: "load_block ?K L3 = Some (Next L4)"
    unfolding load_block_Next_iff S_def[symmetric] L4_def using no3 rdS okS crc4
    by (simp add: uS zS sample_gaps)
  have k4: "fds_block_count (drive L4) = 4" by (simp add: L4_def cS)
  have u4: "fds_used_space (drive L4) = 43986" by (simp add: L4_def uS zS)
  have f4: "lfs L4 = lfs L0" "min_blocks L4 = 8" by (simp_all add: L4_def fS)
  have t4: "rest L4 = big_header @ replicate 25409 0"
    unfolding L4_def rest_taken[OF rdS] fS by simp
  txt \<open>fifth turn: the header of the second file\<close>
  define T where "T = at_payload ?K L4"
  have cT: "fds_block_count (drive T) = 4" by (simp add: T_def k4)
  have uT: "fds_used_space (drive T) = 44108"
    by (simp add: T_def at_payload_used[OF g] k4 u4 gap_length_of_def sample_next_gap)
  have oT: "fds_block_offsets (drive T) 4 = 43986"
    by (simp add: T_def at_payload_fields k4 u4)
  have zT: "payload_size ?K T = 16"
    by (simp add: payload_size_def cT fds_get_block_size_def)
  have fT: "lfs T = lfs L0" "rest T = big_header @ replicate 25409 0" "min_blocks T = 8"
    by (simp_all add: T_def t4 f4 at_payload_fields block_head_def k4)
  have nfT: "faults (lfs T) = []" by (simp add: fT nf)
  define fp5 where "fp5 = (lfp T)\<lparr>fptr := fptr (lfp T) + 16\<rparr>"
  have rdT: "block_read ?K T = (FR_OK, big_header, fp5, lfs L0)"
    unfolding block_read_no_fault[OF nfT] zT fT fp5_def by (simp add: length_big_header)
  let ?raw5 = "store_bytes (fds_raw_data (drive T)) 44108 big_header"
  have okT: "payload_ok ?K T big_header"
    by (simp add: payload_ok_def zT uT cT store_bytes_def block_tag_def length_big_header t)
  define c5 where "c5 = spec_crc (load_bytes ?raw5 44108 16)"
  have crc5: "fds_crc (load_bytes ?raw5 44108 16) = Some c5"
    unfolding c5_def by (rule fds_crc_spec) simp
  have no4: "\<not> gap_overflows ?K (block_head ?K L4)"
    by (simp add: gap_overflows_def block_head_fields k4 u4 gap_length_of_def sample_next_gap
          sample_gaps)
  define L5 where "L5 = taken ?K T big_header fp5 (lfs L0) c5"
  have n5: "load_block ?K L4 = Some (Next L5)"
    unfolding load_block_Next_iff T_def[symmetric] L5_def using no4 rdT okT crc5
    by (simp add: uT zT sample_gaps)
  have k5: "fds_block_count (drive L5) = 5" by (simp add: L5_def cT)
  have u5: "fds_used_space (drive L5) = 44126" by (simp add: L5_def uT zT)
  have m5: "min_blocks L5 = 8" by (simp add: L5_def fT)
  have o5: "fds_block_offsets (drive L5) 4 = 43986" by (simp add: L5_def oT)
  have w5: "fds_raw_data (drive L5) 44121 = 0x40" "fds_raw_data (drive L5) 44122 = 0x9C"
    by (simp_all add: L5_def uT zT store_bytes_def length_big_header header_size_fields)
  txt \<open>sixth turn: the gap fits, the payload does not\<close>
  define U where "U = at_payload ?K L5"
  have cU: "fds_block_count (drive U) = 5" by (simp add: U_def k5)
  have uU: "fds_used_space (drive U) = 44248"
    by (simp add: U_def at_payload_used[OF g] k5 u5 gap_length_of_def sample_next_gap)
  have oU: "fds_block_offsets (drive U) 4 = 43986"
    by (simp add: U_def at_payload_fields k5 o5)
  have wU: "fds_raw_data (drive U) 44121 = 0x40" "fds_raw_data (drive U) 44122 = 0x9C"
    unfolding U_def by (simp_all add: at_payload_raw_below u5 w5)
  have zU: "payload_size ?K U = 40001"
    by (simp add: payload_size_def cU fds_get_block_size_def oU sample_next_gap wU le16_def)
  have "overflow ?K L5"
    unfolding overflow_def U_def[symmetric] by (simp add: uU zU sample_gaps)
  moreover have "block_required (block_head ?K L5)"
    by (simp add: block_required_def block_head_def k5 m5)
  moreover have "reaches ?K L0 L5"
    by (rule reaches.turn[OF reaches.turn[OF r3 n4] n5])
  moreover have "min_blocks (block_head ?K L5) = 8" by (simp add: block_head_def k5 m5)
  ultimately show ?thesis using s k5 by blast
qed

lemma fourth_turn_min_blocks:
  "fds_block_count (drive L) = 3 \<Longrightarrow> min_blocks (block_head sample_consts L) = min_blocks L"
  by (simp add: block_head_def)

theorem load_failure_taxonomy_witness:
  "gaps_ok sample_consts \<and> 0 \<le> FDS_MAX_SIDE_SIZE sample_consts \<and>
   (\<exists>L0 L. side_loader sample_consts sample_host (volume_of big_rom) ''game.fds'' 0 0
              sample_drive = Some L0 \<and>
            reaches sample_consts L0 L \<and> fds_block_count (drive L) = 5 \<and>
            min_blocks (block_head sample_consts L) = 8 \<and>
            overflow sample_consts L \<and> block_required (block_head sample_consts L) \<and>
            (\<exists>fs' s'. fds_load_side sample_consts sample_host (volume_of big_rom) ''game.fds''
                        0 0 sample_drive = Some (FDSR_ROM_TOO_LARGE, fs', s'))) \<and>
   (\<exists>L0 L. side_loader sample_consts sample_host (volume_of (short_rom 2 (3 # replicate 15 0)))
              ''game.fds'' 0 0 sample_drive = Some L0 \<and>
            reaches sample_consts L0 L \<and> fds_block_count (drive L) = 3 \<and>
            min_blocks (block_head sample_consts L) = 6 \<and>
            kind_mismatch sample_consts L \<and> block_required (block_head sample_consts L) \<and>
            (\<exists>fs' s'. fds_load_side sample_consts sample_host
                        (volume_of (short_rom 2 (3 # replicate 15 0))) ''game.fds''
                        0 0 sample_drive = Some (FDSR_INVALID_ROM, fs', s'))) \<and>
   (\<exists>L0 L. side_loader sample_consts sample_host (volume_of (short_rom 2 long_header))
              ''game.fds'' 0 0 sample_drive = Some L0 \<and>
            reaches sample_consts L0 L \<and> fds_block_count (drive L) = 3 \<and>
            min_blocks (block_head sample_consts L) = 6 \<and>
            premature_eof sample_consts L \<and> block_required (block_head sample_consts L) \<and>
            (\<exists>fs' s'. fds_load_side sample_consts sample_host
                        (volume_of (short_rom 2 long_header)) ''game.fds''
                        0 0 sample_drive = Some (FDSR_INVALID_ROM, fs', s'))) \<and>
   (\<exists>L0 L. side_loader sample_consts sample_host (volume_of (short_rom 1 (3 # replicate 15 0)))
              ''game.fds'' 0 0 sample_drive = Some L0 \<and>
            reaches sample_consts L0 L \<and> fds_block_count (drive L) = 3 \<and>
            min_blocks (block_head sample_consts L) = 4 \<and>
            kind_mismatch sample_consts L \<and> \<not> block_required (block_head sample_consts L) \<and>
            (\<exists>fs' s'. fds_load_side sample_consts sample_host
                        (volume_of (short_rom 1 (3 # replicate 15 0))) ''game.fds''
                        0 0 sample_drive = Some (FR_OK, fs', s')))"
proof -
  let ?K = sample_consts
  let ?h = sample_host
  have g: "gaps_ok ?K" and mx: "0 \<le> FDS_MAX_SIDE_SIZE ?K" by (simp_all add: sample_gaps)
  have z: "length (3 # replicate 15 (0 :: u8)) = 16" "(3 # replicate 15 (0 :: u8)) ! 0 = 3"
    by simp_all
  have y: "length long_header = 16" "long_header ! 0 = 3"
    by (simp_all add: long_header_def)
  txt \<open>too large\<close>
  from big_rom_turns obtain A0 A
    where a: "side_loader ?K ?h (volume_of big_rom) ''game.fds'' 0 0 sample_drive = Some A0"
      "reaches ?K A0 A" "fds_block_count (drive A) = 5" "min_blocks (block_head ?K A) = 8"
      "overflow ?K A" "block_required (block_head ?K A)"
    by blast
  from load_failure_taxonomy[OF g mx a(1,2)] a(5,6)
  have a': "\<exists>fs' s'. fds_load_side ?K ?h (volume_of big_rom) ''game.fds'' 0 0 sample_drive
              = Some (FDSR_ROM_TOO_LARGE, fs', s')" by blast
  txt \<open>wrong tag, block required\<close>
  from short_rom_turns[OF z, of 2] obtain B0 B
    where b: "side_loader ?K ?h (volume_of (short_rom 2 (3 # replicate 15 0))) ''game.fds'' 0 0
                sample_drive = Some B0"
      "reaches ?K B0 B" "fds_block_count (drive B) = 3"
      and bm: "min_blocks B = 6"
      and bf: "faults (lfs B) = []" "fds_used_space (drive B) = 3861"
        "rest B = replicate 65426 0" "fds_block_offsets (drive B) 2 = 3721"
        "fds_raw_data (drive B) 3856 = 0" "fds_raw_data (drive B) 3857 = 0"
    by auto
  have b4: "min_blocks (block_head ?K B) = 6"
    by (simp add: fourth_turn_min_blocks[OF b(3)] bm)
  have b5: "kind_mismatch ?K B"
    by (rule fourth_turn_mismatch[OF bf(1) b(3) bf(2,3,4,5,6)])
  have b6: "block_required (block_head ?K B)"
    by (simp add: fourth_turn_required[OF b(3)] bm)
  from load_failure_taxonomy[OF g mx b(1,2)] b5 b6
  have b': "\<exists>fs' s'. fds_load_side ?K ?h (volume_of (short_rom 2 (3 # replicate 15 0)))
              ''game.fds'' 0 0 sample_drive = Some (FDSR_INVALID_ROM, fs', s')" by blast
  txt \<open>end of the file, block required\<close>
  from short_rom_turns[OF y, of 2] obtain C0 C
    where c: "side_loader ?K ?h (volume_of (short_rom 2 long_header)) ''game.fds'' 0 0
                sample_drive = Some C0"
      "reaches ?K C0 C" "fds_block_count (drive C) = 3"
      and cm: "min_blocks C = 6"
      and cf: "faults (lfs C) = []" "fds_used_space (drive C) = 3861"
        "rest C = replicate 65426 0" "fds_block_offsets (drive C) 2 = 3721"
        "fds_raw_data (drive C) 3856 = 0xDC" "fds_raw_data (drive C) 3857 = 0xFF"
    by (auto simp: header_size_fields)
  have c4: "min_blocks (block_head ?K C) = 6"
    by (simp add: fourth_turn_min_blocks[OF c(3)] cm)
  have c5: "premature_eof ?K C"
    by (rule fourth_turn_eof[OF cf(1) c(3) cf(2,3,4,5,6)])
  have c6: "block_required (block_head ?K C)"
    by (simp add: fourth_turn_required[OF c(3)] cm)
  from load_failure_taxonomy[OF g mx c(1,2)] c5 c6
  have c': "\<exists>fs' s'. fds_load_side ?K ?h (volume_of (short_rom 2 long_header))
              ''game.fds'' 0 0 sample_drive = Some (FDSR_INVALID_ROM, fs', s')" by blast
  txt \<open>wrong tag, block not required\<close>
  from short_rom_turns[OF z, of 1] obtain D0 D
    where d: "side_loader ?K ?h (volume_of (short_rom 1 (3 # replicate 15 0))) ''game.fds'' 0 0
                sample_drive = Some D0"
      "reaches ?K D0 D" "fds_block_count (drive D) = 3"
      and dm: "min_blocks D = 4"
      and df: "faults (lfs D) = []" "fds_used_space (drive D) = 3861"
        "rest D = replicate 65426 0" "fds_block_offsets (drive D) 2 = 3721"
        "fds_raw_data (drive D) 3856 = 0" "fds_raw_data (drive D) 3857 = 0"
    by auto
  have d4: "min_blocks (block_head ?K D) = 4"
    by (simp add: fourth_turn_min_blocks[OF d(3)] dm)
  have d5: "kind_mismatch ?K D"
    by (rule fourth_turn_mismatch[OF df(1) d(3) df(2,3,4,5,6)])
  have d6: "\<not> block_required (block_head ?K D)"
    by (simp add: fourth_turn_required[OF d(3)] dm)
  from load_failure_taxonomy[OF g mx d(1,2)] d5 d6
  have d': "\<exists>fs' s'. fds_load_side ?K ?h (volume_of (short_rom 1 (3 # replicate 15 0)))
              ''game.fds'' 0 0 sample_drive = Some (FR_OK, fs', s')" by blast
  have pa: "\<exists>L0 L. side_loader ?K ?h (volume_of big_rom) ''game.fds'' 0 0
              sample_drive = Some L0 \<and>
            reaches ?K L0 L \<and> fds_block_count (drive L) = 5 \<and>
            min_blocks (block_head ?K L) = 8 \<and>
            overflow ?K L \<and> block_required (block_head ?K L) \<and>
            (\<exists>fs' s'. fds_load_side ?K ?h (volume_of big_rom) ''game.fds''
                        0 0 sample_drive = Some (FDSR_ROM_TOO_LARGE, fs', s'))"
    using a a' by blast
  have pb: "\<exists>L0 L. side_loader ?K ?h (volume_of (short_rom 2 (3 # replicate 15 0)))
              ''game.fds'' 0 0 sample_drive = Some L0 \<and>
            reaches ?K L0 L \<and> fds_block_count (drive L) = 3 \<and>
            min_blocks (block_head ?K L) = 6 \<and>
            kind_mismatch ?K L \<and> block_required (block_head ?K L) \<and>
            (\<exists>fs' s'. fds_load_side ?K ?h
                        (volume_of (short_rom 2 (3 # replicate 15 0))) ''game.fds''
                        0 0 sample_drive = Some (FDSR_INVALID_ROM, fs', s'))"
    using b b4 b5 b6 b' by blast
  have pc: "\<exists>L0 L. side_loader ?K ?h (volume_of (short_rom 2 long_header))
              ''game.fds'' 0 0 sample_drive = Some L0 \<and>
            reaches ?K L0 L \<and> fds_block_count (drive L) = 3 \<and>
            min_blocks (block_head ?K L) = 6 \<and>
            premature_eof ?K L \<and> block_required (block_head ?K L) \<and>
            (\<exists>fs' s'. fds_load_side ?K ?h
                        (volume_of (short_rom 2 long_header)) ''game.fds''
                        0 0 sample_drive = Some (FDSR_INVALID_ROM, fs', s'))"
    using c c4 c5 c6 c' by blast
  have pd: "\<exists>L0 L. side_loader ?K ?h (volume_of (short_rom 1 (3 # replicate 15 0)))
              ''game.fds'' 0 0 sample_drive = Some L0 \<and>
            reaches ?K L0 L \<and> fds_block_count (drive L) = 3 \<and>
            min_blocks (block_head ?K L) = 4 \<and>
            kind_mismatch ?K L \<and> \<not> block_required (block_head ?K L) \<and>
            (\<exists>fs' s'. fds_load_side ?K ?h
                        (volume_of (short_rom 1 (3 # replicate 15 0))) ''game.fds''
                        0 0 sample_drive = Some (FR_OK, fs', s'))"
    using d d4 d5 d6 d' by blast
  from g mx pa pb pc pd show ?thesis by (intro conjI)
qed

section \<open>The reload of a saved image\<close>

text \<open>The address behind block \<open>i\<close> and its two CRC bytes.\<close>

definition end_of :: "fds_consts \<Rightarrow> fds \<Rightarrow> int \<Rightarrow> int" where
  "end_of K t i = payload_addr K t i + fds_get_block_size K t i False False + 2"

text \<open>The block index of an image as \<^verbatim>\<open>fds_load_side\<close> and \<^verbatim>\<open>fds_reset_writing\<close> build
  it: block 0 at offset 0, each other block behind the CRC of the block before it, and
  all of them inside the buffer.\<close>

definition laid_out :: "fds_consts \<Rightarrow> fds \<Rightarrow> bool" where
  "laid_out K t \<longleftrightarrow>
     0 \<le> fds_block_count t \<and>
     (\<forall>i. 0 \<le> i \<and> i < fds_block_count t \<longrightarrow>
        fds_block_offsets t i = (if i = 0 then 0 else end_of K t (i - 1)) \<and>
        end_of K t i \<le> FDS_MAX_SIDE_SIZE K)"

text \<open>The blocks of an image are of the kinds that \<^verbatim>\<open>fds_load_side\<close> expects: no
  payload is empty, each starts with the tag of its kind, and the first holds the
  signature.\<close>

definition tagged :: "fds_consts \<Rightarrow> fds \<Rightarrow> bool" where
  "tagged K t \<longleftrightarrow>
     (\<forall>i. 0 \<le> i \<and> i < fds_block_count t \<longrightarrow>
        0 < fds_get_block_size K t i False False \<and>
        fds_raw_data t (payload_addr K t i) = block_tag i) \<and>
     (0 < fds_block_count t \<longrightarrow>
        load_bytes (fds_raw_data t) (payload_addr K t 0 + 1) 14 = signature)"

text \<open>Drive \<open>s\<close> holds the blocks of drive \<open>t\<close>: each at the same offset, of the same
  size, with the same payload bytes and the same two CRC bytes behind them.\<close>

definition holds_blocks :: "fds_consts \<Rightarrow> fds \<Rightarrow> fds \<Rightarrow> bool" where
  "holds_blocks K s t \<longleftrightarrow>
     fds_block_count t \<le> fds_block_count s \<and>
     (\<forall>i. 0 \<le> i \<and> i < fds_block_count t \<longrightarrow>
        fds_block_offsets s i = fds_block_offsets t i \<and>
        fds_get_block_size K s i False False = fds_get_block_size K t i False False \<and>
        block_with_crc K s i = block_with_crc K t i)"

text \<open>The loader after \<open>k\<close> turns on a file that holds the payloads of \<open>t\<close>: it has
  the first \<open>k\<close> blocks of \<open>t\<close>, and the payloads of the others are next in the file.\<close>

definition replayed :: "fds_consts \<Rightarrow> fds \<Rightarrow> u8 list \<Rightarrow> loader \<Rightarrow> int \<Rightarrow> bool" where
  "replayed K t behind M k \<longleftrightarrow>
     fds_block_count (drive M) = k \<and>
     fds_used_space (drive M) = (if k = 0 then 0 else end_of K t (k - 1)) \<and>
     blocks_below K (drive M) \<and>
     (\<forall>i. 0 \<le> i \<and> i < k \<longrightarrow>
        fds_block_offsets (drive M) i = fds_block_offsets t i \<and>
        fds_get_block_size K (drive M) i False False = fds_get_block_size K t i False False \<and>
        block_with_crc K (drive M) i = block_with_crc K t i) \<and>
     rest M = side_bytes K t k @ behind"

lemma check_crcs_ok:
  assumes "check_crcs K s i = Some True" and "i \<le> j" and "j < fds_block_count s"
  shows "\<exists>c. fds_crc (block_payload K s j) = Some c \<and> stored_crc K s j = uint c"
  using assms
proof (induction "nat (fds_block_count s - i)" arbitrary: i)
  case 0
  then show ?case by simp
next
  case (Suc n)
  then have l: "i < fds_block_count s" and n: "n = nat (fds_block_count s - (i + 1))"
    by simp_all
  from Suc.prems(1) l obtain c where c: "fds_crc (block_payload K s i) = Some c"
    and e: "uint c = stored_crc K s i" and r: "check_crcs K s (i + 1) = Some True"
    by (auto simp: check_crcs_unfold[of K s i] split: option.splits if_splits)
  show ?case
  proof (cases "j = i")
    case True
    with c e show ?thesis by simp
  next
    case False
    with Suc.prems(2) have "i + 1 \<le> j" by simp
    from Suc.hyps(1)[OF n r this Suc.prems(3)] show ?thesis .
  qed
qed

lemma check_crcs_crcs_ok: "check_crcs K s 0 = Some True \<Longrightarrow> crcs_ok K s"
  unfolding crcs_ok_def using check_crcs_ok[of K s 0] by blast

lemma le16_inj:
  assumes "le16 lo hi = uint (c :: u16)"
  shows "lo = ucast c" and "hi = ucast (drop_bit 8 c)"
proof -
  have b: "bit (le16 lo hi) n = bit (uint c) n" for n using assms by simp
  show "lo = ucast c"
  proof (rule bit_eqI)
    fix n assume "possible_bit TYPE(u8) n"
    then have n: "n < 8" by (simp add: possible_bit_def)
    from b[of n] n show "bit lo n = bit (ucast c :: u8) n"
      by (auto simp: le16_def bit_or_iff bit_push_bit_iff bit_uint_iff bit_ucast_iff)
  qed
  show "hi = ucast (drop_bit 8 c)"
  proof (rule bit_eqI)
    fix n assume "possible_bit TYPE(u8) n"
    then have n: "n < 8" by (simp add: possible_bit_def)
    from b[of "n + 8"] n show "bit hi n = bit (ucast (drop_bit 8 c) :: u8) n"
      by (auto simp: le16_def bit_or_iff bit_push_bit_iff bit_uint_iff bit_ucast_iff
            bit_drop_bit_eq add.commute dest: bit_imp_le_length)
  qed
qed

lemma load_bytes_Suc:
  "0 \<le> n \<Longrightarrow> load_bytes raw p (n + 1) = load_bytes raw p n @ [raw (p + n)]"
  by (simp add: load_bytes_def nat_add_distrib)

lemma block_with_crc_split:
  "block_with_crc K s i =
     block_payload K s i
     @ [fds_raw_data s (payload_addr K s i + fds_get_block_size K s i False False),
        fds_raw_data s (payload_addr K s i + fds_get_block_size K s i False False + 1)]"
proof -
  have z: "0 \<le> fds_get_block_size K s i False False" by (rule fds_get_block_size_nonneg)
  have "fds_get_block_size K s i False False + 2 = fds_get_block_size K s i False False + 1 + 1"
    by simp
  then show ?thesis
    unfolding block_with_crc_def block_payload_def using z
    by (simp only: load_bytes_Suc) (simp add: load_bytes_Suc add.assoc)
qed

lemma block_with_crc_stored:
  assumes "fds_crc (block_payload K s i) = Some c" and "stored_crc K s i = uint c"
  shows "block_with_crc K s i = block_payload K s i @ [ucast c, ucast (drop_bit 8 c)]"
  using le16_inj[OF assms(2)[unfolded stored_crc_def]] by (simp add: block_with_crc_split)

text \<open>The size of a file-data block, read from the header block before it.\<close>

definition size_via :: "u8 list \<Rightarrow> int" where
  "size_via header = (1 + le16 (header ! 13) (header ! 14)) mod 65536"

lemma size_from_header:
  assumes "\<not> (i = 0 \<or> i = 1 \<or> i mod 2 = 0)" and "0 \<le> i"
  shows "fds_get_block_size K s i False False = size_via (block_with_crc K s (i - 1))"
proof -
  from assms have j: "i - 1 \<noteq> 0" "i - 1 \<noteq> 1" "(i - 1) mod 2 = 0" by presburger+
  have z: "fds_get_block_size K s (i - 1) False False = 16"
    using j by (simp add: fds_get_block_size_def)
  have a: "payload_addr K s (i - 1) = fds_block_offsets s (i - 1) + next_gap K"
    using j by (simp add: payload_addr_gap gap_length_of_def)
  have "block_with_crc K s (i - 1) ! 13 = fds_raw_data s (fds_block_offsets s (i - 1) + next_gap K + 13)"
    "block_with_crc K s (i - 1) ! 14 = fds_raw_data s (fds_block_offsets s (i - 1) + next_gap K + 14)"
    unfolding block_with_crc_def z a by (simp_all add: load_bytes_def)
  then show ?thesis using assms by (simp add: fds_get_block_size_def size_via_def)
qed

lemma take_drop_load_bytes:
  assumes "int (k + n) \<le> m"
  shows "take n (drop k (load_bytes raw p m)) = load_bytes raw (p + int k) (int n)"
proof (rule nth_equalityI)
  show "length (take n (drop k (load_bytes raw p m))) = length (load_bytes raw (p + int k) (int n))"
    using assms by simp
next
  fix i assume "i < length (take n (drop k (load_bytes raw p m)))"
  then have i: "i < n" by simp
  with assms have "k + i < nat m" by simp
  with i assms show "take n (drop k (load_bytes raw p m)) ! i = load_bytes raw (p + int k) (int n) ! i"
    by (simp add: load_bytes_def add.assoc)
qed

lemma side_bytes_step:
  "i < fds_block_count t \<Longrightarrow> side_bytes K t i = block_payload K t i @ side_bytes K t (i + 1)"
  by (simp add: side_bytes.simps[of K t i])

lemma block_with_crc_agree:
  assumes b: "blocks_below K s" and g: "gaps_ok K"
    and r: "agree (fds_used_space s) (fds_raw_data t) (fds_raw_data s)"
    and o: "agree (fds_block_count s) (fds_block_offsets t) (fds_block_offsets s)"
    and i: "0 \<le> i" "i < fds_block_count s"
  shows "block_with_crc K t i = block_with_crc K s i"
proof -
  from i have i': "i \<le> fds_block_count s" by simp
  have e: "fds_block_offsets t i = fds_block_offsets s i" by (rule agreeD[OF o i])
  have z: "fds_get_block_size K t i False False = fds_get_block_size K s i False False"
    by (rule block_size_agree[OF b g r o i(1) i'])
  from blocks_belowD[OF b i] gap_length_of_pos[OF g, of i]
  have p: "0 \<le> payload_addr K s i"
    "payload_addr K s i + (fds_get_block_size K s i False False + 2) \<le> fds_used_space s"
    by (simp_all add: payload_addr_gap)
  show ?thesis
    unfolding block_with_crc_def z payload_addr_gap e
    by (rule agree_load_bytes[OF r p[unfolded payload_addr_gap]])
qed

text \<open>A turn of the loop on the file that holds the payloads of \<open>t\<close>: it takes the
  next block of \<open>t\<close>, unless the read fails.\<close>

lemma replay_turn:
  assumes g: "gaps_ok K" and lo: "laid_out K t" and tg: "tagged K t" and ck: "crcs_ok K t"
    and r: "replayed K t behind M k" and k: "0 \<le> k" "k < fds_block_count t"
  shows "(\<exists>M'. load_block K M = Some (Next M') \<and> replayed K t behind M' (k + 1) \<and>
               (faults (lfs M) = [] \<longrightarrow> faults (lfs M') = [])) \<or>
         (faults (lfs M) \<noteq> [] \<and> (\<exists>M'. load_block K M = Some (Return FR_DISK_ERR M')))"
proof -
  let ?P = "at_payload K M"
  let ?s = "drive M"
  let ?u = "fds_used_space ?s"
  let ?g = "gap_length_of K k"
  let ?z = "fds_get_block_size K t k False False"
  from r have cnt: "fds_block_count ?s = k"
    and used: "?u = (if k = 0 then 0 else end_of K t (k - 1))"
    and b: "blocks_below K ?s"
    and rs: "rest M = side_bytes K t k @ behind"
    by (simp_all add: replayed_def)
  from r have eq: "fds_block_offsets ?s i = fds_block_offsets t i \<and>
        fds_get_block_size K ?s i False False = fds_get_block_size K t i False False \<and>
        block_with_crc K ?s i = block_with_crc K t i" if "0 \<le> i" "i < k" for i
    using that by (simp add: replayed_def)
  from lo k have ot: "fds_block_offsets t k = ?u" and fit: "end_of K t k \<le> FDS_MAX_SIDE_SIZE K"
    by (simp_all add: laid_out_def used)
  from tg k have z0: "0 < ?z" and tag: "fds_raw_data t (payload_addr K t k) = block_tag k"
    by (simp_all add: tagged_def)
  have g1: "1 \<le> ?g" by (rule gap_length_of_pos[OF g])
  have up: "fds_used_space (drive ?P) = ?u + ?g" using at_payload_used[OF g, of M] by (simp add: cnt)
  have pa: "payload_addr K t k = ?u + ?g" by (simp add: payload_addr_gap ot)
  have zz: "fds_get_block_size K ?s k False False = ?z"
  proof (cases "k = 0 \<or> k = 1 \<or> k mod 2 = 0")
    case True
    then show ?thesis by (auto simp: fds_get_block_size_def)
  next
    case False
    from False k(1) have "0 \<le> k - 1" "k - 1 < k" by simp_all
    from eq[OF this] show ?thesis
      by (simp add: size_from_header[OF False k(1)])
  qed
  have sz: "payload_size K ?P = ?z"
    using payload_size_at_payload[OF g b] by (simp add: cnt zz)
  have ng: "\<not> gap_overflows K (block_head K M)"
    using fit z0 by (simp add: gap_overflows_def block_head_def cnt end_of_def pa)
  have fitP: "fds_used_space (drive ?P) + payload_size K ?P + 2 \<le> FDS_MAX_SIDE_SIZE K"
    using fit by (simp add: up sz end_of_def pa)
  define bytes where "bytes = block_payload K t k"
  have len: "int (length bytes) = ?z" unfolding bytes_def by (rule length_block_payload)
  have ln: "nat ?z = length bytes" using len by simp
  have rp: "rest M = bytes @ side_bytes K t (k + 1) @ behind"
    by (simp add: rs side_bytes_step[OF k(2)] bytes_def)
  have tk: "take (nat (payload_size K ?P)) (rest ?P) = bytes"
    by (simp add: rp sz ln)
  from ck k obtain c where c: "fds_crc bytes = Some c" and st: "stored_crc K t k = uint c"
    by (auto simp: crcs_ok_def bytes_def)
  from block_read_cases[of K ?P] show ?thesis
  proof (elim disjE exE)
    fix fp1 fs1 assume rd: "block_read K ?P = (FR_DISK_ERR, [], fp1, fs1)"
    have "faults (lfs M) \<noteq> []"
    proof
      assume "faults (lfs M) = []"
      then have "faults (lfs ?P) = []" by (simp add: at_payload_fields)
      from block_read_no_fault[OF this, of K] rd show False by simp
    qed
    moreover from read_block_fault[OF fitP rd]
    have "\<exists>M'. load_block K M = Some (Return FR_DISK_ERR M')"
      by (simp add: load_block_at_payload[OF ng])
    ultimately show ?thesis by simp
  next
    fix bs fp1 fs1 assume rd0: "block_read K ?P = (FR_OK, bs, fp1, fs1)"
    from block_read_ok(1)[OF rd0] have "bs = bytes" unfolding tk .
    with rd0 have rd: "block_read K ?P = (FR_OK, bytes, fp1, fs1)" by simp
    have l0: "0 < length bytes" using len z0 by auto
    have b0: "bytes ! 0 = block_tag k"
      using z0 tag by (simp add: bytes_def block_payload_def load_bytes_def)
    have t1: "store_bytes (fds_raw_data (drive ?P)) (fds_used_space (drive ?P)) bytes
                (fds_used_space (drive ?P)) = block_tag k"
      using l0 b0 by (simp add: store_bytes_def)
    have t2: "load_bytes (store_bytes (fds_raw_data (drive ?P)) (fds_used_space (drive ?P)) bytes)
                (fds_used_space (drive ?P) + 1) 14 = signature" if k0: "k = 0"
    proof -
      have z56: "?z = 56" by (simp add: k0 fds_get_block_size_def)
      with len have l: "1 + 14 \<le> length bytes" by simp
      from load_bytes_store_sub[OF l, of "fds_raw_data (drive ?P)" "fds_used_space (drive ?P)"]
      have "load_bytes (store_bytes (fds_raw_data (drive ?P)) (fds_used_space (drive ?P)) bytes)
              (fds_used_space (drive ?P) + 1) 14 = take 14 (drop 1 bytes)" by simp
      also have "\<dots> = load_bytes (fds_raw_data t) (payload_addr K t k + int 1) (int 14)"
        unfolding bytes_def block_payload_def
        by (rule take_drop_load_bytes) (simp add: z56)
      also have "\<dots> = signature" using tg k by (simp add: tagged_def k0)
      finally show ?thesis .
    qed
    have ok: "payload_ok K ?P bytes"
      unfolding payload_ok_def using t1 t2 by (simp add: len sz cnt)
    have lb: "load_bytes (store_bytes (fds_raw_data (drive ?P)) (fds_used_space (drive ?P)) bytes)
                (fds_used_space (drive ?P)) (payload_size K ?P) = bytes"
      using load_bytes_store_sub[of 0 "length bytes" bytes "fds_raw_data (drive ?P)"
              "fds_used_space (drive ?P)"] len
      by (simp add: sz)
    define M' where "M' = taken K ?P bytes fp1 fs1 c"
    have n: "load_block K M = Some (Next M')"
      unfolding load_block_Next_iff M'_def using ng fitP rd ok c by (auto simp: lb)
    note v = load_block_Next_inv[OF g b n]
    have cnt': "fds_block_count (drive M') = k + 1" using v(5) by (simp add: cnt)
    have used': "fds_used_space (drive M') = end_of K t k"
      by (simp add: M'_def up sz end_of_def pa)
    have off': "fds_block_offsets (drive M') = (fds_block_offsets ?s)(k := ?u)"
      by (simp add: M'_def at_payload_fields cnt)
    have raw': "fds_raw_data (drive M')
                  = (store_bytes (fds_raw_data (drive ?P)) (?u + ?g) bytes)
                      (?u + ?g + ?z := ucast c, ?u + ?g + ?z + 1 := ucast (drop_bit 8 c))"
      by (simp add: M'_def up sz)
    have size': "fds_get_block_size K (drive M') i False False
                   = fds_get_block_size K ?s i False False" if "0 \<le> i" "i \<le> k" for i
      using block_size_agree[OF b g v(6,7), of i] that by (simp add: cnt)
    have blk: "fds_block_offsets (drive M') i = fds_block_offsets t i \<and>
        fds_get_block_size K (drive M') i False False = fds_get_block_size K t i False False \<and>
        block_with_crc K (drive M') i = block_with_crc K t i" if i: "0 \<le> i" "i < k + 1" for i
    proof (cases "i = k")
      case False
      with i have l: "0 \<le> i" "i < k" "i \<le> k" by simp_all
      from l have lc: "i < fds_block_count ?s" by (simp add: cnt)
      have "block_with_crc K (drive M') i = block_with_crc K ?s i"
        by (rule block_with_crc_agree[OF b g v(6,7) l(1) lc])
      with eq[OF l(1,2)] size'[OF l(1,3)] l show ?thesis by (simp add: off')
    next
      case True
      have a: "payload_addr K (drive M') k = ?u + ?g" by (simp add: payload_addr_gap off')
      have s: "fds_get_block_size K (drive M') k False False = ?z"
        using size'[OF k(1) order_refl] by (simp add: zz)
      have p: "block_payload K (drive M') k = bytes"
        unfolding block_payload_def a s raw' by (rule load_bytes_store_bytes[OF len])
      have "stored_crc K (drive M') k = uint c"
        unfolding stored_crc_def a s raw' by (simp add: le16_ucast)
      from block_with_crc_stored[of K "drive M'" k c] this c
      have "block_with_crc K (drive M') k = bytes @ [ucast c, ucast (drop_bit 8 c)]"
        by (simp add: p)
      moreover from block_with_crc_stored[of K t k c] c st
      have "block_with_crc K t k = bytes @ [ucast c, ucast (drop_bit 8 c)]"
        by (simp add: bytes_def)
      ultimately show ?thesis using s ot by (simp add: True off')
    qed
    have rest': "rest M' = side_bytes K t (k + 1) @ behind"
      using rest_taken[OF rd, of c] by (simp add: M'_def rp)
    have fl: "faults (lfs M') = []" if f: "faults (lfs M) = []"
    proof -
      from f have "faults (lfs ?P) = []" by (simp add: at_payload_fields)
      from block_read_no_fault[OF this, of K] rd have "fs1 = lfs ?P" by simp
      then show ?thesis using f by (simp add: M'_def at_payload_fields)
    qed
    have "replayed K t behind M' (k + 1)"
      unfolding replayed_def using cnt' used' v(1) blk rest' k(1) by simp
    with n fl show ?thesis by blast
  qed
qed

text \<open>The turns after the last block of \<open>t\<close> leave the blocks of \<open>t\<close> alone.\<close>

lemma load_loop_keeps:
  assumes "gaps_ok K" and "blocks_below K (drive L)" and "load_loop K L = Some (Loaded L1)"
  shows "fds_block_count (drive L) \<le> fds_block_count (drive L1) \<and>
         agree (fds_used_space (drive L)) (fds_raw_data (drive L1)) (fds_raw_data (drive L)) \<and>
         agree (fds_block_count (drive L)) (fds_block_offsets (drive L1))
           (fds_block_offsets (drive L))"
  using assms
proof (induction K L rule: load_loop.induct)
  case (1 K L)
  show ?case
  proof (cases "load_block K L")
    case None
    with "1.prems"(3) show ?thesis by (simp add: load_loop.simps[of K L])
  next
    case (Some x)
    show ?thesis
    proof (cases x)
      case (Next L')
      with Some have n: "load_block K L = Some (Next L')" by simp
      note i = load_block_Next_inv[OF "1.prems"(1,2) n]
      from "1.prems"(3) have "load_loop K L' = Some (Loaded L1)"
        by (simp add: load_loop_Next[OF n])
      note h = "1.IH"[OF Some Next "1.prems"(1) i(1) this]
      from i(1) "1.prems"(2) i(5) have u: "fds_used_space (drive L) \<le> fds_used_space (drive L')"
      proof -
        from n[unfolded load_block_Next_iff] obtain bytes fp1 fs1 crc
          where L': "L' = taken K (at_payload K L) bytes fp1 fs1 crc" by blast
        have "0 \<le> payload_size K (at_payload K L)"
          by (simp add: payload_size_def fds_get_block_size_nonneg)
        with gap_length_of_pos[OF "1.prems"(1), of "fds_block_count (drive L)"]
        show ?thesis by (simp add: L' at_payload_used[OF "1.prems"(1)])
      qed
      have c: "fds_block_count (drive L) \<le> fds_block_count (drive L')" by (simp add: i(5))
      from h have "agree (fds_used_space (drive L)) (fds_raw_data (drive L1)) (fds_raw_data (drive L'))"
        "agree (fds_block_count (drive L)) (fds_block_offsets (drive L1)) (fds_block_offsets (drive L'))"
        using u c by (auto intro: agree_less)
      with i(6,7) h c show ?thesis by (auto intro: agree_trans)
    next
      case (Break L')
      with Some have n: "load_block K L = Some (Break L')" by simp
      note i = load_block_Break_inv[OF "1.prems"(1) n]
      from "1.prems"(3) have e: "L1 = L'" by (simp add: load_loop_Break[OF n])
      show ?thesis unfolding e using i by simp
    next
      case (Return r L')
      with Some have "load_block K L = Some (Return r L')" by simp
      with "1.prems"(3) show ?thesis by (simp add: load_loop_Return)
    qed
  qed
qed

text \<open>The loop on the file that holds the payloads of \<open>t\<close>: what it accepts holds the
  blocks of \<open>t\<close>.\<close>

lemma replay_loop:
  assumes g: "gaps_ok K" and lo: "laid_out K t" and tg: "tagged K t" and ck: "crcs_ok K t"
    and r: "replayed K t behind M k" and k: "0 \<le> k" "k \<le> fds_block_count t"
    and l: "load_loop K M = Some (Loaded M1)"
  shows "holds_blocks K (drive M1) t"
  using r k l
proof (induction "nat (fds_block_count t - k)" arbitrary: M k)
  case 0
  then have e: "k = fds_block_count t" by simp
  from "0.prems"(1) have cnt: "fds_block_count (drive M) = k"
    and b: "blocks_below K (drive M)" by (simp_all add: replayed_def)
  from load_loop_keeps[OF g b "0.prems"(4)]
  have c: "k \<le> fds_block_count (drive M1)"
    and ar: "agree (fds_used_space (drive M)) (fds_raw_data (drive M1)) (fds_raw_data (drive M))"
    and ao: "agree (fds_block_count (drive M)) (fds_block_offsets (drive M1))
               (fds_block_offsets (drive M))"
    by (simp_all add: cnt)
  have "fds_block_offsets (drive M1) i = fds_block_offsets t i \<and>
        fds_get_block_size K (drive M1) i False False = fds_get_block_size K t i False False \<and>
        block_with_crc K (drive M1) i = block_with_crc K t i" if i: "0 \<le> i" "i < k" for i
  proof -
    from i have ic: "i < fds_block_count (drive M)" "i \<le> fds_block_count (drive M)"
      by (simp_all add: cnt)
    from "0.prems"(1) i
    have "fds_block_offsets (drive M) i = fds_block_offsets t i \<and>
        fds_get_block_size K (drive M) i False False = fds_get_block_size K t i False False \<and>
        block_with_crc K (drive M) i = block_with_crc K t i" by (simp add: replayed_def)
    with agreeD[OF ao i(1) ic(1)] block_size_agree[OF b g ar ao i(1) ic(2), of False False]
      block_with_crc_agree[OF b g ar ao i(1) ic(1)]
    show ?thesis by simp
  qed
  with c show ?case by (simp add: holds_blocks_def e)
next
  case (Suc n)
  then have lt: "k < fds_block_count t" and n: "n = nat (fds_block_count t - (k + 1))"
    and k1: "0 \<le> k + 1" "k + 1 \<le> fds_block_count t" by simp_all
  from replay_turn[OF g lo tg ck Suc.prems(1,2) lt] show ?case
  proof (elim disjE exE conjE)
    fix M' assume nx: "load_block K M = Some (Next M')" and r': "replayed K t behind M' (k + 1)"
    from Suc.prems(4) have "load_loop K M' = Some (Loaded M1)"
      by (simp add: load_loop_Next[OF nx])
    from Suc.hyps(1)[OF n r' k1 this] show ?thesis .
  next
    fix M' assume "load_block K M = Some (Return FR_DISK_ERR M')"
    with Suc.prems(4) show ?thesis by (simp add: load_loop_Return)
  qed
qed

lemma fresh_replayed:
  assumes "fresh K name side M" and "0 \<le> FDS_MAX_SIDE_SIZE K"
    and "rest M = side_bytes K t 0 @ behind"
  shows "replayed K t behind M 0"
  using assms fresh_blocks_below[OF assms(1,2)] by (auto simp: replayed_def fresh_def)

lemma holds_blocks_image:
  assumes "same_image s s'" and "holds_blocks K s' t"
  shows "holds_blocks K s t"
proof -
  from assms(1) have s: "fds_block_count s = fds_block_count s'"
    "fds_block_offsets s = fds_block_offsets s'" "fds_raw_data s = fds_raw_data s'"
    by (simp_all add: same_image_def)
  have z: "fds_get_block_size K s i x y = fds_get_block_size K s' i x y" for i x y
    by (simp add: fds_get_block_size_def s)
  have w: "block_with_crc K s i = block_with_crc K s' i" for i
    by (simp add: block_with_crc_def payload_addr_def z s)
  from assms(2) show ?thesis unfolding holds_blocks_def z w s .
qed

text \<open>What a save that succeeds found and did: the image is not read-only, every
  block passed the CRC guard, and the image was written.\<close>

lemma fds_save_ok:
  assumes sv: "fds_save K h fs t = Some (FR_OK, fs', t')" and ch: "fds_changed t \<noteq> 0"
    and ip: "backup_original h = SAVES_IN_PLACE"
  shows "fds_readonly t = 0" and "crcs_ok K t" and "write_image K h fs [] t = (FR_OK, fs', t')"
proof -
  from sv ch show ro: "fds_readonly t = 0" by (auto simp: fds_save_def split: if_splits)
  from sv ch ro have "check_crcs K t 0 = Some True"
    by (auto simp: fds_save_def split: if_splits option.splits bool.splits)
  then show "crcs_ok K t" by (rule check_crcs_crcs_ok)
  from sv ch ip show "write_image K h fs [] t = (FR_OK, fs', t')"
    unfolding fds_save_def by (auto simp: prepare_backup_in_place split: if_splits option.splits bool.splits)
qed

text \<open>The file after a save of an image whose payloads end inside it.\<close>

lemma fds_save_content:
  assumes sv: "fds_save K h fs t = Some (FR_OK, fs', t')" and ch: "fds_changed t \<noteq> 0"
    and ip: "backup_original h = SAVES_IN_PLACE"
    and m: "int (length (content fs (fds_filename t))) mod FDS_ROM_SIDE_SIZE = 0 \<or>
            int (length (content fs (fds_filename t))) mod FDS_ROM_SIDE_SIZE = 16"
    and fit: "side_offset (length (content fs (fds_filename t))) (fds_side t)
                + length (side_bytes K t 0) \<le> length (content fs (fds_filename t))"
  shows "content fs' (fds_filename t)
           = take (side_offset (length (content fs (fds_filename t))) (fds_side t))
               (content fs (fds_filename t))
             @ side_bytes K t 0
             @ drop (side_offset (length (content fs (fds_filename t))) (fds_side t)
                     + length (side_bytes K t 0))
                 (content fs (fds_filename t))"
proof -
  let ?F = "fds_filename t"
  let ?c = "content fs ?F"
  let ?tt = "side_offset (length ?c) (fds_side t)"
  have dn: "dest_name h [] t = ?F" using ip by (simp add: dest_name_def)
  note wc = write_image_content[OF fds_save_ok(3)[OF sv ch ip], unfolded dn]
  have tg: "nat (int (length ?c) mod FDS_ROM_SIDE_SIZE + uint (fds_side t) * FDS_ROM_SIDE_SIZE) = ?tt"
    by (rule side_offset_save[OF m])
  from fit have "?tt \<le> length ?c" by simp
  then have a: "after_seek fs ?F (fds_side t) = (?tt, ?c)"
    by (simp add: after_seek_def Let_def tg)
  from wc show ?thesis by (simp add: a)
qed

text \<open>What a load that succeeds leaves in \<^verbatim>\<open>fds_filename\<close> and \<^verbatim>\<open>fds_side\<close>.\<close>

lemma fds_load_side_names:
  assumes g: "gaps_ok K" and mx: "0 \<le> FDS_MAX_SIDE_SIZE K"
    and l: "fds_load_side K h fs name side ro s = Some (FR_OK, fs', s')"
    and ne: "backup_original h \<noteq> SAVES_EVERDRIVE"
    and q: "FDS_SCAN_MEDIA_Pin h = GPIO_PIN_SET \<or> FDS_WRITE_Pin h = GPIO_PIN_SET"
  shows "fds_filename s' = strlcpy K name" and "fds_side s' = side"
proof -
  from fds_load_side_ok[OF l ne] obtain L0 L1
    where f0: "fresh K name side L0" and ll: "load_loop K L0 = Some (Loaded L1)"
      and s': "s' = loaded_drive K h L1"
    by (elim exE conjE) (rule that)
  from load_loop_inv[OF g fresh_blocks_below[OF f0 mx] ll]
  have fn: "fds_filename (drive L1) = fds_filename (drive L0)"
    and sd: "fds_side (drive L1) = fds_side (drive L0)" by simp_all
  have "same_image s' (drive L1)" unfolding s' by (rule loaded_drive_image[OF q])
  with fn sd f0 show "fds_filename s' = strlcpy K name" "fds_side s' = side"
    by (simp_all add: same_image_def fresh_def)
qed

text \<open>The storage calls of a save keep the file they write to.\<close>

lemma f_lseek_keeps:
  "f_lseek fs fp ofs = (r, fp1, fs1) \<Longrightarrow> files fs n \<noteq> None \<Longrightarrow> files fs1 n \<noteq> None"
  by (cases "next_fault fs")
    (auto simp: f_lseek_def Let_def split: if_splits dest: next_fault_files)

lemma f_write_keeps:
  "f_write fs fp bytes = (r, bw, fp1, fs1) \<Longrightarrow> files fs n \<noteq> None \<Longrightarrow> files fs1 n \<noteq> None"
  by (cases "next_fault fs")
    (auto simp: f_write_def Let_def split: if_splits dest: next_fault_files)

lemma save_blocks_keeps:
  assumes "save_blocks K s fs fp i = (r, fp', fs')" and "files fs n \<noteq> None"
  shows "files fs' n \<noteq> None"
  using assms
proof (induction K s fs fp i rule: save_blocks.induct)
  case (1 K s fs fp i)
  show ?case
  proof (cases "i < fds_block_count s")
    case False
    with "1.prems" show ?thesis by (simp add: save_blocks.simps[of K s fs fp i])
  next
    case True
    let ?b = "load_bytes (fds_raw_data s) (payload_addr K s i)
                (fds_get_block_size K s i False False)"
    obtain fr bw fp1 fs1 where w: "f_write fs fp ?b = (fr, bw, fp1, fs1)"
      by (cases "f_write fs fp ?b") auto
    note k = f_write_keeps[OF w "1.prems"(2)]
    show ?thesis
    proof (cases "fr \<noteq> FR_OK \<or> int bw \<noteq> fds_get_block_size K s i False False")
      case True
      with "1.prems"(1) \<open>i < fds_block_count s\<close> w k show ?thesis
        by (auto simp: save_blocks.simps[of K s fs fp i] split: if_splits)
    next
      case False
      with "1.prems"(1) \<open>i < fds_block_count s\<close> w
      have "save_blocks K s fs1 fp1 (i + 1) = (r, fp', fs')"
        by (simp add: save_blocks.simps[of K s fs fp i])
      from "1.IH"[OF \<open>i < fds_block_count s\<close> w[symmetric] refl refl _ _ this k] False
      show ?thesis by simp
    qed
  qed
qed

lemma write_image_keeps_file:
  assumes "write_image K h fs alt s = (FR_OK, fs', s')"
  shows "files fs' (dest_name h alt s) \<noteq> None"
proof -
  let ?d = "dest_name h alt s"
  obtain fr1 fp fs1 where o: "f_open fs ?d FA_WRITE = (fr1, fp, fs1)"
    by (cases "f_open fs ?d FA_WRITE") auto
  obtain fr2 fsize fs2 where st: "f_stat fs1 ?d = (fr2, fsize, fs2)"
    by (cases "f_stat fs1 ?d") auto
  let ?t = "nat (int fsize mod FDS_ROM_SIDE_SIZE + uint (fds_side s) * FDS_ROM_SIDE_SIZE)"
  obtain fr3 fp3 fs3 where sk: "f_lseek fs2 fp ?t = (fr3, fp3, fs3)"
    by (cases "f_lseek fs2 fp ?t") auto
  obtain fr4 fp4 fs4 where sb: "save_blocks K s fs3 fp3 0 = (fr4, fp4, fs4)"
    by (cases "save_blocks K s fs3 fp3 0") auto
  obtain fr5 fs5 where cl: "f_close fs4 fp4 = (fr5, fs5)"
    by (cases "f_close fs4 fp4") auto
  from assms o st sk sb cl
  have ok: "fr1 = FR_OK" "fr2 = FR_OK" and e: "fs' = fs5"
    unfolding write_image_def Let_def dest_name_def
    by (auto split: if_splits)
  from f_open_ok[OF o[unfolded ok]] f_stat_ok[OF st[unfolded ok]]
  have "files fs2 ?d \<noteq> None" by auto
  from save_blocks_keeps[OF sb f_lseek_keeps[OF sk this]] f_close_files[OF cl]
  show ?thesis by (simp add: e)
qed

text \<open>The size of the payload that the turn after \<open>k\<close> blocks of \<open>t\<close> reads.\<close>

lemma replayed_size:
  assumes g: "gaps_ok K" and r: "replayed K t behind M k" and k: "0 \<le> k"
  shows "payload_size K (at_payload K M) = fds_get_block_size K t k False False"
proof -
  from r have cnt: "fds_block_count (drive M) = k" and b: "blocks_below K (drive M)"
    by (simp_all add: replayed_def)
  have "fds_get_block_size K (drive M) k False False = fds_get_block_size K t k False False"
  proof (cases "k = 0 \<or> k = 1 \<or> k mod 2 = 0")
    case True
    then show ?thesis by (auto simp: fds_get_block_size_def)
  next
    case False
    from False k have "0 \<le> k - 1 \<and> k - 1 < k" by simp
    with r have "block_with_crc K (drive M) (k - 1) = block_with_crc K t (k - 1)"
      by (simp add: replayed_def)
    then show ?thesis by (simp add: size_from_header[OF False k])
  qed
  with payload_size_at_payload[OF g b] show ?thesis by (simp add: cnt)
qed

lemma announced_via: "announced K s = uint (block_with_crc K s 1 ! 1) * 2 + 2"
  by (simp add: announced_def block_with_crc_def fds_get_block_size_def load_bytes_def
        payload_addr_gap gap_length_of_def)

text \<open>The image holds every file that its file-amount block announces.\<close>

definition holds_announced :: "fds_consts \<Rightarrow> fds \<Rightarrow> bool" where
  "holds_announced K t \<longleftrightarrow> fds_block_count t < 2 \<or> announced K t \<le> fds_block_count t + 1"

text \<open>The bytes \<open>behind\<close> the payloads of \<open>t\<close> in the file are no block that the loader
  could take after the blocks of \<open>t\<close>: it would not fit the buffer, or the file ends
  before it does, or it starts with another tag.\<close>

definition ends_image :: "fds_consts \<Rightarrow> fds \<Rightarrow> u8 list \<Rightarrow> bool" where
  "ends_image K t behind \<longleftrightarrow>
     (let n = fds_block_count t;
          a = (if n = 0 then 0 else end_of K t (n - 1)) + gap_length_of K n;
          z = fds_get_block_size K t n False False
      in FDS_MAX_SIDE_SIZE K < a + z + 2 \<or> int (length behind) < z \<or>
         (0 < z \<and> behind ! 0 \<noteq> block_tag n))"

lemma replay_end:
  assumes g: "gaps_ok K" and r: "replayed K t behind M (fds_block_count t)"
    and n0: "0 \<le> fds_block_count t" and tk: "turn_ok K M" and nf: "faults (lfs M) = []"
    and cp: "holds_announced K t" and en: "ends_image K t behind"
  shows "\<exists>M'. load_block K M = Some (Break M')"
proof -
  let ?n = "fds_block_count t"
  let ?P = "at_payload K M"
  let ?z = "fds_get_block_size K t ?n False False"
  from r have cnt: "fds_block_count (drive M) = ?n"
    and used: "fds_used_space (drive M) = (if ?n = 0 then 0 else end_of K t (?n - 1))"
    by (simp_all add: replayed_def)
  from r have rs: "rest M = behind"
    by (simp add: replayed_def side_bytes.simps[of K t ?n])
  have nr: "\<not> block_required (block_head K M)"
  proof (cases "?n < 2")
    case True
    with turn_ok_head[OF tk] n0 show ?thesis
      by (simp add: block_required_def cnt) (simp add: block_head_def cnt)
  next
    case False
    then have "(0::int) \<le> 1 \<and> 1 < ?n" by simp
    with r have "block_with_crc K (drive M) 1 = block_with_crc K t 1"
      by (simp add: replayed_def)
    then have "announced K (drive M) = announced K t" by (simp add: announced_via)
    with turn_ok_head[OF tk] False cp show ?thesis
      by (simp add: block_required_def cnt holds_announced_def) (simp add: block_head_def cnt)
  qed
  show ?thesis
  proof (cases "overflow K M")
    case True
    from load_block_overflow[OF this] nr show ?thesis by auto
  next
    case False
    have sz: "payload_size K ?P = ?z" by (rule replayed_size[OF g r n0])
    have up: "fds_used_space (drive ?P) = fds_used_space (drive M) + gap_length_of K ?n"
      using at_payload_used[OF g, of M] by (simp add: cnt)
    from False have "\<not> FDS_MAX_SIDE_SIZE K < fds_used_space (drive ?P) + payload_size K ?P + 2"
      by (simp add: overflow_def)
    with en have st: "int (length behind) < ?z \<or> (0 < ?z \<and> behind ! 0 \<noteq> block_tag ?n)"
      by (simp add: ends_image_def Let_def up sz used)
    have "faults (lfs ?P) = []" using nf by (simp add: at_payload_fields)
    from block_read_no_fault[OF this, of K]
    obtain fp1 fs1 where rd: "block_read K ?P = (FR_OK, take (nat ?z) behind, fp1, fs1)"
      by (simp add: sz rs)
    have "premature_eof K M \<or> kind_mismatch K M"
    proof (cases "int (length behind) < ?z")
      case True
      then have "int (length (take (nat ?z) behind)) \<noteq> ?z" by simp
      with False rd show ?thesis by (simp add: premature_eof_def sz)
    next
      case long: False
      with st have z: "0 < ?z" and tg: "behind ! 0 \<noteq> block_tag ?n" by simp_all
      from long z have "nat ?z \<le> length behind" by linarith
      then have l: "int (length (take (nat ?z) behind)) = ?z"
        using z by (simp add: min_def)
      with z have "0 < length (take (nat ?z) behind)" by auto
      then have "store_bytes (fds_raw_data (drive ?P)) (fds_used_space (drive ?P))
                   (take (nat ?z) behind) (fds_used_space (drive ?P)) = behind ! 0"
        using z by (simp add: store_bytes_def)
      with False rd l tg show ?thesis by (simp add: kind_mismatch_def sz cnt)
    qed
    from load_block_invalid[OF this] nr show ?thesis by auto
  qed
qed

text \<open>On a volume without faults the loop takes the blocks of \<open>t\<close> and no other.\<close>

lemma replay_loop_ok:
  assumes g: "gaps_ok K" and lo: "laid_out K t" and tg: "tagged K t" and ck: "crcs_ok K t"
    and cp: "holds_announced K t" and en: "ends_image K t behind"
    and nf: "faults (lfs M) = []" and tk: "turn_ok K M"
    and r: "replayed K t behind M k" and k: "0 \<le> k" "k \<le> fds_block_count t"
  shows "\<exists>M1. load_loop K M = Some (Loaded M1) \<and>
              fds_block_count (drive M1) = fds_block_count t"
  using nf tk r k
proof (induction "nat (fds_block_count t - k)" arbitrary: M k)
  case 0
  then have e: "k = fds_block_count t" by simp
  from "0.prems"(3) have cnt: "fds_block_count (drive M) = k" by (simp add: replayed_def)
  from replay_end[OF g "0.prems"(3)[unfolded e] "0.prems"(4)[unfolded e] "0.prems"(2,1) cp en]
  obtain M' where b: "load_block K M = Some (Break M')" by blast
  from load_loop_Break[OF b] load_block_Break_inv(1)[OF g b] show ?case
    by (simp add: cnt e)
next
  case (Suc n)
  then have lt: "k < fds_block_count t" and n: "n = nat (fds_block_count t - (k + 1))"
    and k1: "0 \<le> k + 1" "k + 1 \<le> fds_block_count t" by simp_all
  from replay_turn[OF g lo tg ck Suc.prems(3,4) lt] Suc.prems(1)
  obtain M' where nx: "load_block K M = Some (Next M')"
    and r': "replayed K t behind M' (k + 1)" and nf': "faults (lfs M') = []"
    by auto
  from Suc.hyps(1)[OF n nf' turn_ok_Next[OF g Suc.prems(2) nx] r' k1] show ?case
    by (simp add: load_loop_Next[OF nx])
qed

text \<open>A load that succeeds, of a file that holds the payloads of \<open>t\<close> at the offset of
  the side, gives an image with the blocks of \<open>t\<close>.\<close>

lemma loaded_holds_blocks:
  assumes g: "gaps_ok K" and mx: "0 \<le> FDS_MAX_SIDE_SIZE K"
    and l: "fds_load_side K h fs name side ro s = Some (FR_OK, fs', s')"
    and ne: "backup_original h \<noteq> SAVES_EVERDRIVE"
    and q: "FDS_SCAN_MEDIA_Pin h = GPIO_PIN_SET \<or> FDS_WRITE_Pin h = GPIO_PIN_SET"
    and dr: "drop (side_offset (length (content fs name)) side) (content fs name)
               = side_bytes K t 0 @ behind"
    and lo: "laid_out K t" and tg: "tagged K t" and ck: "crcs_ok K t"
  shows "holds_blocks K s' t"
proof -
  from fds_load_side_ok[OF l ne] obtain M0 M1
    where f3: "fresh K name side M0"
      and r3: "rest M0 = drop (side_offset (length (content fs name)) side) (content fs name)"
      and lm: "load_loop K M0 = Some (Loaded M1)"
      and s3: "s' = loaded_drive K h M1"
    by (elim exE conjE) (rule that)
  from fresh_replayed[OF f3 mx r3[unfolded dr]] have rp: "replayed K t behind M0 0" .
  from lo have c0: "0 \<le> fds_block_count t" by (simp add: laid_out_def)
  from replay_loop[OF g lo tg ck rp order_refl c0 lm]
  have "holds_blocks K (drive M1) t" .
  from holds_blocks_image[OF _ this, of s'] loaded_drive_image[OF q, of K M1]
  show ?thesis by (simp add: s3)
qed

text \<open>The load of such a file from a volume without faults succeeds, and gives the
  blocks of \<open>t\<close> and no other, when \<open>t\<close> holds the files that it announces and the
  file holds no further block.\<close>

lemma load_of_image_file:
  assumes g: "gaps_ok K" and mx: "0 \<le> FDS_MAX_SIDE_SIZE K"
    and ne: "backup_original h \<noteq> SAVES_EVERDRIVE"
    and q: "FDS_SCAN_MEDIA_Pin h = GPIO_PIN_SET \<or> FDS_WRITE_Pin h = GPIO_PIN_SET"
    and nf: "faults fs = []" and f: "files fs name = Some c"
    and m: "int (length c) mod FDS_ROM_SIDE_SIZE = 0 \<or> int (length c) mod FDS_ROM_SIDE_SIZE = 16"
    and dr: "drop (side_offset (length c) side) c = side_bytes K t 0 @ behind"
    and lo: "laid_out K t" and tg: "tagged K t" and ck: "crcs_ok K t"
    and cp: "holds_announced K t" and en: "ends_image K t behind"
  shows "\<exists>fs' s'. fds_load_side K h fs name side ro s = Some (FR_OK, fs', s') \<and>
                  fds_block_count s' = fds_block_count t \<and> holds_blocks K s' t"
proof -
  from side_loader_no_fault[OF ne nf f m, of K side ro s] obtain M0
    where sl: "side_loader K h fs name side ro s = Some M0" and lf: "lfs M0 = fs"
      and r3: "rest M0 = side_bytes K t 0 @ behind"
    unfolding dr by blast
  note f3 = side_loader_fresh[OF sl]
  from fresh_replayed[OF f3 mx r3] have rp: "replayed K t behind M0 0" .
  have nf0: "faults (lfs M0) = []" by (simp add: lf nf)
  from lo have c0: "0 \<le> fds_block_count t" by (simp add: laid_out_def)
  from replay_loop_ok[OF g lo tg ck cp en nf0 fresh_turn_ok[OF f3 mx] rp order_refl c0]
  obtain M1 where lm: "load_loop K M0 = Some (Loaded M1)"
    and c1: "fds_block_count (drive M1) = fds_block_count t" by blast
  have l: "fds_load_side K h fs name side ro s
          = Some (FR_OK, snd (f_close (lfs M1) (lfp M1)), loaded_drive K h M1)"
    unfolding fds_load_side_loop[OF sl] load_from_def lm
    by (simp add: finish_load_def loaded_drive_def)
  have ct: "content fs name = c" by (simp add: content_def f)
  have "fds_block_count (loaded_drive K h M1) = fds_block_count t"
    using loaded_drive_image[OF q, of K M1] by (simp add: same_image_def c1)
  moreover have "holds_blocks K (loaded_drive K h M1) t"
    by (rule loaded_holds_blocks[OF g mx l ne q _ lo tg ck]) (simp add: ct dr)
  ultimately show ?thesis using l by blast
qed

text \<open>The payload and the stored CRC of a block are the bytes of the block.\<close>

lemma holds_blocks_payload:
  assumes "holds_blocks K s t" and "0 \<le> i" and "i < fds_block_count t"
  shows "block_payload K s i = block_payload K t i"
proof -
  from assms have z: "fds_get_block_size K s i False False = fds_get_block_size K t i False False"
    and w: "block_with_crc K s i = block_with_crc K t i"
    by (simp_all add: holds_blocks_def)
  have l: "length (block_payload K s i) = length (block_payload K t i)"
    by (simp add: block_payload_def z)
  have "block_payload K s i = take (length (block_payload K s i)) (block_with_crc K s i)"
    by (simp add: block_with_crc_split)
  also have "\<dots> = take (length (block_payload K t i)) (block_with_crc K t i)"
    by (simp only: w l)
  also have "\<dots> = block_payload K t i"
    by (simp add: block_with_crc_split)
  finally show ?thesis .
qed

text \<open>
  Claim C1, as amended. The buffer is not empty and both gaps are at least one byte
  long (\<^verbatim>\<open>fdsemu.h\<close>); the name of the file fits \<^verbatim>\<open>fds_filename\<close>, which is the name that
  the save opens; the saves are in place; the host is not writing when a load ends
  (\<^verbatim>\<open>fds_check_pins\<close> would start a write into the image). Side \<open>side\<close> of the file was
  loaded, and \<open>t\<close> is the image in the buffer when the save is called: an image of that
  file and side, dirty, whatever the console wrote into it since the load. Its block
  index is laid out as the loader and the writer lay it out, each of its blocks starts
  with the tag of its kind, the first holds the signature, and its payloads end inside
  the file. When the save succeeds, then

  \<^item> the file holds the payloads of \<open>t\<close> from the offset of the side on, and is as before
    elsewhere;
  \<^item> a load of the same side after it that succeeds gives an image with every block of
    \<open>t\<close>: at the same offset, of the same size, with the same payload bytes and the same
    two CRC bytes behind them;
  \<^item> that load does succeed, and gives as many blocks as \<open>t\<close> has, when no fault of the
    volume is pending, \<open>t\<close> holds every file that its file-amount block announces, and the
    bytes of the file behind the payloads are no block that the loader could take.
\<close>

theorem reload_holds_saved_blocks:
  assumes g: "gaps_ok K" and mx: "0 \<le> FDS_MAX_SIDE_SIZE K"
    and nm: "length name \<le> FF_MAX_LFN K"
    and ip: "backup_original h1 = SAVES_IN_PLACE" "backup_original h2 = SAVES_IN_PLACE"
      "backup_original h3 = SAVES_IN_PLACE"
    and q1: "FDS_SCAN_MEDIA_Pin h1 = GPIO_PIN_SET \<or> FDS_WRITE_Pin h1 = GPIO_PIN_SET"
    and q3: "FDS_SCAN_MEDIA_Pin h3 = GPIO_PIN_SET \<or> FDS_WRITE_Pin h3 = GPIO_PIN_SET"
    and l1: "fds_load_side K h1 fs name side ro s0 = Some (FR_OK, fs1, s1)"
    and tn: "fds_filename t = fds_filename s1" "fds_side t = fds_side s1"
    and ch: "fds_changed t \<noteq> 0"
    and lo: "laid_out K t" and tg: "tagged K t"
    and fit: "side_offset (length (content fs1 name)) side + length (side_bytes K t 0)
                \<le> length (content fs1 name)"
    and sv: "fds_save K h2 fs1 t = Some (FR_OK, fs2, t')"
  shows "content fs2 name
           = take (side_offset (length (content fs1 name)) side) (content fs1 name)
             @ side_bytes K t 0
             @ drop (side_offset (length (content fs1 name)) side + length (side_bytes K t 0))
                 (content fs1 name) \<and>
         (\<forall>fs3 s3. fds_load_side K h3 fs2 name side ro' t' = Some (FR_OK, fs3, s3) \<longrightarrow>
            holds_blocks K s3 t) \<and>
         (faults fs2 = [] \<and> holds_announced K t \<and>
          ends_image K t
            (drop (side_offset (length (content fs1 name)) side + length (side_bytes K t 0))
               (content fs1 name)) \<longrightarrow>
            (\<exists>fs3 s3. fds_load_side K h3 fs2 name side ro' t' = Some (FR_OK, fs3, s3) \<and>
               fds_block_count s3 = fds_block_count t))"
proof -
  let ?c = "content fs1 name"
  let ?p = "side_offset (length ?c) side"
  let ?sb = "side_bytes K t 0"
  let ?behind = "drop (?p + length ?sb) ?c"
  have ne: "backup_original h1 \<noteq> SAVES_EVERDRIVE" "backup_original h3 \<noteq> SAVES_EVERDRIVE"
    by (simp_all add: ip)
  have sl: "strlcpy K name = name" using nm by (simp add: strlcpy_def)
  from fds_load_side_names[OF g mx l1 ne(1) q1] tn
  have tf: "fds_filename t = name" "fds_side t = side" by (simp_all add: sl)
  from fds_load_side_ok[OF l1 ne(1)]
  have m1: "int (length ?c) mod FDS_ROM_SIDE_SIZE = 0 \<or> int (length ?c) mod FDS_ROM_SIDE_SIZE = 16"
    by auto
  have wr: "content fs2 name = take ?p ?c @ ?sb @ ?behind"
    using fds_save_content[OF sv ch ip(2)] m1 fit by (simp add: tf)
  from fit have le: "?p \<le> length ?c" by simp
  have ln: "length (content fs2 name) = length ?c" using fit by (simp add: wr)
  have dr: "drop (side_offset (length (content fs2 name)) side) (content fs2 name) = ?sb @ ?behind"
    unfolding ln using le by (simp add: wr)
  note ck = fds_save_ok(2)[OF sv ch ip(2)]
  have a: "holds_blocks K s3 t"
    if l3: "fds_load_side K h3 fs2 name side ro' t' = Some (FR_OK, fs3, s3)" for fs3 s3
    by (rule loaded_holds_blocks[OF g mx l3 ne(2) q3 dr lo tg ck])
  have b: "\<exists>fs3 s3. fds_load_side K h3 fs2 name side ro' t' = Some (FR_OK, fs3, s3) \<and>
               fds_block_count s3 = fds_block_count t"
    if nf: "faults fs2 = []" and cp: "holds_announced K t" and en: "ends_image K t ?behind"
  proof -
    have dn: "dest_name h2 [] t = name" using ip(2) by (simp add: dest_name_def tf)
    from write_image_keeps_file[OF fds_save_ok(3)[OF sv ch ip(2)]]
    have f: "files fs2 name = Some (content fs2 name)" by (auto simp: dn content_def)
    have m2: "int (length (content fs2 name)) mod FDS_ROM_SIDE_SIZE = 0 \<or>
              int (length (content fs2 name)) mod FDS_ROM_SIDE_SIZE = 16"
      unfolding ln by (rule m1)
    from load_of_image_file[OF g mx ne(2) q3 nf f m2 dr lo tg ck cp en, of ro' t']
    show ?thesis by blast
  qed
  from wr a b show ?thesis by blast
qed

section \<open>An image that the console rewrote, saved and loaded again\<close>

lemma block_payload_hd:
  "0 < fds_get_block_size K s i False False \<Longrightarrow>
   fds_raw_data s (payload_addr K s i) = block_payload K s i ! 0"
  by (simp add: block_payload_def load_bytes_def)

lemma side_offset_disk_image: "side_offset (length disk_image) 0 = 0"
  by (simp add: side_offset_def length_disk_image FDS_ROM_SIDE_SIZE_def FDS_ROM_HEADER_SIZE_def)

lemma disk_image_mod:
  "int (length disk_image) mod FDS_ROM_SIDE_SIZE = 0 \<or>
   int (length disk_image) mod FDS_ROM_SIDE_SIZE = 16"
  by (simp add: length_disk_image FDS_ROM_SIDE_SIZE_def)

text \<open>The written image of three blocks is laid out and tagged as the loader expects,
  and holds the one file that it announces; the file header announces \<open>0xFFFD\<close> bytes
  of data, more than a file of one side has left.\<close>

lemma written_drive_end_of:
  "end_of sample_consts (written_drive c n u) 0 = 3595"
  "end_of sample_consts (written_drive c n u) 1 = 3721"
  "end_of sample_consts (written_drive c n u) 2 = 3861"
  by (simp_all add: end_of_def written_drive_addr written_drive_size)

lemma written_drive_laid_out: "laid_out sample_consts (written_drive c 3 u)"
  unfolding laid_out_def
proof (intro conjI allI impI)
  show "0 \<le> fds_block_count (written_drive c 3 u)" by (simp add: written_drive_fields)
next
  fix i assume "0 \<le> i \<and> i < fds_block_count (written_drive c 3 u)"
  then have i: "i = 0 \<or> i = 1 \<or> i = 2" by (auto simp: written_drive_fields)
  then show "fds_block_offsets (written_drive c 3 u) i
               = (if i = 0 then 0 else end_of sample_consts (written_drive c 3 u) (i - 1))"
    by (auto simp: written_drive_end_of) (simp_all add: written_drive_def)
  from i show "end_of sample_consts (written_drive c 3 u) i \<le> FDS_MAX_SIDE_SIZE sample_consts"
    by (auto simp: written_drive_end_of sample_gaps)
qed

lemma written_drive_tagged:
  assumes "length c = 2"
  shows "tagged sample_consts (written_drive c 3 u)"
  unfolding tagged_def
proof (intro conjI allI impI)
  fix i assume "0 \<le> i \<and> i < fds_block_count (written_drive c 3 u)"
  then have i: "i = 0 \<or> i = 1 \<or> i = 2" by (auto simp: written_drive_fields)
  then show z: "0 < fds_get_block_size sample_consts (written_drive c 3 u) i False False"
    by (auto simp: written_drive_size)
  from i show "fds_raw_data (written_drive c 3 u) (payload_addr sample_consts (written_drive c 3 u) i)
                 = block_tag i"
    unfolding block_payload_hd[OF z]
    by (auto simp: written_drive_payload[OF assms] block_tag_def header_block_def
          file_header_def)
next
  have "load_bytes (fds_raw_data (written_drive c 3 u)) (3537 + int 1) (int 14)
          = take 14 (drop 1 (written_bytes c))"
    by (rule written_drive_slice[OF assms]) simp
  then show "load_bytes (fds_raw_data (written_drive c 3 u))
               (payload_addr sample_consts (written_drive c 3 u) 0 + 1) 14 = signature"
    by (simp add: written_drive_addr written_bytes_def header_block_def signature_def)
qed

lemma written_drive_announced:
  assumes "length c = 2"
  shows "holds_announced sample_consts (written_drive c 3 u)"
proof -
  have "fds_raw_data (written_drive c 3 u) (3537 + int 181) = written_bytes c ! 181"
    by (rule written_drive_raw[OF assms]) simp
  then have "fds_raw_data (written_drive c 3 u) 3718 = 1"
    by (simp add: written_bytes_def nth_append length_header_block)
  moreover have "fds_block_offsets (written_drive c 3 u) 1 = 3595"
    by (simp add: written_drive_def)
  ultimately show ?thesis
    by (simp add: holds_announced_def announced_def written_drive_fields sample_next_gap)
qed

lemma written_drive_ends:
  assumes "length c = 2"
  shows "ends_image sample_consts (written_drive c 3 u) (replicate 65426 0)"
  by (simp add: ends_image_def Let_def written_drive_fields written_drive_end_of
        written_drive_size_3[OF assms] sample_gaps gap_length_of_def sample_next_gap)

theorem reload_holds_saved_blocks_witness:
  "\<exists>fs1 s1 fs2 t' fs3 s3.
     gaps_ok sample_consts \<and> 0 \<le> FDS_MAX_SIDE_SIZE sample_consts \<and>
     length ''game.fds'' \<le> FF_MAX_LFN sample_consts \<and>
     backup_original sample_host = SAVES_IN_PLACE \<and>
     (FDS_SCAN_MEDIA_Pin sample_host = GPIO_PIN_SET \<or> FDS_WRITE_Pin sample_host = GPIO_PIN_SET) \<and>
     fds_load_side sample_consts sample_host disk_volume ''game.fds'' 0 0 sample_drive
       = Some (FR_OK, fs1, s1) \<and>
     fds_block_count s1 = 1 \<and> content fs1 ''game.fds'' = disk_image \<and>
     fds_filename (written_drive [162, 81] 3 3861) = fds_filename s1 \<and>
     fds_side (written_drive [162, 81] 3 3861) = fds_side s1 \<and>
     fds_changed (written_drive [162, 81] 3 3861) \<noteq> 0 \<and>
     fds_block_count (written_drive [162, 81] 3 3861) = 3 \<and>
     laid_out sample_consts (written_drive [162, 81] 3 3861) \<and>
     tagged sample_consts (written_drive [162, 81] 3 3861) \<and>
     fds_save sample_consts sample_host fs1 (written_drive [162, 81] 3 3861)
       = Some (FR_OK, fs2, t') \<and>
     content fs2 ''game.fds'' = header_block @ [2, 1] @ file_header @ replicate 65426 0 \<and>
     faults fs2 = [] \<and> holds_announced sample_consts (written_drive [162, 81] 3 3861) \<and>
     ends_image sample_consts (written_drive [162, 81] 3 3861) (replicate 65426 0) \<and>
     fds_load_side sample_consts sample_host fs2 ''game.fds'' 0 0 t' = Some (FR_OK, fs3, s3) \<and>
     fds_block_count s3 = 3 \<and>
     holds_blocks sample_consts s3 (written_drive [162, 81] 3 3861) \<and>
     block_payload sample_consts s3 2 = file_header"
proof -
  let ?K = sample_consts
  let ?h = sample_host
  let ?W = "written_drive [162, 81] 3 3861"
  have nf: "faults disk_volume = []" and f: "files disk_volume ''game.fds'' = Some disk_image"
    by (simp_all add: disk_volume_def sample_volume_def)
  have ct: "content disk_volume ''game.fds'' = disk_image" by (simp add: content_def f)
  from header_load[OF nf f, of sample_drive] obtain s1
    where l1: "fds_load_side ?K ?h disk_volume ''game.fds'' 0 0 sample_drive
                 = Some (FR_OK, disk_volume, s1)"
      and n1: "fds_filename s1 = ''game.fds''" "fds_side s1 = 0" "fds_block_count s1 = 1"
    by blast
  have g: "gaps_ok ?K" and mx: "0 \<le> FDS_MAX_SIDE_SIZE ?K" by (simp_all add: sample_gaps)
  have nm: "length ''game.fds'' \<le> FF_MAX_LFN ?K" by (simp add: sample_consts_def)
  note ip = sample_host_idle(2)
  note q = sample_host_idle(1)
  have tn: "fds_filename ?W = fds_filename s1" "fds_side ?W = fds_side s1"
    by (simp_all add: written_drive_fields n1)
  have ch: "fds_changed ?W \<noteq> 0" and ro: "fds_readonly ?W = 0" and n: "fds_block_count ?W = 3"
    by (simp_all add: written_drive_fields)
  have lo: "laid_out ?K ?W" by (rule written_drive_laid_out)
  have tg: "tagged ?K ?W" by (rule written_drive_tagged) simp
  have sb: "side_bytes ?K ?W 0 = header_block @ [2, 1] @ file_header"
    by (rule written_drive_side_bytes) simp
  have fW: "files disk_volume (fds_filename ?W) = Some disk_image"
    by (simp add: written_drive_fields f)
  have fit0: "nat (int (length disk_image) mod FDS_ROM_SIDE_SIZE
                  + uint (fds_side ?W) * FDS_ROM_SIDE_SIZE)
               + length (side_bytes ?K ?W 0) \<le> length disk_image"
    by (simp add: sb written_drive_fields FDS_ROM_SIDE_SIZE_def length_header_block
          length_file_header length_disk_image)
  from fds_save_inside[OF nf fW ip ch ro written_drive_crcs_ok fit0]
  obtain fs2 t' where sv: "fds_save ?K ?h disk_volume ?W = Some (FR_OK, fs2, t')"
    and nf2: "faults fs2 = []" by blast
  have so: "side_offset (length (content disk_volume ''game.fds'')) 0 = 0"
    unfolding ct by (rule side_offset_disk_image)
  have fit: "side_offset (length (content disk_volume ''game.fds'')) 0
               + length (side_bytes ?K ?W 0) \<le> length (content disk_volume ''game.fds'')"
    unfolding so
    by (simp add: ct sb length_header_block length_file_header length_disk_image)
  have bh: "drop (side_offset (length (content disk_volume ''game.fds'')) 0
                  + length (side_bytes ?K ?W 0)) (content disk_volume ''game.fds'')
              = replicate 65426 0"
    unfolding so
    by (simp add: ct sb length_header_block length_file_header disk_image_def)
  have cp: "holds_announced ?K ?W" by (rule written_drive_announced) simp
  have en: "ends_image ?K ?W (replicate 65426 0)" by (rule written_drive_ends) simp
  note th = reload_holds_saved_blocks[OF g mx nm ip ip ip q q l1 tn ch lo tg fit sv,
      of 0, unfolded bh]
  from th have wr: "content fs2 ''game.fds''
                      = header_block @ [2, 1] @ file_header @ replicate 65426 0"
    unfolding so by (simp add: sb)
  from th nf2 cp en obtain fs3 s3
    where l3: "fds_load_side ?K ?h fs2 ''game.fds'' 0 0 t' = Some (FR_OK, fs3, s3)"
      and c3: "fds_block_count s3 = 3" by (auto simp: n)
  from th l3 have hb: "holds_blocks ?K s3 ?W" by blast
  from holds_blocks_payload[OF hb, of 2]
  have p3: "block_payload ?K s3 2 = file_header"
    by (simp add: n written_drive_payload)
  from g mx nm ip q l1 n1(3) ct tn ch n lo tg sv wr nf2 cp en l3 c3 hb p3
  show ?thesis by blast
qed

text \<open>
  The image of a disk with one block; the console rewrote the block, with a byte of the
  disk information changed and the CRC that fits. The save writes the new block to the
  file and the load after it gives the new block, not the one of the first load.
\<close>

definition titled_block :: "u8 list" where
  "titled_block = 1 # signature @ 65 # replicate 40 0"

definition first_drive :: "u8 list \<Rightarrow> fds" where
  "first_drive bs =
     sample_drive
       \<lparr>fds_raw_data := store_bytes (\<lambda>a. 0) 3537 bs,
        fds_used_space := 3595, fds_block_count := 1,
        fds_block_offsets := (\<lambda>i. 0),
        fds_changed := 1\<rparr>"

lemma length_titled_block: "length titled_block = 56"
  by (simp add: titled_block_def signature_def)

lemma spec_crc_titled_block: "spec_crc titled_block = 40082"
  by (simp add: spec_crc_def spec_crc_byte_def spec_crc_bit_def bit_0 replicate_numeral
        titled_block_def signature_def)

lemma first_drive_fields:
  "fds_block_count (first_drive bs) = 1"
  "fds_changed (first_drive bs) = 1"
  "fds_readonly (first_drive bs) = 0"
  "fds_filename (first_drive bs) = ''game.fds''"
  "fds_side (first_drive bs) = 0"
  "payload_addr sample_consts (first_drive bs) 0 = 3537"
  "fds_get_block_size sample_consts (first_drive bs) 0 False False = 56"
  "fds_get_block_size sample_consts (first_drive bs) 1 False False = 2"
  "end_of sample_consts (first_drive bs) 0 = 3595"
  by (simp_all add: first_drive_def sample_drive_def payload_addr_def sample_consts_def
        fds_get_block_size_def end_of_def)

lemma first_drive_payload:
  "block_payload sample_consts (first_drive (titled_block @ c)) 0 = titled_block"
proof -
  have "load_bytes (store_bytes (\<lambda>a. 0) 3537 (titled_block @ c)) (3537 + int 0) (int 56)
          = take 56 (drop 0 (titled_block @ c))"
    by (rule load_bytes_store_sub) (simp add: length_titled_block)
  then show ?thesis
    by (simp add: block_payload_def first_drive_fields length_titled_block)
      (simp add: first_drive_def)
qed

lemma first_drive_stored:
  "stored_crc sample_consts (first_drive (titled_block @ [146, 156])) 0 = 40082"
proof -
  have "store_bytes (\<lambda>a. 0) 3537 (titled_block @ [146, 156]) (3537 + int 56)
          = (titled_block @ [146, 156]) ! 56"
    "store_bytes (\<lambda>a. 0) 3537 (titled_block @ [146, 156]) (3537 + int 57)
          = (titled_block @ [146, 156]) ! 57"
    by (rule store_bytes_nth, simp add: length_titled_block)+
  then have "fds_raw_data (first_drive (titled_block @ [146, 156])) 3593 = 146"
    "fds_raw_data (first_drive (titled_block @ [146, 156])) 3594 = 156"
    by (simp_all add: first_drive_def nth_append length_titled_block)
  then show ?thesis by (simp add: stored_crc_def first_drive_fields le16_def)
qed

lemma first_drive_crcs_ok: "crcs_ok sample_consts (first_drive (titled_block @ [146, 156]))"
  unfolding crcs_ok_def
proof (intro allI impI)
  fix i assume "0 \<le> i \<and> i < fds_block_count (first_drive (titled_block @ [146, 156]))"
  then have i: "i = 0" by (simp add: first_drive_fields)
  show "\<exists>c. fds_crc (block_payload sample_consts (first_drive (titled_block @ [146, 156])) i)
              = Some c \<and>
            stored_crc sample_consts (first_drive (titled_block @ [146, 156])) i = uint c"
    unfolding i first_drive_payload first_drive_stored
    by (simp add: fds_crc_spec length_titled_block spec_crc_titled_block)
qed

lemma first_drive_side_bytes:
  "side_bytes sample_consts (first_drive (titled_block @ c)) 0 = titled_block"
  by (simp add: side_bytes.simps[of sample_consts "first_drive (titled_block @ c)" 0]
        side_bytes.simps[of sample_consts "first_drive (titled_block @ c)" 1]
        first_drive_fields first_drive_payload)

lemma first_drive_laid_out: "laid_out sample_consts (first_drive bs)"
  unfolding laid_out_def
proof (intro conjI allI impI)
  show "0 \<le> fds_block_count (first_drive bs)" by (simp add: first_drive_fields)
next
  fix i assume "0 \<le> i \<and> i < fds_block_count (first_drive bs)"
  then have i: "i = 0" by (simp add: first_drive_fields)
  show "fds_block_offsets (first_drive bs) i
          = (if i = 0 then 0 else end_of sample_consts (first_drive bs) (i - 1))"
    by (simp add: i first_drive_def)
  show "end_of sample_consts (first_drive bs) i \<le> FDS_MAX_SIDE_SIZE sample_consts"
    by (simp add: i first_drive_fields sample_gaps)
qed

lemma first_drive_tagged: "tagged sample_consts (first_drive (titled_block @ c))"
  unfolding tagged_def
proof (intro conjI allI impI)
  fix i assume "0 \<le> i \<and> i < fds_block_count (first_drive (titled_block @ c))"
  then have i: "i = 0" by (simp add: first_drive_fields)
  show z: "0 < fds_get_block_size sample_consts (first_drive (titled_block @ c)) i False False"
    by (simp add: i first_drive_fields)
  have "fds_raw_data (first_drive (titled_block @ c))
          (payload_addr sample_consts (first_drive (titled_block @ c)) i)
        = block_payload sample_consts (first_drive (titled_block @ c)) i ! 0"
    by (rule block_payload_hd[OF z])
  also have "\<dots> = titled_block ! 0" by (simp only: i first_drive_payload)
  also have "\<dots> = block_tag i" by (simp add: i titled_block_def block_tag_def)
  finally show "fds_raw_data (first_drive (titled_block @ c))
          (payload_addr sample_consts (first_drive (titled_block @ c)) i) = block_tag i" .
next
  have "load_bytes (store_bytes (\<lambda>a. 0) 3537 (titled_block @ c)) (3537 + int 1) (int 14)
          = take 14 (drop 1 (titled_block @ c))"
    by (rule load_bytes_store_sub) (simp add: length_titled_block)
  then show "load_bytes (fds_raw_data (first_drive (titled_block @ c)))
               (payload_addr sample_consts (first_drive (titled_block @ c)) 0 + 1) 14 = signature"
    by (simp add: first_drive_fields) (simp add: first_drive_def titled_block_def signature_def)
qed

lemma first_drive_ends:
  "ends_image sample_consts (first_drive bs) (replicate 65444 0)"
  by (simp add: ends_image_def Let_def first_drive_fields sample_gaps block_tag_def)

text \<open>
  Claim C1 as the specification states it does not hold: the blocks after the second
  load are those of the image that was saved, and an image is dirty because the console
  wrote to it after the first load.
\<close>

theorem reload_differs_from_first_load_counterexample:
  "\<exists>fs1 s1 fs2 t' fs3 s3.
     fds_load_side sample_consts sample_host disk_volume ''game.fds'' 0 0 sample_drive
       = Some (FR_OK, fs1, s1) \<and>
     fds_filename (first_drive (titled_block @ [146, 156])) = fds_filename s1 \<and>
     fds_side (first_drive (titled_block @ [146, 156])) = fds_side s1 \<and>
     fds_block_count (first_drive (titled_block @ [146, 156])) = fds_block_count s1 \<and>
     fds_changed (first_drive (titled_block @ [146, 156])) \<noteq> 0 \<and>
     fds_readonly (first_drive (titled_block @ [146, 156])) = 0 \<and>
     fds_save sample_consts sample_host fs1 (first_drive (titled_block @ [146, 156]))
       = Some (FR_OK, fs2, t') \<and>
     fds_load_side sample_consts sample_host fs2 ''game.fds'' 0 0 t' = Some (FR_OK, fs3, s3) \<and>
     fds_block_count s3 = fds_block_count s1 \<and>
     block_payload sample_consts s1 0 = header_block \<and>
     block_payload sample_consts s3 0 = titled_block \<and>
     block_payload sample_consts s3 0 \<noteq> block_payload sample_consts s1 0"
proof -
  let ?K = sample_consts
  let ?h = sample_host
  let ?T = "first_drive (titled_block @ [146, 156])"
  have nf: "faults disk_volume = []" and f: "files disk_volume ''game.fds'' = Some disk_image"
    by (simp_all add: disk_volume_def sample_volume_def)
  have ct: "content disk_volume ''game.fds'' = disk_image" by (simp add: content_def f)
  from header_load[OF nf f, of sample_drive] obtain s1
    where l1: "fds_load_side ?K ?h disk_volume ''game.fds'' 0 0 sample_drive
                 = Some (FR_OK, disk_volume, s1)"
      and n1: "fds_filename s1 = ''game.fds''" "fds_side s1 = 0" "fds_block_count s1 = 1"
      and p1: "block_payload ?K s1 0 = header_block"
    by blast
  have g: "gaps_ok ?K" and mx: "0 \<le> FDS_MAX_SIDE_SIZE ?K" by (simp_all add: sample_gaps)
  note ip = sample_host_idle(2)
  note q = sample_host_idle(1)
  have ne: "backup_original ?h \<noteq> SAVES_EVERDRIVE" by (simp add: ip)
  have tf: "fds_filename ?T = ''game.fds''" "fds_side ?T = 0" "fds_block_count ?T = 1"
    and ch: "fds_changed ?T \<noteq> 0" and ro: "fds_readonly ?T = 0"
    by (simp_all add: first_drive_fields)
  have fT: "files disk_volume (fds_filename ?T) = Some disk_image" by (simp add: tf f)
  have fit0: "nat (int (length disk_image) mod FDS_ROM_SIDE_SIZE
                  + uint (fds_side ?T) * FDS_ROM_SIDE_SIZE)
               + length (side_bytes ?K ?T 0) \<le> length disk_image"
    by (simp add: first_drive_side_bytes tf FDS_ROM_SIDE_SIZE_def length_titled_block
          length_disk_image)
  from fds_save_inside[OF nf fT ip ch ro first_drive_crcs_ok fit0]
  obtain fs2 t' where sv: "fds_save ?K ?h disk_volume ?T = Some (FR_OK, fs2, t')"
    and nf2: "faults fs2 = []" by blast
  have "content fs2 (fds_filename ?T)
          = take (side_offset (length (content disk_volume (fds_filename ?T))) (fds_side ?T))
               (content disk_volume (fds_filename ?T))
             @ side_bytes ?K ?T 0
             @ drop (side_offset (length (content disk_volume (fds_filename ?T))) (fds_side ?T)
                     + length (side_bytes ?K ?T 0))
                 (content disk_volume (fds_filename ?T))"
    unfolding tf ct
    by (rule fds_save_content[OF sv ch ip, unfolded tf ct, OF disk_image_mod])
      (simp add: side_offset_def FDS_ROM_SIDE_SIZE_def FDS_ROM_HEADER_SIZE_def
         first_drive_side_bytes length_titled_block length_disk_image)
  then have c2: "content fs2 ''game.fds'' = titled_block @ replicate 65444 0"
    unfolding tf ct side_offset_disk_image
    by (simp add: first_drive_side_bytes length_titled_block
          disk_image_def length_header_block)
  have "files fs2 (dest_name ?h [] ?T) \<noteq> None"
    by (rule write_image_keeps_file[OF fds_save_ok(3)[OF sv ch ip]])
  then have f2: "files fs2 ''game.fds'' = Some (titled_block @ replicate 65444 0)"
    using c2 by (auto simp: dest_name_def ip tf content_def)
  have m2: "int (length (titled_block @ replicate 65444 (0 :: u8))) mod FDS_ROM_SIDE_SIZE = 0 \<or>
            int (length (titled_block @ replicate 65444 (0 :: u8))) mod FDS_ROM_SIDE_SIZE = 16"
    by (simp add: length_titled_block FDS_ROM_SIDE_SIZE_def)
  have dr: "drop (side_offset (length (titled_block @ replicate 65444 (0 :: u8))) 0)
              (titled_block @ replicate 65444 0)
            = side_bytes ?K ?T 0 @ replicate 65444 0"
    by (simp add: first_drive_side_bytes side_offset_def length_titled_block
          FDS_ROM_SIDE_SIZE_def FDS_ROM_HEADER_SIZE_def)
  have cp: "holds_announced ?K ?T" by (simp add: holds_announced_def tf)
  from load_of_image_file[OF g mx ne q nf2 f2 m2 dr first_drive_laid_out first_drive_tagged
      first_drive_crcs_ok cp first_drive_ends, of 0 t']
  obtain fs3 s3 where l3: "fds_load_side ?K ?h fs2 ''game.fds'' 0 0 t' = Some (FR_OK, fs3, s3)"
    and c3: "fds_block_count s3 = 1" and hb: "holds_blocks ?K s3 ?T"
    by (auto simp: tf)
  from holds_blocks_payload[OF hb, of 0]
  have p3: "block_payload ?K s3 0 = titled_block"
    by (simp add: tf first_drive_payload)
  have "replicate 41 (0 :: u8) = 0 # replicate 40 0" by (simp add: replicate_numeral)
  then have d: "titled_block \<noteq> header_block"
    by (simp add: titled_block_def header_block_def)
  from l1 n1 tf ch ro sv l3 c3 p1 p3 d show ?thesis by auto
qed

end
